theory Spec2Isabelle
  imports Complex_Main "HOL-Library.AList" "HOL-Library.List_Lexorder" "HOL-Library.Char_ord"
    "HOL-Library.Monad_Syntax"
begin

section \<open>Data model of the gameplay core (GameState.ts)\<close>

text \<open>
  JavaScript numbers are modelled as \<^typ>\<open>real\<close> (array indices and counters as
  \<^typ>\<open>nat\<close> and \<^typ>\<open>int\<close>). A \<open>Map<string, v>\<close> is an association list
  in insertion order: \<open>map.get\<close> is \<^const>\<open>map_of\<close>, \<open>map.set\<close> is
  \<^const>\<open>AList.update\<close> (an existing key keeps its place, a new key goes last),
  \<open>map.delete\<close> is \<^const>\<open>AList.delete\<close>. A \<open>Set<string>\<close> is a list
  without repetitions in insertion order. A thrown \<open>TypeError\<close> is a value
  \<open>Inl e\<close> of the result type.
\<close>

record Position =
  pos_x :: real
  pos_y :: real

record HitCircle =
  hc_id :: string
  hc_position :: Position
  hc_radius :: real
  hc_hitTime :: real
  hc_spawnTime :: real

record SliderCheckPoint =
  cp_id :: string
  cp_hitTime :: real

record Slider =
  sl_id :: string
  sl_head :: HitCircle
  sl_checkPoints :: "SliderCheckPoint list"
  sl_startTime :: real
  sl_endTime :: real
  sl_duration :: real
  sl_radius :: real
  sl_spawnTime :: real
  sl_ballPositionAt :: "real \<Rightarrow> Position"

record Spinner =
  sp_id :: string
  sp_startTime :: real
  sp_endTime :: real
  sp_spawnTime :: real

datatype OsuHitObject = HitCircleObject HitCircle | SliderObject Slider | SpinnerObject Spinner

record Beatmap =
  hitObjects :: "OsuHitObject list"

datatype OsuAction = leftButton | rightButton

record ReplayFrame =
  fr_time :: real
  fr_position :: Position
  fr_actions :: "OsuAction list"

datatype MainHitObjectVerdict = GREAT | OK | MEH | MISS

datatype NoteLockStyle = NONE | STABLE | LAZER

datatype HitCircleMissReason =
  TIME_EXPIRED | HIT_TOO_EARLY | FORCE_MISS_NOTELOCK | SLIDER_FINISHED_FASTER

record HitCircleState =
  judgementTime :: real
  hcs_type :: MainHitObjectVerdict
  missReason :: "HitCircleMissReason option"

record CheckPointState =
  hit :: bool

record SliderBodyState =
  isTracking :: bool

record SpinnerState =
  wholeSpinCount :: real

record GameState =
  currentTime :: real
  cursorPosition :: Position
  hitCircleState :: "(string \<times> HitCircleState) list"
  sliderBodyState :: "(string \<times> SliderBodyState) list"
  checkPointState :: "(string \<times> CheckPointState) list"
  sliderJudgement :: "(string \<times> MainHitObjectVerdict) list"
  spinnerState :: "(string \<times> SpinnerState) list"
  currentCombo :: int
  maxCombo :: int
  clickWasUseful :: bool
  judgedObjects :: "string list"
  latestHitObjectIndex :: nat
  aliveHitCircleIds :: "string list"
  aliveSliderIds :: "string list"
  aliveSpinnerIds :: "string list"
  nextCheckPointIndex :: "(string \<times> nat) list"
  pressingSince :: "real list"

text \<open>
  The evaluator's configuration: the beatmap, the hit window table that the constructor
  takes from \<open>hitWindowsForOD\<close> (a table indexed by verdict, here a parameter) and the
  note lock style. The evaluator's private fields \<open>timeSupposedToClick\<close>,
  \<open>nextTimeSupposedToClick\<close>, \<open>previousTime\<close> and \<open>previousPosition\<close> are
  assigned afresh in every call before they are read, so they are arguments of the
  functions that read them.
\<close>

record Evaluator =
  beatmap :: Beatmap
  hitWindows :: "MainHitObjectVerdict \<Rightarrow> real"
  noteLockStyle :: NoteLockStyle

datatype error = UnknownHitObject string | UndefinedCheckPoint string nat

section \<open>Helpers that GameState.ts imports\<close>

definition vec2_distance :: "Position \<Rightarrow> Position \<Rightarrow> real" where
  \<comment> \<open>Modelled from the spec: \<open>Vec2.distance\<close> of the math library, the Euclidean
      distance of two positions.\<close>
  "vec2_distance a b = sqrt ((pos_x a - pos_x b)\<^sup>2 + (pos_y a - pos_y b)\<^sup>2)"

definition vec2_interpolate :: "Position \<Rightarrow> Position \<Rightarrow> real \<Rightarrow> Position" where
  \<comment> \<open>Modelled from the spec: \<open>Vec2.interpolate\<close> of the math library, the linear
      interpolation \<open>lerp(a, b, f)\<close>.\<close>
  "vec2_interpolate a b f =
     \<lparr>pos_x = pos_x a + (pos_x b - pos_x a) * f, pos_y = pos_y a + (pos_y b - pos_y a) * f\<rparr>"

lemma vec2_distance_less_iff [code_unfold]:
  "r < vec2_distance a b \<longleftrightarrow>
     r < 0 \<or> r\<^sup>2 < (pos_x a - pos_x b)\<^sup>2 + (pos_y a - pos_y b)\<^sup>2"
proof (cases "r < 0")
  case True
  have "0 \<le> vec2_distance a b" by (simp add: vec2_distance_def)
  with True show ?thesis by simp
next
  case False
  then have "r = sqrt (r\<^sup>2)" by simp
  then have "r < vec2_distance a b \<longleftrightarrow> sqrt (r\<^sup>2) < vec2_distance a b" by simp
  also have "\<dots> \<longleftrightarrow> r\<^sup>2 < (pos_x a - pos_x b)\<^sup>2 + (pos_y a - pos_y b)\<^sup>2"
    unfolding vec2_distance_def by (rule real_sqrt_less_iff)
  finally show ?thesis using False by simp
qed

fun hitCirclesOf :: "OsuHitObject \<Rightarrow> HitCircle list" where
  "hitCirclesOf (HitCircleObject h) = [h]"
| "hitCirclesOf (SliderObject sl) = [sl_head sl]"
| "hitCirclesOf (SpinnerObject sp) = []"

fun slidersOf :: "OsuHitObject \<Rightarrow> Slider list" where
  "slidersOf (SliderObject sl) = [sl]"
| "slidersOf _ = []"

fun spinnersOf :: "OsuHitObject \<Rightarrow> Spinner list" where
  "spinnersOf (SpinnerObject sp) = [sp]"
| "spinnersOf _ = []"

definition getHitCircle :: "Beatmap \<Rightarrow> string \<Rightarrow> HitCircle option" where
  \<comment> \<open>Modelled from the spec: \<open>Beatmap.getHitCircle\<close>, the lookup by id through the
      beatmap, over the hit circles and the slider heads; \<open>None\<close> is JavaScript's
      \<open>undefined\<close>.\<close>
  "getHitCircle bm i = find (\<lambda>h. hc_id h = i) (concat (map hitCirclesOf (hitObjects bm)))"

definition getSlider :: "Beatmap \<Rightarrow> string \<Rightarrow> Slider option" where
  \<comment> \<open>Modelled from the spec: \<open>Beatmap.getSlider\<close>, the lookup by id over the sliders.\<close>
  "getSlider bm i = find (\<lambda>sl. sl_id sl = i) (concat (map slidersOf (hitObjects bm)))"

definition getSpinner :: "Beatmap \<Rightarrow> string \<Rightarrow> Spinner option" where
  \<comment> \<open>Modelled from the spec: \<open>Beatmap.getSpinner\<close>, the lookup by id over the spinners.\<close>
  "getSpinner bm i = find (\<lambda>sp. sp_id sp = i) (concat (map spinnersOf (hitObjects bm)))"

fun spawnTime :: "OsuHitObject \<Rightarrow> real" where
  "spawnTime (HitCircleObject h) = hc_spawnTime h"
| "spawnTime (SliderObject sl) = sl_spawnTime sl"
| "spawnTime (SpinnerObject sp) = sp_spawnTime sp"

definition set_add :: "'a \<Rightarrow> 'a list \<Rightarrow> 'a list" where
  \<comment> \<open>\<open>Set.prototype.add\<close>: a new element goes last, a present one stays where it is.\<close>
  "set_add x xs = (if x \<in> set xs then xs else xs @ [x])"

definition set_delete :: "'a \<Rightarrow> 'a list \<Rightarrow> 'a list" where
  "set_delete x xs = removeAll x xs"

section \<open>The frame evaluator\<close>

definition sliderProgress :: "Slider \<Rightarrow> real \<Rightarrow> real" where
  "sliderProgress slider t = (t - sl_startTime slider) / sl_duration slider"

definition NOT_PRESSING :: real where
  "NOT_PRESSING = 727727727"

definition determineTracking ::
  "bool \<Rightarrow> Slider \<Rightarrow> Position \<Rightarrow> real \<Rightarrow> real list \<Rightarrow> real option \<Rightarrow> bool" where
  "determineTracking previouslyTracking slider cursorPos t pressing headHitTime =
     (let keyIsBeingPressed = list_ex (\<lambda>x. x \<noteq> NOT_PRESSING) pressing in
      if \<not> keyIsBeingPressed then False
      else if t < sl_startTime slider \<or> sl_endTime slider \<le> t then False
      else
        let progress = sliderProgress slider t;
            followCircleRadius = (if previouslyTracking then 2.4 else 1.0) * sl_radius slider
        in if vec2_distance (sl_ballPositionAt slider progress) cursorPos > followCircleRadius
           then False
           else (case headHitTime of
                   None \<Rightarrow> True
                 | Some hh \<Rightarrow> list_ex (\<lambda>x. x \<ge> hh) pressing))"

definition actionsToBooleans :: "OsuAction list \<Rightarrow> bool list" where
  "actionsToBooleans osuActions = [leftButton \<in> set osuActions, rightButton \<in> set osuActions]"

fun pressingLoop :: "bool list \<Rightarrow> real list \<Rightarrow> real \<Rightarrow> real list" where
  \<comment> \<open>The \<open>for\<close> loop of \<open>newPressingSince\<close>; \<open>pressed[i]\<close> beyond the two buttons
      is \<open>undefined\<close>, which is falsy.\<close>
  "pressingLoop pressed [] t = []"
| "pressingLoop [] (p # ps) t = NOT_PRESSING # pressingLoop [] ps t"
| "pressingLoop (b # bs) (p # ps) t =
     (if b then min p t else NOT_PRESSING) # pressingLoop bs ps t"

definition newPressingSince :: "real list \<Rightarrow> OsuAction list \<Rightarrow> real \<Rightarrow> real list" where
  "newPressingSince pressing osuActions t = pressingLoop (actionsToBooleans osuActions) pressing t"

definition cloneGameState :: "GameState \<Rightarrow> GameState" where
  "cloneGameState replayState =
     \<lparr>currentTime = currentTime replayState,
      cursorPosition = cursorPosition replayState,
      hitCircleState = hitCircleState replayState,
      sliderBodyState = sliderBodyState replayState,
      checkPointState = checkPointState replayState,
      sliderJudgement = sliderJudgement replayState,
      spinnerState = spinnerState replayState,
      currentCombo = currentCombo replayState,
      maxCombo = maxCombo replayState,
      clickWasUseful = clickWasUseful replayState,
      judgedObjects = judgedObjects replayState,
      latestHitObjectIndex = latestHitObjectIndex replayState,
      aliveHitCircleIds = aliveHitCircleIds replayState,
      aliveSliderIds = aliveSliderIds replayState,
      aliveSpinnerIds = aliveSpinnerIds replayState,
      nextCheckPointIndex = nextCheckPointIndex replayState,
      pressingSince = pressingSince replayState\<rparr>"

definition sliderJudgementBasedOnCheckpoints :: "nat \<Rightarrow> nat \<Rightarrow> MainHitObjectVerdict" where
  "sliderJudgementBasedOnCheckpoints totalCheckpoints hitCheckpoints =
     (if hitCheckpoints = totalCheckpoints then GREAT
      else if hitCheckpoints = 0 then MISS
      else if hitCheckpoints * 2 \<ge> totalCheckpoints then OK
      else MEH)"

definition defaultReplayState :: GameState where
  "defaultReplayState =
     \<lparr>currentTime = 0,
      cursorPosition = \<lparr>pos_x = 0, pos_y = 0\<rparr>,
      hitCircleState = [],
      sliderBodyState = [],
      checkPointState = [],
      sliderJudgement = [],
      spinnerState = [],
      currentCombo = 0,
      maxCombo = 0,
      clickWasUseful = False,
      judgedObjects = [],
      latestHitObjectIndex = 0,
      aliveHitCircleIds = [],
      aliveSliderIds = [],
      aliveSpinnerIds = [],
      nextCheckPointIndex = [],
      pressingSince = [NOT_PRESSING, NOT_PRESSING]\<rparr>"

definition hasFreshClickThisFrame :: "GameState \<Rightarrow> bool" where
  "hasFreshClickThisFrame s = (currentTime s \<in> set (pressingSince s))"

fun earliestLoop ::
  "Beatmap \<Rightarrow> real \<Rightarrow> bool \<Rightarrow> string list \<Rightarrow> real option \<Rightarrow> error + real option" where
  "earliestLoop bm now onlyFuture [] earliest = Inr earliest"
| "earliestLoop bm now onlyFuture (i # ids) earliest =
     (case getHitCircle bm i of
        None \<Rightarrow> Inl (UnknownHitObject i)
      | Some h \<Rightarrow>
          if onlyFuture \<and> hc_hitTime h < now then earliestLoop bm now onlyFuture ids earliest
          else earliestLoop bm now onlyFuture ids
                 (Some (min (case earliest of None \<Rightarrow> 10000000000 | Some e \<Rightarrow> e)
                            (hc_hitTime h))))"

definition earliestHitCircleStartTime ::
  "Evaluator \<Rightarrow> GameState \<Rightarrow> bool \<Rightarrow> error + real option" where
  "earliestHitCircleStartTime ev s onlyConsiderFutureOnes =
     earliestLoop (beatmap ev) (currentTime s) onlyConsiderFutureOnes (aliveHitCircleIds s) None"

definition spawnOne :: "OsuHitObject \<Rightarrow> GameState \<Rightarrow> GameState" where
  "spawnOne hitObject s =
     (case hitObject of
        SpinnerObject sp \<Rightarrow> s\<lparr>aliveSpinnerIds := set_add (sp_id sp) (aliveSpinnerIds s)\<rparr>
      | HitCircleObject h \<Rightarrow> s\<lparr>aliveHitCircleIds := set_add (hc_id h) (aliveHitCircleIds s)\<rparr>
      | SliderObject sl \<Rightarrow>
          s\<lparr>aliveHitCircleIds := set_add (hc_id (sl_head sl)) (aliveHitCircleIds s),
            aliveSliderIds := set_add (sl_id sl) (aliveSliderIds s),
            nextCheckPointIndex := AList.update (sl_id sl) 0 (nextCheckPointIndex s)\<rparr>)"

fun spawnLoop :: "OsuHitObject list \<Rightarrow> GameState \<Rightarrow> GameState" where
  \<comment> \<open>The \<open>while\<close> loop of \<open>checkNewAliveHitObjects\<close> over the hit objects from
      \<open>latestHitObjectIndex\<close> on.\<close>
  "spawnLoop [] s = s"
| "spawnLoop (hitObject # rest) s =
     (if spawnTime hitObject > currentTime s then s
      else spawnLoop rest
             ((spawnOne hitObject s)\<lparr>latestHitObjectIndex := latestHitObjectIndex s + 1\<rparr>))"

definition checkNewAliveHitObjects :: "Evaluator \<Rightarrow> GameState \<Rightarrow> GameState" where
  "checkNewAliveHitObjects ev s =
     spawnLoop (drop (latestHitObjectIndex s) (hitObjects (beatmap ev))) s"

definition finishHitCircle :: "string \<Rightarrow> HitCircleState \<Rightarrow> GameState \<Rightarrow> GameState" where
  "finishHitCircle i st s =
     s\<lparr>hitCircleState := AList.update i st (hitCircleState s),
       aliveHitCircleIds := set_delete i (aliveHitCircleIds s),
       judgedObjects := judgedObjects s @ [i]\<rparr>"

definition headIsHit :: "GameState \<Rightarrow> string \<Rightarrow> bool" where
  \<comment> \<open>\<open>hitCircleState.get(id)?.type !== "MISS"\<close>, which holds of an absent entry.\<close>
  "headIsHit s i = (case map_of (hitCircleState s) i of None \<Rightarrow> True | Some st \<Rightarrow> hcs_type st \<noteq> MISS)"

definition checkPointIsHit :: "GameState \<Rightarrow> SliderCheckPoint \<Rightarrow> bool" where
  \<comment> \<open>\<open>checkPointState.get(c.id)?.hit\<close>, falsy for an absent entry.\<close>
  "checkPointIsHit s c = (case map_of (checkPointState s) (cp_id c) of None \<Rightarrow> False | Some st \<Rightarrow> hit st)"

definition finishSlider :: "Evaluator \<Rightarrow> string \<Rightarrow> GameState \<Rightarrow> error + GameState" where
  "finishSlider ev i s =
     (case getSlider (beatmap ev) i of
        None \<Rightarrow> Inl (UnknownHitObject i)
      | Some slider \<Rightarrow>
          let s1 = (if map_of (hitCircleState s) (hc_id (sl_head slider)) = None
                    then finishHitCircle (hc_id (sl_head slider))
                           \<lparr>judgementTime = sl_endTime slider, hcs_type = MISS,
                            missReason = Some SLIDER_FINISHED_FASTER\<rparr> s
                    else s);
              totalCheckpoints = length (sl_checkPoints slider) + 1;
              hitCheckpoints =
                foldl (\<lambda>n c. n + (if checkPointIsHit s1 c then 1 else 0))
                  (if headIsHit s1 (hc_id (sl_head slider)) then 1 else 0)
                  (sl_checkPoints slider);
              judgement = sliderJudgementBasedOnCheckpoints totalCheckpoints hitCheckpoints
          in Inr (s1\<lparr>sliderJudgement := AList.update i judgement (sliderJudgement s1),
                     judgedObjects := judgedObjects s1 @ [sl_id slider],
                     aliveSliderIds := set_delete i (aliveSliderIds s1),
                     nextCheckPointIndex := AList.delete i (nextCheckPointIndex s1),
                     sliderBodyState := AList.delete i (sliderBodyState s1),
                     aliveHitCircleIds :=
                       set_delete (hc_id (sl_head slider)) (aliveHitCircleIds s1)\<rparr>))"

definition hitWindow :: "Evaluator \<Rightarrow> MainHitObjectVerdict \<Rightarrow> real" where
  "hitWindow ev verdict = hitWindows ev verdict"

definition isWithinHitWindow :: "Evaluator \<Rightarrow> real \<Rightarrow> MainHitObjectVerdict \<Rightarrow> bool" where
  "isWithinHitWindow ev delta judgementType = (\<bar>delta\<bar> \<le> hitWindow ev judgementType)"

definition noteLocked ::
  "Evaluator \<Rightarrow> real option \<Rightarrow> real option \<Rightarrow> HitCircle \<Rightarrow> bool" where
  "noteLocked ev timeSupposedToClick nextTimeSupposedToClick hitCircle =
     (case noteLockStyle ev of
        NONE \<Rightarrow> False
      | STABLE \<Rightarrow>
          (case timeSupposedToClick of None \<Rightarrow> False | Some t \<Rightarrow> t < hc_hitTime hitCircle)
      | LAZER \<Rightarrow>
          (case nextTimeSupposedToClick of None \<Rightarrow> False | Some t \<Rightarrow> t < hc_hitTime hitCircle))"

definition handleHitCircle ::
  "Evaluator \<Rightarrow> real option \<Rightarrow> real option \<Rightarrow> string \<Rightarrow> GameState \<Rightarrow> error + GameState" where
  "handleHitCircle ev timeSupposedToClick nextTimeSupposedToClick i s =
     (case getHitCircle (beatmap ev) i of
        None \<Rightarrow> Inl (UnknownHitObject i)
      | Some hitCircle \<Rightarrow>
          let timeDelta = currentTime s - hc_hitTime hitCircle;
              earliestDeadTime = hc_hitTime hitCircle + hitWindow ev MEH + 1
          in
          if earliestDeadTime \<le> currentTime s then
            Inr (finishHitCircle i
                   \<lparr>judgementTime = earliestDeadTime, hcs_type = MISS,
                    missReason = Some TIME_EXPIRED\<rparr> s)
          else if \<not> hasFreshClickThisFrame s then Inr s
          else if clickWasUseful s then Inr s
          else if vec2_distance (hc_position hitCircle) (cursorPosition s) > hc_radius hitCircle
            then Inr s
          else if noteLocked ev timeSupposedToClick nextTimeSupposedToClick hitCircle then Inr s
          else if isWithinHitWindow ev timeDelta GREAT then
            Inr ((finishHitCircle i
                    \<lparr>judgementTime = currentTime s, hcs_type = GREAT, missReason = None\<rparr> s)
                  \<lparr>clickWasUseful := True\<rparr>)
          else if isWithinHitWindow ev timeDelta OK then
            Inr ((finishHitCircle i
                    \<lparr>judgementTime = currentTime s, hcs_type = OK, missReason = None\<rparr> s)
                  \<lparr>clickWasUseful := True\<rparr>)
          else if isWithinHitWindow ev timeDelta MEH then
            Inr ((finishHitCircle i
                    \<lparr>judgementTime = currentTime s, hcs_type = MEH, missReason = None\<rparr> s)
                  \<lparr>clickWasUseful := True\<rparr>)
          else if isWithinHitWindow ev timeDelta MISS then
            Inr (finishHitCircle i
                   \<lparr>judgementTime = currentTime s, hcs_type = MISS,
                    missReason = Some HIT_TOO_EARLY\<rparr> s)
          else Inr s)"

fun sortKeys :: "Beatmap \<Rightarrow> string list \<Rightarrow> error + (string \<times> real) list" where
  \<comment> \<open>The hit times that the comparator of \<open>handleHitCircles\<close> reads.\<close>
  "sortKeys bm [] = Inr []"
| "sortKeys bm (i # ids) =
     (case getHitCircle bm i of
        None \<Rightarrow> Inl (UnknownHitObject i)
      | Some h \<Rightarrow>
          (case sortKeys bm ids of
             Inl e \<Rightarrow> Inl e
           | Inr ks \<Rightarrow> Inr ((i, hc_hitTime h) # ks)))"

fun handleHitCircleLoop ::
  "Evaluator \<Rightarrow> real option \<Rightarrow> real option \<Rightarrow> string list \<Rightarrow> GameState \<Rightarrow> error + GameState" where
  "handleHitCircleLoop ev tsc ntsc [] s = Inr s"
| "handleHitCircleLoop ev tsc ntsc (i # ids) s =
     (case handleHitCircle ev tsc ntsc i s of
        Inl e \<Rightarrow> Inl e
      | Inr s' \<Rightarrow> handleHitCircleLoop ev tsc ntsc ids s')"

definition handleHitCircles ::
  "Evaluator \<Rightarrow> real option \<Rightarrow> real option \<Rightarrow> GameState \<Rightarrow> error + GameState" where
  \<comment> \<open>\<open>Array.prototype.sort\<close> is stable, as \<^const>\<open>sort_key\<close> is.\<close>
  "handleHitCircles ev tsc ntsc s =
     (case sortKeys (beatmap ev) (aliveHitCircleIds s) of
        Inl e \<Rightarrow> Inl e
      | Inr ks \<Rightarrow> handleHitCircleLoop ev tsc ntsc (map fst (sort_key snd ks)) s)"

definition headHitTime :: "GameState \<Rightarrow> string \<Rightarrow> real option" where
  "headHitTime s headId =
     (case map_of (hitCircleState s) headId of
        None \<Rightarrow> None
      | Some j \<Rightarrow> if hcs_type j = MISS then None else Some (judgementTime j))"

definition wasTrackingOf :: "GameState \<Rightarrow> string \<Rightarrow> bool" where
  \<comment> \<open>\<open>sliderBodyState.get(id)?.isTracking ?? false\<close>\<close>
  "wasTrackingOf s i =
     (case map_of (sliderBodyState s) i of None \<Rightarrow> False | Some b \<Rightarrow> isTracking b)"

fun trackingLoop :: "Evaluator \<Rightarrow> string list \<Rightarrow> GameState \<Rightarrow> error + GameState" where
  "trackingLoop ev [] s = Inr s"
| "trackingLoop ev (i # ids) s =
     (case getSlider (beatmap ev) i of
        None \<Rightarrow> Inl (UnknownHitObject i)
      | Some slider \<Rightarrow>
          let hht = headHitTime s (hc_id (sl_head slider));
              wasTracking = wasTrackingOf s i;
              tracking = determineTracking wasTracking slider (cursorPosition s)
                           (currentTime s) (pressingSince s) hht
          in trackingLoop ev ids
               (s\<lparr>sliderBodyState :=
                    AList.update i \<lparr>isTracking = tracking\<rparr> (sliderBodyState s)\<rparr>))"

definition updateSliderBodyTracking :: "Evaluator \<Rightarrow> GameState \<Rightarrow> error + GameState" where
  "updateSliderBodyTracking ev s = trackingLoop ev (aliveSliderIds s) s"

fun sliderJudgmentLoop :: "Evaluator \<Rightarrow> string list \<Rightarrow> GameState \<Rightarrow> error + GameState" where
  "sliderJudgmentLoop ev [] s = Inr s"
| "sliderJudgmentLoop ev (i # ids) s =
     (case getSlider (beatmap ev) i of
        None \<Rightarrow> Inl (UnknownHitObject i)
      | Some slider \<Rightarrow>
          if sl_endTime slider \<le> currentTime s then
            (case finishSlider ev (sl_id slider) s of
               Inl e \<Rightarrow> Inl e
             | Inr s' \<Rightarrow> sliderJudgmentLoop ev ids s')
          else sliderJudgmentLoop ev ids s)"

definition handleSliderJudgment :: "Evaluator \<Rightarrow> GameState \<Rightarrow> error + GameState" where
  "handleSliderJudgment ev s = sliderJudgmentLoop ev (aliveSliderIds s) s"

definition predictedPositionAt :: "GameState \<Rightarrow> real \<Rightarrow> Position \<Rightarrow> real \<Rightarrow> Position" where
  "predictedPositionAt s previousTime previousPosition t =
     (if currentTime s = previousTime then cursorPosition s
      else vec2_interpolate previousPosition (cursorPosition s)
             ((t - previousTime) / (currentTime s - previousTime)))"

fun earliestCheckPoint ::
  "Beatmap \<Rightarrow> real \<Rightarrow> (string \<times> nat) list \<Rightarrow> string option \<Rightarrow> real \<Rightarrow> error + string option" where
  \<comment> \<open>The \<open>for\<close> loop over \<open>nextCheckPointIndex\<close> that looks for the earliest
      check point before the current time.\<close>
  "earliestCheckPoint bm now [] sliderIdOfEarliest earliestTime = Inr sliderIdOfEarliest"
| "earliestCheckPoint bm now ((sliderId, checkPointIndex) # rest) sliderIdOfEarliest earliestTime =
     (case getSlider bm sliderId of
        None \<Rightarrow> Inl (UnknownHitObject sliderId)
      | Some slider \<Rightarrow>
          if checkPointIndex < length (sl_checkPoints slider) then
            let checkPoint = sl_checkPoints slider ! checkPointIndex in
            if cp_hitTime checkPoint < now \<and> cp_hitTime checkPoint < earliestTime
            then earliestCheckPoint bm now rest (Some sliderId) (cp_hitTime checkPoint)
            else earliestCheckPoint bm now rest sliderIdOfEarliest earliestTime
          else Inl (UndefinedCheckPoint sliderId checkPointIndex))"

definition checkPointStep ::
  "Evaluator \<Rightarrow> real \<Rightarrow> Position \<Rightarrow> real list \<Rightarrow> string \<Rightarrow> GameState \<Rightarrow> error + GameState" where
  \<comment> \<open>The rest of one iteration of the \<open>while\<close> loop of \<open>handleSliderCheckPoints\<close>.\<close>
  "checkPointStep ev previousTime previousPosition oldPressingSince sliderIdOfEarliest s =
     (case getSlider (beatmap ev) sliderIdOfEarliest of
        None \<Rightarrow> Inl (UnknownHitObject sliderIdOfEarliest)
      | Some slider \<Rightarrow>
          (case map_of (nextCheckPointIndex s) sliderIdOfEarliest of
             None \<Rightarrow> Inl (UndefinedCheckPoint sliderIdOfEarliest 0)
           | Some index \<Rightarrow>
               if index < length (sl_checkPoints slider) then
                 let checkPoint = sl_checkPoints slider ! index;
                     hht = headHitTime s (hc_id (sl_head slider));
                     wasTracking = wasTrackingOf s (sl_id slider);
                     timeToCheck = of_int \<lceil>cp_hitTime checkPoint - 1 / 10000000000\<rceil>;
                     predictedPosition =
                       predictedPositionAt s previousTime previousPosition timeToCheck;
                     tracking = determineTracking wasTracking slider predictedPosition
                                  timeToCheck oldPressingSince hht
                 in Inr (s\<lparr>checkPointState :=
                              AList.update (cp_id checkPoint) \<lparr>hit = tracking\<rparr> (checkPointState s),
                            judgedObjects := judgedObjects s @ [cp_id checkPoint],
                            nextCheckPointIndex :=
                              (if index + 1 < length (sl_checkPoints slider)
                               then AList.update (sl_id slider) (index + 1) (nextCheckPointIndex s)
                               else AList.delete (sl_id slider) (nextCheckPointIndex s))\<rparr>)
               else Inl (UndefinedCheckPoint sliderIdOfEarliest index)))"

definition pendingCheckPoints :: "Beatmap \<Rightarrow> (string \<times> nat) list \<Rightarrow> nat" where
  \<comment> \<open>The number of check points that the entries of \<open>nextCheckPointIndex\<close> still have
      before them: what the \<open>while\<close> loop of \<open>handleSliderCheckPoints\<close> decreases.\<close>
  "pendingCheckPoints bm entries =
     sum_list (map (\<lambda>(sliderId, index).
                      case getSlider bm sliderId of
                        None \<Rightarrow> 0
                      | Some slider \<Rightarrow> length (sl_checkPoints slider) - index) entries)"

lemma getSlider_id: "getSlider bm k = Some sl \<Longrightarrow> sl_id sl = k"
  by (auto simp: getSlider_def find_Some_iff)

lemma pending_delete_le: "pendingCheckPoints bm (AList.delete k es) \<le> pendingCheckPoints bm es"
  by (induction es) (auto simp: pendingCheckPoints_def)

lemma pending_delete_less:
  assumes "map_of es k = Some idx" and "getSlider bm k = Some sl"
    and "idx < length (sl_checkPoints sl)"
  shows "pendingCheckPoints bm (AList.delete k es) < pendingCheckPoints bm es"
  using assms
proof (induction es)
  case Nil
  then show ?case by simp
next
  case (Cons p es)
  obtain a b where p: "p = (a, b)" by (cases p)
  show ?case
  proof (cases "a = k")
    case True
    with Cons.prems p have "b = idx" by simp
    with True p Cons.prems pending_delete_le [of bm k es] show ?thesis
      by (simp add: pendingCheckPoints_def)
  next
    case False
    with Cons p show ?thesis by (simp add: pendingCheckPoints_def)
  qed
qed

lemma pending_update_less:
  assumes "map_of es k = Some idx" and "getSlider bm k = Some sl"
    and "idx < length (sl_checkPoints sl)"
  shows "pendingCheckPoints bm (AList.update k (Suc idx) es) < pendingCheckPoints bm es"
  using assms
proof (induction es)
  case Nil
  then show ?case by simp
next
  case (Cons p es)
  obtain a b where p: "p = (a, b)" by (cases p)
  show ?case
  proof (cases "a = k")
    case True
    with Cons.prems p have "b = idx" by simp
    with True p Cons.prems show ?thesis
      by (simp add: pendingCheckPoints_def)
  next
    case False
    with Cons p show ?thesis by (simp add: pendingCheckPoints_def)
  qed
qed

lemma checkPointStep_pending:
  "checkPointStep ev pt pp old k s = Inr s' \<Longrightarrow>
   pendingCheckPoints (beatmap ev) (nextCheckPointIndex s')
     < pendingCheckPoints (beatmap ev) (nextCheckPointIndex s)"
  by (auto simp: checkPointStep_def Let_def getSlider_id pending_update_less pending_delete_less
      split: option.splits if_splits)

function handleSliderCheckPoints ::
  "Evaluator \<Rightarrow> real \<Rightarrow> Position \<Rightarrow> real list \<Rightarrow> GameState \<Rightarrow> error + GameState" where
  "handleSliderCheckPoints ev previousTime previousPosition oldPressingSince s =
     (case earliestCheckPoint (beatmap ev) (currentTime s) (nextCheckPointIndex s) None
             1000000000000000000 of
        Inl e \<Rightarrow> Inl e
      | Inr None \<Rightarrow> Inr s
      | Inr (Some sliderIdOfEarliest) \<Rightarrow>
          (case checkPointStep ev previousTime previousPosition oldPressingSince
                  sliderIdOfEarliest s of
             Inl e \<Rightarrow> Inl e
           | Inr s' \<Rightarrow>
               handleSliderCheckPoints ev previousTime previousPosition oldPressingSince s'))"
  by pat_completeness auto
termination
  by (relation "measure (\<lambda>(ev, pt, pp, old, s).
        pendingCheckPoints (beatmap ev) (nextCheckPointIndex s))")
     (auto simp: checkPointStep_pending)

declare handleSliderCheckPoints.simps [simp del]

fun spinnerLoop :: "Evaluator \<Rightarrow> string list \<Rightarrow> GameState \<Rightarrow> error + GameState" where
  "spinnerLoop ev [] s = Inr s"
| "spinnerLoop ev (i # ids) s =
     (case getSpinner (beatmap ev) i of
        None \<Rightarrow> Inl (UnknownHitObject i)
      | Some spinner \<Rightarrow>
          if sp_endTime spinner < currentTime s then
            spinnerLoop ev ids
              (s\<lparr>aliveSpinnerIds := set_delete (sp_id spinner) (aliveSpinnerIds s),
                 judgedObjects := judgedObjects s @ [i]\<rparr>)
          else spinnerLoop ev ids s)"

definition handleSpinners :: "Evaluator \<Rightarrow> GameState \<Rightarrow> error + GameState" where
  "handleSpinners ev s = spinnerLoop ev (aliveSpinnerIds s) s"

definition bindFrame :: "GameState \<Rightarrow> ReplayFrame \<Rightarrow> GameState" where
  \<comment> \<open>The assignments of \<open>evaluateNextFrameMutated\<close> up to the new \<open>pressingSince\<close>.\<close>
  "bindFrame previousGameState frame =
     previousGameState
       \<lparr>currentTime := fr_time frame,
        cursorPosition := fr_position frame,
        clickWasUseful := False,
        pressingSince :=
          newPressingSince (pressingSince previousGameState) (fr_actions frame) (fr_time frame)\<rparr>"

definition evaluateNextFrameMutated ::
  "Evaluator \<Rightarrow> GameState \<Rightarrow> ReplayFrame \<Rightarrow> error + GameState" where
  "evaluateNextFrameMutated ev previousGameState frame =
     (let previousPosition = cursorPosition previousGameState;
          previousTime = currentTime previousGameState;
          oldPressingSince = pressingSince previousGameState;
          s1 = checkNewAliveHitObjects ev (bindFrame previousGameState frame)
      in case earliestHitCircleStartTime ev s1 False of
           Inl e \<Rightarrow> Inl e
         | Inr timeSupposedToClick \<Rightarrow>
        (case earliestHitCircleStartTime ev s1 True of
           Inl e \<Rightarrow> Inl e
         | Inr nextTimeSupposedToClick \<Rightarrow>
        (case handleHitCircles ev timeSupposedToClick nextTimeSupposedToClick s1 of
           Inl e \<Rightarrow> Inl e
         | Inr s2 \<Rightarrow>
        (case handleSliderJudgment ev s2 of
           Inl e \<Rightarrow> Inl e
         | Inr s3 \<Rightarrow>
        (case handleSliderCheckPoints ev previousTime previousPosition oldPressingSince s3 of
           Inl e \<Rightarrow> Inl e
         | Inr s4 \<Rightarrow>
        (case updateSliderBodyTracking ev s4 of
           Inl e \<Rightarrow> Inl e
         | Inr s5 \<Rightarrow> handleSpinners ev s5))))))"

fun evaluateFrames :: "Evaluator \<Rightarrow> GameState \<Rightarrow> ReplayFrame list \<Rightarrow> error + GameState" where
  \<comment> \<open>The frames of a replay fed to \<open>evaluateNextFrameMutated\<close> in order, as
      \<open>evaluateWholeReplay\<close> of the tests does; a throw ends the run.\<close>
  "evaluateFrames ev s [] = Inr s"
| "evaluateFrames ev s (frame # frames) =
     (case evaluateNextFrameMutated ev s frame of
        Inl e \<Rightarrow> Inl e
      | Inr s' \<Rightarrow> evaluateFrames ev s' frames)"

section \<open>Scenario data\<close>

definition demoWindows :: "MainHitObjectVerdict \<Rightarrow> real" where
  \<comment> \<open>The hit window table \<open>[20, 60, 100, 200]\<close> of the spec's scenarios.\<close>
  "demoWindows v = (case v of GREAT \<Rightarrow> 20 | OK \<Rightarrow> 60 | MEH \<Rightarrow> 100 | MISS \<Rightarrow> 200)"

definition demoSlider :: Slider where
  "demoSlider =
     \<lparr>sl_id = ''s'',
      sl_head = \<lparr>hc_id = ''s/h'', hc_position = \<lparr>pos_x = 0, pos_y = 0\<rparr>, hc_radius = 10,
                 hc_hitTime = 1000, hc_spawnTime = 500\<rparr>,
      sl_checkPoints =
        [\<lparr>cp_id = ''s/0'', cp_hitTime = 1500\<rparr>, \<lparr>cp_id = ''s/1'', cp_hitTime = 2000\<rparr>],
      sl_startTime = 1000, sl_endTime = 2000, sl_duration = 1000, sl_radius = 10,
      sl_spawnTime = 500,
      sl_ballPositionAt = (\<lambda>p. \<lparr>pos_x = 100 * p, pos_y = 0\<rparr>)\<rparr>"

section \<open>The tracking predicate\<close>

lemma vec2_distance_le_iff:
  "vec2_distance a b \<le> r \<longleftrightarrow>
     0 \<le> r \<and> (pos_x a - pos_x b)\<^sup>2 + (pos_y a - pos_y b)\<^sup>2 \<le> r\<^sup>2"
  using vec2_distance_less_iff [of r a b] by (auto simp: not_less [symmetric])

text \<open>
  Claim C4. \<open>determineTracking\<close> returns true exactly when all four conditions hold:
  some entry of \<open>pressingSince\<close> differs from \<open>NOT_PRESSING\<close>; the time lies in
  \<open>[startTime, endTime)\<close>; the cursor is no farther from the ball at the slider's
  progress than the follow radius, 2.4 radii when the slider was tracked before and 1.0
  radius otherwise; and the head hit time is undefined or some entry of
  \<open>pressingSince\<close> is at least the head hit time. (An entry \<open>NOT_PRESSING\<close> is
  an entry like any other in the last condition, in the code as in the claim.)
\<close>

theorem determineTracking_iff:
  "determineTracking wasTracking slider cursor t pressing hht \<longleftrightarrow>
     (\<exists>x \<in> set pressing. x \<noteq> NOT_PRESSING) \<and>
     (sl_startTime slider \<le> t \<and> t < sl_endTime slider) \<and>
     vec2_distance (sl_ballPositionAt slider (sliderProgress slider t)) cursor
       \<le> (if wasTracking then 2.4 else 1.0) * sl_radius slider \<and>
     (case hht of None \<Rightarrow> True | Some hh \<Rightarrow> \<exists>x \<in> set pressing. hh \<le> x)"
  by (auto simp: determineTracking_def Let_def list_ex_iff split: option.splits)

theorem determineTracking_iff_witness:
  "determineTracking True demoSlider \<lparr>pos_x = 35, pos_y = 10\<rparr> 1200 [NOT_PRESSING, 1100]
     (Some 1005)
   \<and> \<not> determineTracking False demoSlider \<lparr>pos_x = 35, pos_y = 10\<rparr> 1200
         [NOT_PRESSING, 1100] (Some 1005)
   \<and> \<not> determineTracking True demoSlider \<lparr>pos_x = 35, pos_y = 10\<rparr> 1200 [900, 1001]
         (Some 1005)"
  unfolding determineTracking_iff
  by (simp add: demoSlider_def sliderProgress_def NOT_PRESSING_def vec2_distance_le_iff)

section \<open>Slider finalization\<close>

definition demoEvaluator :: Evaluator where
  "demoEvaluator =
     \<lparr>beatmap = \<lparr>hitObjects = [SliderObject demoSlider]\<rparr>, hitWindows = demoWindows,
      noteLockStyle = STABLE\<rparr>"

lemma foldl_count:
  "foldl (\<lambda>n c. n + (if P c then 1 else 0)) k cs = k + length (filter P cs)"
  by (induction cs arbitrary: k) auto

lemma checkPointIsHit_finishHitCircle [simp]:
  "checkPointIsHit (finishHitCircle i st s) c = checkPointIsHit s c"
  by (simp add: checkPointIsHit_def finishHitCircle_def)


section \<open>What each phase of a frame leaves unchanged\<close>

text \<open>
  Each phase of \<open>evaluateNextFrameMutated\<close> writes a few fields of the state only.
  The predicates below list the fields a phase leaves as they are.
\<close>

definition circlesFrame :: "GameState \<Rightarrow> GameState \<Rightarrow> bool" where
  "circlesFrame s s' \<longleftrightarrow>
     currentTime s' = currentTime s \<and> cursorPosition s' = cursorPosition s \<and>
     sliderBodyState s' = sliderBodyState s \<and> checkPointState s' = checkPointState s \<and>
     sliderJudgement s' = sliderJudgement s \<and> spinnerState s' = spinnerState s \<and>
     currentCombo s' = currentCombo s \<and> maxCombo s' = maxCombo s \<and>
     latestHitObjectIndex s' = latestHitObjectIndex s \<and>
     aliveSliderIds s' = aliveSliderIds s \<and> aliveSpinnerIds s' = aliveSpinnerIds s \<and>
     nextCheckPointIndex s' = nextCheckPointIndex s \<and> pressingSince s' = pressingSince s"

lemma handleHitCircle_frame:
  "handleHitCircle ev tsc ntsc i s = Inr s' \<Longrightarrow> circlesFrame s s'"
  unfolding handleHitCircle_def Let_def
  by (auto split: option.splits if_splits simp: circlesFrame_def finishHitCircle_def)

lemma handleHitCircleLoop_frame:
  "handleHitCircleLoop ev tsc ntsc ids s = Inr s' \<Longrightarrow> circlesFrame s s'"
proof (induction ids arbitrary: s)
  case Nil
  then show ?case by (simp add: circlesFrame_def)
next
  case (Cons i ids)
  then show ?case
    by (auto split: sum.splits dest!: handleHitCircle_frame simp: circlesFrame_def)
qed

lemma handleHitCircles_frame:
  "handleHitCircles ev tsc ntsc s = Inr s' \<Longrightarrow> circlesFrame s s'"
  by (auto simp: handleHitCircles_def split: sum.splits dest: handleHitCircleLoop_frame)

definition slidersFrame :: "GameState \<Rightarrow> GameState \<Rightarrow> bool" where
  "slidersFrame s s' \<longleftrightarrow>
     currentTime s' = currentTime s \<and> cursorPosition s' = cursorPosition s \<and>
     checkPointState s' = checkPointState s \<and> spinnerState s' = spinnerState s \<and>
     currentCombo s' = currentCombo s \<and> maxCombo s' = maxCombo s \<and>
     clickWasUseful s' = clickWasUseful s \<and>
     latestHitObjectIndex s' = latestHitObjectIndex s \<and>
     aliveSpinnerIds s' = aliveSpinnerIds s \<and> pressingSince s' = pressingSince s"

lemma finishSlider_frame: "finishSlider ev i s = Inr s' \<Longrightarrow> slidersFrame s s'"
  unfolding finishSlider_def Let_def
  by (auto split: option.splits if_splits simp: slidersFrame_def finishHitCircle_def)

lemma sliderJudgmentLoop_frame:
  "sliderJudgmentLoop ev ids s = Inr s' \<Longrightarrow> slidersFrame s s'"
proof (induction ids arbitrary: s)
  case Nil
  then show ?case by (simp add: slidersFrame_def)
next
  case (Cons i ids)
  then show ?case
    by (auto split: sum.splits option.splits if_splits dest!: finishSlider_frame
        simp: slidersFrame_def)
qed

lemma handleSliderJudgment_frame:
  "handleSliderJudgment ev s = Inr s' \<Longrightarrow> slidersFrame s s'"
  by (auto simp: handleSliderJudgment_def dest: sliderJudgmentLoop_frame)

definition checkPointsFrame :: "GameState \<Rightarrow> GameState \<Rightarrow> bool" where
  "checkPointsFrame s s' \<longleftrightarrow>
     currentTime s' = currentTime s \<and> cursorPosition s' = cursorPosition s \<and>
     hitCircleState s' = hitCircleState s \<and> sliderBodyState s' = sliderBodyState s \<and>
     sliderJudgement s' = sliderJudgement s \<and> spinnerState s' = spinnerState s \<and>
     currentCombo s' = currentCombo s \<and> maxCombo s' = maxCombo s \<and>
     clickWasUseful s' = clickWasUseful s \<and>
     latestHitObjectIndex s' = latestHitObjectIndex s \<and>
     aliveHitCircleIds s' = aliveHitCircleIds s \<and> aliveSliderIds s' = aliveSliderIds s \<and>
     aliveSpinnerIds s' = aliveSpinnerIds s \<and> pressingSince s' = pressingSince s"

lemma checkPointStep_frame:
  "checkPointStep ev pt pp old k s = Inr s' \<Longrightarrow> checkPointsFrame s s'"
  unfolding checkPointStep_def Let_def
  by (auto split: option.splits if_splits simp: checkPointsFrame_def)

lemma handleSliderCheckPoints_cases:
  assumes "handleSliderCheckPoints ev pt pp old s = Inr s'"
  obtains
    (stop) "earliestCheckPoint (beatmap ev) (currentTime s) (nextCheckPointIndex s) None
              1000000000000000000 = Inr None" and "s' = s"
  | (step) k s1 where
      "earliestCheckPoint (beatmap ev) (currentTime s) (nextCheckPointIndex s) None
         1000000000000000000 = Inr (Some k)"
      and "checkPointStep ev pt pp old k s = Inr s1"
      and "handleSliderCheckPoints ev pt pp old s1 = Inr s'"
  using assms
  by (subst (asm) handleSliderCheckPoints.simps) (auto split: sum.splits option.splits)

lemma handleSliderCheckPoints_induct [consumes 1, case_names stop step]:
  assumes run: "handleSliderCheckPoints ev pt pp old s = Inr s'"
    and stop: "\<And>s. earliestCheckPoint (beatmap ev) (currentTime s) (nextCheckPointIndex s) None
              1000000000000000000 = Inr None \<Longrightarrow> P s s"
    and step: "\<And>s k s1 s'.
      earliestCheckPoint (beatmap ev) (currentTime s) (nextCheckPointIndex s) None
         1000000000000000000 = Inr (Some k) \<Longrightarrow>
      checkPointStep ev pt pp old k s = Inr s1 \<Longrightarrow>
      handleSliderCheckPoints ev pt pp old s1 = Inr s' \<Longrightarrow> P s1 s' \<Longrightarrow> P s s'"
  shows "P s s'"
  using run stop step
proof (induction ev pt pp old s rule: handleSliderCheckPoints.induct)
  case (1 ev pt pp old s)
  from "1.prems"(1) show ?case
  proof (cases rule: handleSliderCheckPoints_cases)
    case stop
    then show ?thesis using "1.prems"(2) by simp
  next
    case (step k s1)
    have "P s1 s'"
      using "1.IH" [OF step(1) refl step(2) step(3)] "1.prems"(2,3) by blast
    with step show ?thesis using "1.prems"(3) by blast
  qed
qed

lemma handleSliderCheckPoints_frame:
  "handleSliderCheckPoints ev pt pp old s = Inr s' \<Longrightarrow> checkPointsFrame s s'"
proof (induction rule: handleSliderCheckPoints_induct)
  case (stop s)
  then show ?case by (simp add: checkPointsFrame_def)
next
  case (step s k s1 s')
  then show ?case by (auto dest!: checkPointStep_frame simp: checkPointsFrame_def)
qed

definition trackingFrame :: "GameState \<Rightarrow> GameState \<Rightarrow> bool" where
  "trackingFrame s s' \<longleftrightarrow>
     currentTime s' = currentTime s \<and> cursorPosition s' = cursorPosition s \<and>
     hitCircleState s' = hitCircleState s \<and> checkPointState s' = checkPointState s \<and>
     sliderJudgement s' = sliderJudgement s \<and> spinnerState s' = spinnerState s \<and>
     currentCombo s' = currentCombo s \<and> maxCombo s' = maxCombo s \<and>
     clickWasUseful s' = clickWasUseful s \<and> judgedObjects s' = judgedObjects s \<and>
     latestHitObjectIndex s' = latestHitObjectIndex s \<and>
     aliveHitCircleIds s' = aliveHitCircleIds s \<and> aliveSliderIds s' = aliveSliderIds s \<and>
     aliveSpinnerIds s' = aliveSpinnerIds s \<and>
     nextCheckPointIndex s' = nextCheckPointIndex s \<and> pressingSince s' = pressingSince s"

definition spinnersFrame :: "GameState \<Rightarrow> GameState \<Rightarrow> bool" where
  "spinnersFrame s s' \<longleftrightarrow>
     currentTime s' = currentTime s \<and> cursorPosition s' = cursorPosition s \<and>
     hitCircleState s' = hitCircleState s \<and> sliderBodyState s' = sliderBodyState s \<and>
     checkPointState s' = checkPointState s \<and>
     sliderJudgement s' = sliderJudgement s \<and> spinnerState s' = spinnerState s \<and>
     currentCombo s' = currentCombo s \<and> maxCombo s' = maxCombo s \<and>
     clickWasUseful s' = clickWasUseful s \<and>
     latestHitObjectIndex s' = latestHitObjectIndex s \<and>
     aliveHitCircleIds s' = aliveHitCircleIds s \<and> aliveSliderIds s' = aliveSliderIds s \<and>
     nextCheckPointIndex s' = nextCheckPointIndex s \<and> pressingSince s' = pressingSince s"

definition spawnFrame :: "GameState \<Rightarrow> GameState \<Rightarrow> bool" where
  "spawnFrame s s' \<longleftrightarrow>
     currentTime s' = currentTime s \<and> cursorPosition s' = cursorPosition s \<and>
     hitCircleState s' = hitCircleState s \<and> sliderBodyState s' = sliderBodyState s \<and>
     checkPointState s' = checkPointState s \<and>
     sliderJudgement s' = sliderJudgement s \<and> spinnerState s' = spinnerState s \<and>
     currentCombo s' = currentCombo s \<and> maxCombo s' = maxCombo s \<and>
     clickWasUseful s' = clickWasUseful s \<and> judgedObjects s' = judgedObjects s \<and>
     pressingSince s' = pressingSince s"

lemma trackingLoop_frame: "trackingLoop ev ids s = Inr s' \<Longrightarrow> trackingFrame s s'"
proof (induction ids arbitrary: s)
  case Nil
  then show ?case by (simp add: trackingFrame_def)
next
  case (Cons i ids)
  then show ?case
    by (fastforce split: option.splits simp: trackingFrame_def Let_def)
qed

lemma updateSliderBodyTracking_frame:
  "updateSliderBodyTracking ev s = Inr s' \<Longrightarrow> trackingFrame s s'"
  by (auto simp: updateSliderBodyTracking_def dest: trackingLoop_frame)

lemma spinnerLoop_frame: "spinnerLoop ev ids s = Inr s' \<Longrightarrow> spinnersFrame s s'"
proof (induction ids arbitrary: s)
  case Nil
  then show ?case by (simp add: spinnersFrame_def)
next
  case (Cons i ids)
  then show ?case
    by (fastforce split: option.splits if_splits simp: spinnersFrame_def)
qed

lemma handleSpinners_frame: "handleSpinners ev s = Inr s' \<Longrightarrow> spinnersFrame s s'"
  by (auto simp: handleSpinners_def dest: spinnerLoop_frame)

lemma spawnOne_frame: "spawnFrame s (spawnOne h s)"
  by (cases h) (simp_all add: spawnOne_def spawnFrame_def)

lemma spawnLoop_frame: "spawnFrame s (spawnLoop hs s)"
proof (induction hs arbitrary: s)
  case Nil
  then show ?case by (simp add: spawnFrame_def)
next
  case (Cons h hs)
  have "spawnFrame s ((spawnOne h s)\<lparr>latestHitObjectIndex := latestHitObjectIndex s + 1\<rparr>)"
    using spawnOne_frame [of s h] by (simp add: spawnFrame_def)
  with Cons.IH [of "(spawnOne h s)\<lparr>latestHitObjectIndex := latestHitObjectIndex s + 1\<rparr>"]
  show ?case by (simp add: spawnFrame_def)
qed

lemma checkNewAliveHitObjects_frame: "spawnFrame s (checkNewAliveHitObjects ev s)"
  by (simp add: checkNewAliveHitObjects_def spawnLoop_frame)

lemma evaluateNextFrameMutated_cases:
  assumes "evaluateNextFrameMutated ev s frame = Inr s'"
  obtains tsc ntsc s2 s3 s4 s5 where
    "earliestHitCircleStartTime ev (checkNewAliveHitObjects ev (bindFrame s frame)) False = Inr tsc"
    and "earliestHitCircleStartTime ev (checkNewAliveHitObjects ev (bindFrame s frame)) True = Inr ntsc"
    and "handleHitCircles ev tsc ntsc (checkNewAliveHitObjects ev (bindFrame s frame)) = Inr s2"
    and "handleSliderJudgment ev s2 = Inr s3"
    and "handleSliderCheckPoints ev (currentTime s) (cursorPosition s) (pressingSince s) s3 = Inr s4"
    and "updateSliderBodyTracking ev s4 = Inr s5"
    and "handleSpinners ev s5 = Inr s'"
  using assms unfolding evaluateNextFrameMutated_def Let_def
  by (auto split: sum.splits)

lemma evaluateNextFrameMutated_inputs:
  assumes "evaluateNextFrameMutated ev s frame = Inr s'"
  shows "currentTime s' = fr_time frame \<and> cursorPosition s' = fr_position frame \<and>
         pressingSince s' = newPressingSince (pressingSince s) (fr_actions frame) (fr_time frame)"
  using assms
proof (cases rule: evaluateNextFrameMutated_cases)
  case (1 tsc ntsc s2 s3 s4 s5)
  note checkNewAliveHitObjects_frame [of "bindFrame s frame" ev]
    handleHitCircles_frame [OF 1(3)] handleSliderJudgment_frame [OF 1(4)]
    handleSliderCheckPoints_frame [OF 1(5)] updateSliderBodyTracking_frame [OF 1(6)]
    handleSpinners_frame [OF 1(7)]
  then show ?thesis
    by (simp add: spawnFrame_def circlesFrame_def slidersFrame_def checkPointsFrame_def
        trackingFrame_def spinnersFrame_def bindFrame_def)
qed

section \<open>The evaluator returns on consistent states\<close>

text \<open>
  \<open>evaluateNextFrameMutated\<close> throws only where the beatmap does not resolve an id
  of the state or a check point index. A state is consistent with the beatmap when every
  alive id and every entry of \<open>nextCheckPointIndex\<close> resolves; the initial state is,
  and on a beatmap whose sliders all have a check point every frame keeps the state
  consistent and returns.
\<close>

definition slidersHaveCheckPoints :: "Beatmap \<Rightarrow> bool" where
  \<comment> \<open>Every slider of the beatmap has a check point.\<close>
  "slidersHaveCheckPoints bm \<longleftrightarrow>
     (\<forall>sl \<in> set (concat (map slidersOf (hitObjects bm))). sl_checkPoints sl \<noteq> [])"

definition validEntries :: "Beatmap \<Rightarrow> (string \<times> nat) list \<Rightarrow> bool" where
  \<comment> \<open>Every entry of \<open>nextCheckPointIndex\<close> names a slider of the beatmap and one of
      its check points.\<close>
  "validEntries bm entries \<longleftrightarrow>
     (\<forall>e \<in> set entries.
        case getSlider bm (fst e) of
          None \<Rightarrow> False
        | Some sl \<Rightarrow> snd e < length (sl_checkPoints sl))"

definition consistent :: "Evaluator \<Rightarrow> GameState \<Rightarrow> bool" where
  \<comment> \<open>The beatmap resolves every alive id and every check point index of the state.\<close>
  "consistent ev s \<longleftrightarrow>
     (\<forall>i \<in> set (aliveHitCircleIds s). getHitCircle (beatmap ev) i \<noteq> None) \<and>
     (\<forall>i \<in> set (aliveSliderIds s). getSlider (beatmap ev) i \<noteq> None) \<and>
     (\<forall>i \<in> set (aliveSpinnerIds s). getSpinner (beatmap ev) i \<noteq> None) \<and>
     validEntries (beatmap ev) (nextCheckPointIndex s)"

lemma getSlider_member:
  "getSlider bm k = Some sl \<Longrightarrow> sl \<in> set (concat (map slidersOf (hitObjects bm)))"
  unfolding getSlider_def find_Some_iff by (metis nth_mem)

lemma getHitCircle_present:
  "HitCircleObject h \<in> set (hitObjects bm) \<Longrightarrow> getHitCircle bm (hc_id h) \<noteq> None"
  unfolding getHitCircle_def find_None_iff by force

lemma getHitCircle_head_present:
  "SliderObject sl \<in> set (hitObjects bm) \<Longrightarrow> getHitCircle bm (hc_id (sl_head sl)) \<noteq> None"
  unfolding getHitCircle_def find_None_iff by force

lemma getSlider_present:
  "SliderObject sl \<in> set (hitObjects bm) \<Longrightarrow> getSlider bm (sl_id sl) \<noteq> None"
  unfolding getSlider_def find_None_iff by force

lemma getSpinner_present:
  "SpinnerObject sp \<in> set (hitObjects bm) \<Longrightarrow> getSpinner bm (sp_id sp) \<noteq> None"
  unfolding getSpinner_def find_None_iff by force

lemma validEntries_update:
  assumes "validEntries bm es" and "getSlider bm k = Some sl" and "n < length (sl_checkPoints sl)"
  shows "validEntries bm (AList.update k n es)"
  using assms unfolding validEntries_def
  by (induction es) (auto split: if_splits)

lemma validEntries_delete: "validEntries bm es \<Longrightarrow> validEntries bm (AList.delete k es)"
  unfolding validEntries_def by (auto simp: AList.delete_eq)

lemma spawnOne_consistent:
  assumes "consistent ev s" and "slidersHaveCheckPoints (beatmap ev)"
    and "obj \<in> set (hitObjects (beatmap ev))"
  shows "consistent ev (spawnOne obj s)"
proof (cases obj)
  case (HitCircleObject h)
  with assms getHitCircle_present [of h "beatmap ev"] show ?thesis
    by (auto simp: consistent_def spawnOne_def set_add_def)
next
  case (SliderObject sl)
  with assms(3) obtain sl' where sl': "getSlider (beatmap ev) (sl_id sl) = Some sl'"
    using getSlider_present [of sl "beatmap ev"] by auto
  from getSlider_member [OF sl'] assms(2) have "0 < length (sl_checkPoints sl')"
    unfolding slidersHaveCheckPoints_def by blast
  with sl' assms(1) have "validEntries (beatmap ev)
      (AList.update (sl_id sl) 0 (nextCheckPointIndex s))"
    by (intro validEntries_update) (auto simp: consistent_def)
  with SliderObject assms getHitCircle_head_present [of sl "beatmap ev"] sl'
  show ?thesis by (auto simp: consistent_def spawnOne_def set_add_def)
next
  case (SpinnerObject sp)
  with assms getSpinner_present [of sp "beatmap ev"] show ?thesis
    by (auto simp: consistent_def spawnOne_def set_add_def)
qed

lemma consistent_cong:
  assumes "consistent ev s"
    and "aliveHitCircleIds s' = aliveHitCircleIds s" "aliveSliderIds s' = aliveSliderIds s"
    and "aliveSpinnerIds s' = aliveSpinnerIds s" "nextCheckPointIndex s' = nextCheckPointIndex s"
  shows "consistent ev s'"
  using assms by (simp add: consistent_def)

lemma spawnLoop_consistent:
  assumes "consistent ev s" and "slidersHaveCheckPoints (beatmap ev)"
    and "set objs \<subseteq> set (hitObjects (beatmap ev))"
  shows "consistent ev (spawnLoop objs s)"
  using assms(1,3)
proof (induction objs arbitrary: s)
  case Nil
  then show ?case by simp
next
  case (Cons obj objs)
  let ?s1 = "(spawnOne obj s)\<lparr>latestHitObjectIndex := latestHitObjectIndex s + 1\<rparr>"
  from Cons.prems have "consistent ev (spawnOne obj s)"
    by (intro spawnOne_consistent assms(2)) auto
  then have "consistent ev ?s1" by (rule consistent_cong) simp_all
  from Cons.IH [OF this] Cons.prems show ?case by simp
qed

lemma checkNewAliveHitObjects_consistent:
  assumes "consistent ev s" and "slidersHaveCheckPoints (beatmap ev)"
  shows "consistent ev (checkNewAliveHitObjects ev s)"
  unfolding checkNewAliveHitObjects_def
  using assms by (intro spawnLoop_consistent) (auto dest: in_set_dropD)

lemma earliestLoop_returns:
  "\<forall>i \<in> set ids. getHitCircle bm i \<noteq> None \<Longrightarrow> \<exists>r. earliestLoop bm now only ids e = Inr r"
  by (induction ids arbitrary: e) auto

lemma sortKeys_returns:
  "\<forall>i \<in> set ids. getHitCircle bm i \<noteq> None \<Longrightarrow> \<exists>ks. sortKeys bm ids = Inr ks"
  by (induction ids) auto

lemma handleHitCircle_returns:
  assumes "getHitCircle (beatmap ev) i \<noteq> None"
  shows "\<exists>s'. handleHitCircle ev tsc ntsc i s = Inr s'"
  using assms unfolding handleHitCircle_def Let_def by (auto split: option.splits)

lemma handleHitCircle_alive:
  assumes "handleHitCircle ev tsc ntsc i s = Inr s'"
  shows "set (aliveHitCircleIds s') \<subseteq> set (aliveHitCircleIds s)"
  using assms unfolding handleHitCircle_def Let_def
  by (auto split: option.splits if_splits simp: finishHitCircle_def set_delete_def)

lemma handleHitCircleLoop_returns:
  assumes "\<forall>i \<in> set ids. getHitCircle (beatmap ev) i \<noteq> None"
  shows "\<exists>s'. handleHitCircleLoop ev tsc ntsc ids s = Inr s' \<and>
     set (aliveHitCircleIds s') \<subseteq> set (aliveHitCircleIds s)"
  using assms
proof (induction ids arbitrary: s)
  case Nil
  then show ?case by simp
next
  case (Cons i ids)
  from Cons.prems handleHitCircle_returns [of ev i tsc ntsc s] obtain s1 where
    s1: "handleHitCircle ev tsc ntsc i s = Inr s1" by auto
  from Cons.IH [of s1] Cons.prems obtain s' where
    "handleHitCircleLoop ev tsc ntsc ids s1 = Inr s'"
    "set (aliveHitCircleIds s') \<subseteq> set (aliveHitCircleIds s1)" by auto
  with s1 handleHitCircle_alive [OF s1] show ?case by auto
qed

lemma sortKeys_fst: "sortKeys bm ids = Inr ks \<Longrightarrow> map fst ks = ids"
  by (induction ids arbitrary: ks) (auto split: option.splits sum.splits)

lemma sorted_ids:
  assumes "sortKeys bm ids = Inr ks"
  shows "set (map fst (sort_key snd ks)) = set ids"
    and "distinct ids \<Longrightarrow> distinct (map fst (sort_key snd ks))"
proof -
  have m: "map fst ks = ids" using assms by (rule sortKeys_fst)
  have "set (map fst (sort_key snd ks)) = set (map fst ks)" by simp
  with m show "set (map fst (sort_key snd ks)) = set ids" by simp
  assume "distinct ids"
  with m have "distinct (map fst ks)" by simp
  then show "distinct (map fst (sort_key snd ks))"
    by (simp add: distinct_map)
qed

lemma handleHitCircles_returns:
  assumes "consistent ev s"
  shows "\<exists>s'. handleHitCircles ev tsc ntsc s = Inr s' \<and> consistent ev s'"
proof -
  from assms have res: "\<forall>i \<in> set (aliveHitCircleIds s). getHitCircle (beatmap ev) i \<noteq> None"
    by (simp add: consistent_def)
  from sortKeys_returns [OF res] obtain ks where
    ks: "sortKeys (beatmap ev) (aliveHitCircleIds s) = Inr ks" by blast
  from sorted_ids(1) [OF ks] res have
    "\<forall>i \<in> set (map fst (sort_key snd ks)). getHitCircle (beatmap ev) i \<noteq> None" by simp
  from handleHitCircleLoop_returns [OF this, of tsc ntsc s] obtain s' where
    s': "handleHitCircleLoop ev tsc ntsc (map fst (sort_key snd ks)) s = Inr s'"
      "set (aliveHitCircleIds s') \<subseteq> set (aliveHitCircleIds s)" by blast
  from handleHitCircleLoop_frame [OF s'(1)] have
    "aliveSliderIds s' = aliveSliderIds s" "aliveSpinnerIds s' = aliveSpinnerIds s"
    "nextCheckPointIndex s' = nextCheckPointIndex s"
    by (simp_all add: circlesFrame_def)
  with assms s'(2) have "consistent ev s'" by (auto simp: consistent_def)
  with ks s'(1) show ?thesis by (auto simp: handleHitCircles_def)
qed

lemma finishSlider_returns:
  assumes "consistent ev s" and "getSlider (beatmap ev) k \<noteq> None"
  shows "\<exists>s'. finishSlider ev k s = Inr s' \<and> consistent ev s'"
proof -
  from assms(2) obtain sl where sl: "getSlider (beatmap ev) k = Some sl" by auto
  then obtain s' where s': "finishSlider ev k s = Inr s'"
    by (auto simp: finishSlider_def Let_def)
  from s' sl have
    "set (aliveHitCircleIds s') \<subseteq> set (aliveHitCircleIds s)"
    "set (aliveSliderIds s') \<subseteq> set (aliveSliderIds s)"
    "aliveSpinnerIds s' = aliveSpinnerIds s"
    "nextCheckPointIndex s' = AList.delete k (nextCheckPointIndex s)"
    unfolding finishSlider_def Let_def
    by (auto simp: finishHitCircle_def set_delete_def split: if_splits)
  with assms(1) have "consistent ev s'"
    by (auto simp: consistent_def intro: validEntries_delete)
  with s' show ?thesis by blast
qed

lemma sliderJudgmentLoop_returns:
  assumes "consistent ev s" and "\<forall>i \<in> set ids. getSlider (beatmap ev) i \<noteq> None"
  shows "\<exists>s'. sliderJudgmentLoop ev ids s = Inr s' \<and> consistent ev s'"
  using assms
proof (induction ids arbitrary: s)
  case Nil
  then show ?case by simp
next
  case (Cons k ids)
  from Cons.prems(2) obtain sl where sl: "getSlider (beatmap ev) k = Some sl" by auto
  have k: "sl_id sl = k" using sl by (rule getSlider_id)
  show ?case
  proof (cases "sl_endTime sl \<le> currentTime s")
    case True
    from finishSlider_returns [OF Cons.prems(1), of k] sl obtain s1 where
      s1: "finishSlider ev k s = Inr s1" "consistent ev s1" by auto
    from Cons.IH [OF s1(2)] Cons.prems(2) obtain s' where
      "sliderJudgmentLoop ev ids s1 = Inr s'" "consistent ev s'" by auto
    with True sl k s1(1) show ?thesis by simp
  next
    case False
    from Cons.IH [OF Cons.prems(1)] Cons.prems(2) obtain s' where
      "sliderJudgmentLoop ev ids s = Inr s'" "consistent ev s'" by auto
    with False sl show ?thesis by simp
  qed
qed

lemma earliestCheckPoint_returns:
  assumes "validEntries bm es"
  shows "\<exists>r. earliestCheckPoint bm now es best bt = Inr r \<and>
     (\<forall>k. r = Some k \<longrightarrow> best = Some k \<or> k \<in> fst ` set es)"
  using assms
proof (induction es arbitrary: best bt)
  case Nil
  then show ?case by simp
next
  case (Cons e es)
  obtain k idx where e: "e = (k, idx)" by (cases e)
  from Cons.prems e obtain sl where
    sl: "getSlider bm k = Some sl" "idx < length (sl_checkPoints sl)"
    by (auto simp: validEntries_def split: option.splits)
  from Cons.prems have v: "validEntries bm es" by (simp add: validEntries_def)
  from Cons.IH [OF v, of "Some k" "cp_hitTime (sl_checkPoints sl ! idx)"]
    Cons.IH [OF v, of best bt] e sl
  show ?case by (auto simp: Let_def)
qed

lemma checkPointStep_returns:
  assumes "consistent ev s" and "k \<in> fst ` set (nextCheckPointIndex s)"
  shows "\<exists>s'. checkPointStep ev pt pp old k s = Inr s' \<and> consistent ev s'"
proof -
  from assms(2) obtain idx where idx: "map_of (nextCheckPointIndex s) k = Some idx"
    by (metis domD dom_map_of_conv_image_fst)
  then have "(k, idx) \<in> set (nextCheckPointIndex s)" by (rule map_of_SomeD)
  with assms(1) obtain sl where
    sl: "getSlider (beatmap ev) k = Some sl" "idx < length (sl_checkPoints sl)"
    by (fastforce simp: consistent_def validEntries_def split: option.splits)
  have k: "sl_id sl = k" using sl(1) by (rule getSlider_id)
  from idx sl k obtain s' where s': "checkPointStep ev pt pp old k s = Inr s'"
    by (simp add: checkPointStep_def Let_def)
  from checkPointStep_frame [OF s'] have f:
    "aliveHitCircleIds s' = aliveHitCircleIds s" "aliveSliderIds s' = aliveSliderIds s"
    "aliveSpinnerIds s' = aliveSpinnerIds s"
    by (simp_all add: checkPointsFrame_def)
  from s' idx sl k have "nextCheckPointIndex s' =
       (if idx + 1 < length (sl_checkPoints sl)
        then AList.update k (idx + 1) (nextCheckPointIndex s)
        else AList.delete k (nextCheckPointIndex s))"
    by (auto simp: checkPointStep_def Let_def)
  with assms(1) sl(1) have "validEntries (beatmap ev) (nextCheckPointIndex s')"
    by (auto simp: consistent_def intro: validEntries_update validEntries_delete)
  with assms(1) f have "consistent ev s'" by (simp add: consistent_def)
  with s' show ?thesis by blast
qed

lemma handleSliderCheckPoints_returns:
  "consistent ev s \<Longrightarrow>
   \<exists>s'. handleSliderCheckPoints ev pt pp old s = Inr s' \<and> consistent ev s'"
proof (induction ev pt pp old s rule: handleSliderCheckPoints.induct)
  case (1 ev pt pp old s)
  from "1.prems" have v: "validEntries (beatmap ev) (nextCheckPointIndex s)"
    by (simp add: consistent_def)
  from earliestCheckPoint_returns [OF v, of "currentTime s" None 1000000000000000000]
  obtain r where
    r: "earliestCheckPoint (beatmap ev) (currentTime s) (nextCheckPointIndex s) None
          1000000000000000000 = Inr r"
      "\<forall>k. r = Some k \<longrightarrow> k \<in> fst ` set (nextCheckPointIndex s)"
    by auto
  show ?case
  proof (cases r)
    case None
    with r(1) "1.prems" show ?thesis
      by (subst handleSliderCheckPoints.simps) simp
  next
    case (Some k)
    with r(2) have "k \<in> fst ` set (nextCheckPointIndex s)" by simp
    from checkPointStep_returns [OF "1.prems" this, of pt pp old] obtain s1 where
      s1: "checkPointStep ev pt pp old k s = Inr s1" "consistent ev s1" by blast
    from "1.IH" [OF r(1) [unfolded Some] refl s1(1) s1(2)] obtain s' where
      "handleSliderCheckPoints ev pt pp old s1 = Inr s'" "consistent ev s'" by blast
    with r(1) Some s1(1) show ?thesis
      by (subst handleSliderCheckPoints.simps) simp
  qed
qed

lemma trackingLoop_returns:
  assumes "\<forall>i \<in> set ids. getSlider (beatmap ev) i \<noteq> None"
  shows "\<exists>s'. trackingLoop ev ids s = Inr s'"
  using assms by (induction ids arbitrary: s) (auto simp: Let_def)

lemma updateSliderBodyTracking_returns:
  assumes "consistent ev s"
  shows "\<exists>s'. updateSliderBodyTracking ev s = Inr s' \<and> consistent ev s'"
proof -
  from assms have "\<forall>i \<in> set (aliveSliderIds s). getSlider (beatmap ev) i \<noteq> None"
    by (simp add: consistent_def)
  from trackingLoop_returns [OF this, of s] obtain s' where
    s': "updateSliderBodyTracking ev s = Inr s'"
    by (auto simp: updateSliderBodyTracking_def)
  from updateSliderBodyTracking_frame [OF s'] have
    "aliveHitCircleIds s' = aliveHitCircleIds s" "aliveSliderIds s' = aliveSliderIds s"
    "aliveSpinnerIds s' = aliveSpinnerIds s" "nextCheckPointIndex s' = nextCheckPointIndex s"
    by (simp_all add: trackingFrame_def)
  with assms have "consistent ev s'" by (rule consistent_cong)
  with s' show ?thesis by blast
qed

lemma spinnerLoop_returns:
  assumes "\<forall>i \<in> set ids. getSpinner (beatmap ev) i \<noteq> None"
  shows "\<exists>s'. spinnerLoop ev ids s = Inr s' \<and>
     set (aliveSpinnerIds s') \<subseteq> set (aliveSpinnerIds s)"
  using assms
proof (induction ids arbitrary: s)
  case Nil
  then show ?case by simp
next
  case (Cons i ids)
  from Cons.prems obtain sp where sp: "getSpinner (beatmap ev) i = Some sp" by auto
  from Cons.prems have rest: "\<forall>i \<in> set ids. getSpinner (beatmap ev) i \<noteq> None" by simp
  show ?case
  proof (cases "sp_endTime sp < currentTime s")
    case True
    define s1 where "s1 = s\<lparr>aliveSpinnerIds := set_delete (sp_id sp) (aliveSpinnerIds s),
                 judgedObjects := judgedObjects s @ [i]\<rparr>"
    from Cons.IH [OF rest, of s1] obtain s' where
      s': "spinnerLoop ev ids s1 = Inr s'"
        "set (aliveSpinnerIds s') \<subseteq> set (aliveSpinnerIds s1)" by blast
    have "set (aliveSpinnerIds s1) \<subseteq> set (aliveSpinnerIds s)"
      by (auto simp: s1_def set_delete_def)
    with s'(2) have "set (aliveSpinnerIds s') \<subseteq> set (aliveSpinnerIds s)" by blast
    moreover from sp True s'(1) have "spinnerLoop ev (i # ids) s = Inr s'"
      by (simp add: s1_def)
    ultimately show ?thesis by blast
  next
    case False
    from Cons.IH [OF rest, of s] obtain s' where
      s': "spinnerLoop ev ids s = Inr s'"
        "set (aliveSpinnerIds s') \<subseteq> set (aliveSpinnerIds s)" by blast
    from sp False s'(1) have "spinnerLoop ev (i # ids) s = Inr s'" by simp
    with s'(2) show ?thesis by blast
  qed
qed

lemma handleSpinners_returns:
  assumes "consistent ev s"
  shows "\<exists>s'. handleSpinners ev s = Inr s' \<and> consistent ev s'"
proof -
  from assms spinnerLoop_returns [of "aliveSpinnerIds s" ev s] obtain s' where
    s': "handleSpinners ev s = Inr s'" "set (aliveSpinnerIds s') \<subseteq> set (aliveSpinnerIds s)"
    by (auto simp: consistent_def handleSpinners_def)
  from handleSpinners_frame [OF s'(1)] assms s'(2) have "consistent ev s'"
    by (auto simp: consistent_def spinnersFrame_def)
  with s' show ?thesis by blast
qed

lemma evaluateNextFrameMutated_returns:
  assumes "consistent ev s" and "slidersHaveCheckPoints (beatmap ev)"
  shows "\<exists>s'. evaluateNextFrameMutated ev s frame = Inr s' \<and> consistent ev s'"
proof -
  let ?s1 = "checkNewAliveHitObjects ev (bindFrame s frame)"
  have "consistent ev (bindFrame s frame)"
    using assms(1) by (rule consistent_cong) (simp_all add: bindFrame_def)
  then have c1: "consistent ev ?s1" using assms(2) by (rule checkNewAliveHitObjects_consistent)
  then have res: "\<forall>i \<in> set (aliveHitCircleIds ?s1). getHitCircle (beatmap ev) i \<noteq> None"
    by (simp add: consistent_def)
  from earliestLoop_returns [OF res] obtain tsc where
    tsc: "earliestHitCircleStartTime ev ?s1 False = Inr tsc"
    unfolding earliestHitCircleStartTime_def by blast
  from earliestLoop_returns [OF res] obtain ntsc where
    ntsc: "earliestHitCircleStartTime ev ?s1 True = Inr ntsc"
    unfolding earliestHitCircleStartTime_def by blast
  from handleHitCircles_returns [OF c1] obtain s2 where
    s2: "handleHitCircles ev tsc ntsc ?s1 = Inr s2" "consistent ev s2" by blast
  from sliderJudgmentLoop_returns [OF s2(2), of "aliveSliderIds s2"] s2(2) obtain s3 where
    s3: "handleSliderJudgment ev s2 = Inr s3" "consistent ev s3"
    by (auto simp: handleSliderJudgment_def consistent_def)
  from handleSliderCheckPoints_returns [OF s3(2)] obtain s4 where
    s4: "handleSliderCheckPoints ev (currentTime s) (cursorPosition s) (pressingSince s) s3
           = Inr s4" "consistent ev s4" by blast
  from updateSliderBodyTracking_returns [OF s4(2)] obtain s5 where
    s5: "updateSliderBodyTracking ev s4 = Inr s5" "consistent ev s5" by blast
  from handleSpinners_returns [OF s5(2)] obtain s' where
    s': "handleSpinners ev s5 = Inr s'" "consistent ev s'" by blast
  from tsc ntsc s2(1) s3(1) s4(1) s5(1) s' show ?thesis
    by (simp add: evaluateNextFrameMutated_def Let_def)
qed

lemma evaluateFrames_returns:
  assumes "consistent ev s" and "slidersHaveCheckPoints (beatmap ev)"
  shows "\<exists>s'. evaluateFrames ev s frames = Inr s' \<and> consistent ev s'"
  using assms(1)
proof (induction frames arbitrary: s)
  case Nil
  then show ?case by simp
next
  case (Cons frame frames)
  from evaluateNextFrameMutated_returns [OF Cons.prems assms(2), of frame] obtain s1 where
    s1: "evaluateNextFrameMutated ev s frame = Inr s1" "consistent ev s1" by blast
  from Cons.IH [OF s1(2)] s1(1) show ?case by simp
qed

lemma consistent_default: "consistent ev defaultReplayState"
  by (simp add: consistent_def validEntries_def defaultReplayState_def)

section \<open>Frames out of order\<close>

definition emptyEvaluator :: Evaluator where
  "emptyEvaluator = \<lparr>beatmap = \<lparr>hitObjects = []\<rparr>, hitWindows = demoWindows, noteLockStyle = STABLE\<rparr>"

definition laterState :: GameState where
  "laterState = defaultReplayState\<lparr>currentTime := 1000\<rparr>"

definition earlierFrame :: ReplayFrame where
  "earlierFrame = \<lparr>fr_time = 500, fr_position = \<lparr>pos_x = 1, pos_y = 2\<rparr>, fr_actions = [leftButton]\<rparr>"

text \<open>
  Claim C1 says that a frame with \<open>frame.time < state.currentTime\<close> is rejected as a
  \<open>FrameOutOfOrder\<close> error and leaves the state unchanged. The code has no such
  check and no such error: \<open>evaluateNextFrameMutated\<close> treats the frame as any other.
  On the empty beatmap, the state at time 1000 and a frame at time 500, the call
  returns a state whose time is 500.
\<close>

theorem frame_out_of_order_counterexample:
  "fr_time earlierFrame < currentTime laterState \<and>
   evaluateNextFrameMutated emptyEvaluator laterState earlierFrame =
     Inr (laterState\<lparr>currentTime := 500, cursorPosition := \<lparr>pos_x = 1, pos_y = 2\<rparr>,
                     pressingSince := [500, NOT_PRESSING]\<rparr>) \<and>
   laterState\<lparr>currentTime := 500, cursorPosition := \<lparr>pos_x = 1, pos_y = 2\<rparr>,
                     pressingSince := [500, NOT_PRESSING]\<rparr> \<noteq> laterState"
  by code_simp

definition sliderMidFrames :: "ReplayFrame list" where
  "sliderMidFrames =
     [\<lparr>fr_time = 600, fr_position = \<lparr>pos_x = 0, pos_y = 0\<rparr>, fr_actions = []\<rparr>,
      \<lparr>fr_time = 1600, fr_position = \<lparr>pos_x = 60, pos_y = 0\<rparr>, fr_actions = [rightButton]\<rparr>]"

definition sliderMidState :: GameState where
  \<comment> \<open>The state of \<open>demoEvaluator\<close> after \<open>sliderMidFrames\<close>: the slider is alive,
      its head has expired and its first check point is judged.\<close>
  "sliderMidState =
     defaultReplayState
       \<lparr>currentTime := 1600,
        cursorPosition := \<lparr>pos_x = 60, pos_y = 0\<rparr>,
        hitCircleState :=
          [(''s/h'', \<lparr>judgementTime = 1101, hcs_type = MISS, missReason = Some TIME_EXPIRED\<rparr>)],
        sliderBodyState := [(''s'', \<lparr>isTracking = True\<rparr>)],
        checkPointState := [(''s/0'', \<lparr>hit = False\<rparr>)],
        judgedObjects := [''s/h'', ''s/0''],
        latestHitObjectIndex := 1,
        aliveSliderIds := [''s''],
        nextCheckPointIndex := [(''s'', 1)],
        pressingSince := [NOT_PRESSING, 1600]\<rparr>"

text \<open>
  Claim C1, amended. \<open>evaluateNextFrameMutated\<close> does not compare the frame's time
  with the state's. On a beatmap whose sliders all have a check point and a state
  consistent with it, a frame with \<open>frame.time < state.currentTime\<close> is accepted: the
  call returns, and the state has changed: its time is the frame's time, its cursor
  position the frame's position, and \<open>pressingSince\<close> is updated from the frame's
  buttons.
\<close>

theorem frame_out_of_order_accepted:
  assumes "fr_time frame < currentTime s"
    and "consistent ev s"
    and "slidersHaveCheckPoints (beatmap ev)"
  shows "\<exists>s'. evaluateNextFrameMutated ev s frame = Inr s' \<and>
           currentTime s' = fr_time frame \<and> cursorPosition s' = fr_position frame \<and>
           pressingSince s' =
             newPressingSince (pressingSince s) (fr_actions frame) (fr_time frame) \<and>
           s' \<noteq> s"
proof -
  from evaluateNextFrameMutated_returns [OF assms(2,3), of frame] obtain s' where
    s': "evaluateNextFrameMutated ev s frame = Inr s'" by blast
  from evaluateNextFrameMutated_inputs [OF s'] assms(1) have
    "currentTime s' = fr_time frame \<and> cursorPosition s' = fr_position frame \<and>
     pressingSince s' = newPressingSince (pressingSince s) (fr_actions frame) (fr_time frame) \<and>
     s' \<noteq> s" by auto
  with s' show ?thesis by blast
qed

theorem frame_out_of_order_accepted_witness:
  "evaluateFrames demoEvaluator defaultReplayState sliderMidFrames = Inr sliderMidState \<and>
   fr_time earlierFrame < currentTime sliderMidState \<and>
   consistent demoEvaluator sliderMidState \<and>
   slidersHaveCheckPoints (beatmap demoEvaluator) \<and>
   (\<exists>s'. evaluateNextFrameMutated demoEvaluator sliderMidState earlierFrame = Inr s' \<and>
      currentTime s' = 500 \<and> s' \<noteq> sliderMidState)"
proof -
  have r: "evaluateFrames demoEvaluator defaultReplayState sliderMidFrames = Inr sliderMidState"
    by code_simp
  have a: "fr_time earlierFrame < currentTime sliderMidState" by code_simp
  have b: "consistent demoEvaluator sliderMidState" by code_simp
  have c: "slidersHaveCheckPoints (beatmap demoEvaluator)" by code_simp
  have t: "fr_time earlierFrame = 500" by (simp add: earlierFrame_def)
  from frame_out_of_order_accepted [OF a b c] have
    "\<exists>s'. evaluateNextFrameMutated demoEvaluator sliderMidState earlierFrame = Inr s' \<and>
       currentTime s' = 500 \<and> s' \<noteq> sliderMidState"
    unfolding t by blast
  with r a b c show ?thesis by blast
qed

section \<open>Button timings\<close>

fun pressedSince :: "OsuAction \<Rightarrow> ReplayFrame list \<Rightarrow> real option" where
  \<comment> \<open>The spec's words: the earliest frame time within the current uninterrupted press
      of a button, over the frames seen so far, the latest first; \<open>None\<close> when the button
      is not held in the latest frame.\<close>
  "pressedSince b [] = None"
| "pressedSince b (frame # earlier) =
     (if b \<in> set (fr_actions frame) then
        (case pressedSince b earlier of
           None \<Rightarrow> Some (fr_time frame)
         | Some t \<Rightarrow> Some (min t (fr_time frame)))
      else None)"

definition timingOf :: "real option \<Rightarrow> real" where
  "timingOf p = (case p of None \<Rightarrow> NOT_PRESSING | Some t \<Rightarrow> t)"

definition lateFrame :: ReplayFrame where
  "lateFrame = \<lparr>fr_time = 800000000, fr_position = \<lparr>pos_x = 0, pos_y = 0\<rparr>, fr_actions = [leftButton]\<rparr>"

definition pressFrames :: "ReplayFrame list" where
  "pressFrames =
     [\<lparr>fr_time = 10, fr_position = \<lparr>pos_x = 0, pos_y = 0\<rparr>, fr_actions = [leftButton]\<rparr>,
      \<lparr>fr_time = 20, fr_position = \<lparr>pos_x = 0, pos_y = 0\<rparr>, fr_actions = []\<rparr>,
      \<lparr>fr_time = 30, fr_position = \<lparr>pos_x = 0, pos_y = 0\<rparr>, fr_actions = [leftButton]\<rparr>,
      \<lparr>fr_time = 40, fr_position = \<lparr>pos_x = 0, pos_y = 0\<rparr>, fr_actions = [leftButton, rightButton]\<rparr>]"

lemma evaluateFrames_append:
  "evaluateFrames ev s (xs @ ys) =
     (case evaluateFrames ev s xs of Inl e \<Rightarrow> Inl e | Inr s1 \<Rightarrow> evaluateFrames ev s1 ys)"
  by (induction xs arbitrary: s) (auto split: sum.splits)

lemma evaluateFrames_pressingSince:
  "evaluateFrames ev s frames = Inr s' \<Longrightarrow>
   pressingSince s' =
     foldl (\<lambda>ps f. newPressingSince ps (fr_actions f) (fr_time f)) (pressingSince s) frames"
proof (induction frames arbitrary: s)
  case Nil
  then show ?case by simp
next
  case (Cons f frames)
  from Cons.prems obtain s1 where
    s1: "evaluateNextFrameMutated ev s f = Inr s1" and
    rest: "evaluateFrames ev s1 frames = Inr s'"
    by (auto split: sum.splits)
  from evaluateNextFrameMutated_inputs [OF s1] Cons.IH [OF rest]
  show ?case by simp
qed

lemma evaluateFrames_currentTime:
  "evaluateFrames ev s frames = Inr s' \<Longrightarrow>
   currentTime s' = (if frames = [] then currentTime s else fr_time (last frames))"
proof (induction frames arbitrary: s)
  case Nil
  then show ?case by simp
next
  case (Cons f frames)
  from Cons.prems obtain s1 where
    s1: "evaluateNextFrameMutated ev s f = Inr s1" and
    rest: "evaluateFrames ev s1 frames = Inr s'"
    by (auto split: sum.splits)
  from evaluateNextFrameMutated_inputs [OF s1] Cons.IH [OF rest]
  show ?case by simp
qed

lemma foldl_newPressingSince:
  assumes "\<forall>frame \<in> set frames. fr_time frame \<le> NOT_PRESSING"
  shows "foldl (\<lambda>ps f. newPressingSince ps (fr_actions f) (fr_time f))
           [NOT_PRESSING, NOT_PRESSING] frames =
         [timingOf (pressedSince leftButton (rev frames)),
          timingOf (pressedSince rightButton (rev frames))]"
  using assms
proof (induction frames rule: rev_induct)
  case Nil
  then show ?case by (simp add: timingOf_def)
next
  case (snoc f frames)
  then show ?case
    by (auto simp: newPressingSince_def actionsToBooleans_def timingOf_def min_def
        split: option.splits)
qed

text \<open>
  Claim C7 says that after every call \<open>pressingSince[i]\<close> is the earliest frame time
  of the current uninterrupted press of button \<open>i\<close>. The sentinel \<open>NOT_PRESSING\<close>
  is the number 727727727, and the update is \<open>min(pressingSince[i], frame.time)\<close>:
  a press that begins at a frame time above the sentinel is recorded as
  \<open>NOT_PRESSING\<close>, and that frame has no fresh click. One frame at time 800000000
  with the left button held shows it.
\<close>

theorem pressingSince_sentinel_counterexample:
  "evaluateFrames emptyEvaluator defaultReplayState [lateFrame] =
     Inr (defaultReplayState\<lparr>currentTime := 800000000\<rparr>) \<and>
   leftButton \<in> set (fr_actions lateFrame) \<and>
   pressedSince leftButton (rev [lateFrame]) = Some 800000000 \<and>
   pressingSince (defaultReplayState\<lparr>currentTime := 800000000\<rparr>) ! 0 = NOT_PRESSING \<and>
   NOT_PRESSING \<noteq> 800000000 \<and>
   \<not> hasFreshClickThisFrame (defaultReplayState\<lparr>currentTime := 800000000\<rparr>)"
  by code_simp

text \<open>
  Claim C7, amended. For frames whose times are below \<open>NOT_PRESSING\<close>, fed in order
  to \<open>evaluateNextFrameMutated\<close> from the default state on a beatmap whose sliders
  all have a check point, every call returns, and after each call and for each
  button \<open>i\<close>: \<open>pressingSince[i]\<close> is the earliest frame time of the current
  uninterrupted press of button \<open>i\<close>, and \<open>NOT_PRESSING\<close> when the button is not
  held in the latest frame; and the latest frame has a fresh click exactly when the
  current press of some button began at that frame's time.
\<close>

theorem pressingSince_tracks_presses:
  assumes "\<forall>frame \<in> set frames. fr_time frame < NOT_PRESSING"
    and "slidersHaveCheckPoints (beatmap ev)"
  shows "\<forall>n \<le> length frames. \<exists>sn.
           evaluateFrames ev defaultReplayState (take n frames) = Inr sn \<and>
           pressingSince sn =
             [timingOf (pressedSince leftButton (rev (take n frames))),
              timingOf (pressedSince rightButton (rev (take n frames)))] \<and>
           (0 < n \<longrightarrow>
             (hasFreshClickThisFrame sn \<longleftrightarrow>
               (\<exists>b \<in> {leftButton, rightButton}.
                  pressedSince b (rev (take n frames)) = Some (fr_time (frames ! (n - 1))))))"
proof (intro allI impI)
  fix n
  assume n: "n \<le> length frames"
  from evaluateFrames_returns [OF consistent_default assms(2), of "take n frames"]
  obtain sn where
    sn: "evaluateFrames ev defaultReplayState (take n frames) = Inr sn" by blast
  have bound: "\<forall>frame \<in> set (take n frames). fr_time frame < NOT_PRESSING"
    using assms(1) by (meson in_set_takeD)
  then have bound': "\<forall>frame \<in> set (take n frames). fr_time frame \<le> NOT_PRESSING"
    by fastforce
  have ps: "pressingSince sn =
             [timingOf (pressedSince leftButton (rev (take n frames))),
              timingOf (pressedSince rightButton (rev (take n frames)))]"
    using evaluateFrames_pressingSince [OF sn] foldl_newPressingSince [OF bound']
    by (simp add: defaultReplayState_def)
  have fresh: "hasFreshClickThisFrame sn \<longleftrightarrow>
               (\<exists>b \<in> {leftButton, rightButton}.
                  pressedSince b (rev (take n frames)) = Some (fr_time (frames ! (n - 1))))"
    if "0 < n"
  proof -
    from that n have ne: "take n frames \<noteq> []" by auto
    have lst: "last (take n frames) = frames ! (n - 1)"
      using that n ne by (simp add: last_conv_nth min_absorb2)
    have ct: "currentTime sn = fr_time (frames ! (n - 1))"
      using evaluateFrames_currentTime [OF sn] ne lst by simp
    have "frames ! (n - 1) \<in> set frames" using that n by simp
    with assms(1) have lt: "fr_time (frames ! (n - 1)) < NOT_PRESSING" by blast
    show ?thesis
      unfolding hasFreshClickThisFrame_def ps ct using lt
      by (auto simp: timingOf_def split: option.splits)
  qed
  from sn ps fresh show "\<exists>sn.
           evaluateFrames ev defaultReplayState (take n frames) = Inr sn \<and>
           pressingSince sn =
             [timingOf (pressedSince leftButton (rev (take n frames))),
              timingOf (pressedSince rightButton (rev (take n frames)))] \<and>
           (0 < n \<longrightarrow>
             (hasFreshClickThisFrame sn \<longleftrightarrow>
               (\<exists>b \<in> {leftButton, rightButton}.
                  pressedSince b (rev (take n frames)) = Some (fr_time (frames ! (n - 1))))))"
    by blast
qed

theorem pressingSince_tracks_presses_witness:
  "list_all (\<lambda>frame. fr_time frame < NOT_PRESSING) pressFrames \<and>
   slidersHaveCheckPoints (beatmap demoEvaluator) \<and>
   (\<exists>sn. evaluateFrames demoEvaluator defaultReplayState (take 4 pressFrames) = Inr sn \<and>
      pressingSince sn = [30, 40] \<and> hasFreshClickThisFrame sn)"
proof -
  have bound: "list_all (\<lambda>frame. fr_time frame < NOT_PRESSING) pressFrames"
    by code_simp
  then have bound': "\<forall>frame \<in> set pressFrames. fr_time frame < NOT_PRESSING"
    by (simp add: list_all_iff)
  have ok: "slidersHaveCheckPoints (beatmap demoEvaluator)" by code_simp
  have len: "(4::nat) \<le> length pressFrames" by code_simp
  have l: "timingOf (pressedSince leftButton (rev (take 4 pressFrames))) = 30"
    by code_simp
  have r: "timingOf (pressedSince rightButton (rev (take 4 pressFrames))) = 40"
    by code_simp
  have f: "pressedSince rightButton (rev (take 4 pressFrames)) =
      Some (fr_time (pressFrames ! (4 - 1)))"
    by code_simp
  from pressingSince_tracks_presses [OF bound' ok, rule_format, OF len]
  obtain sn where
    "evaluateFrames demoEvaluator defaultReplayState (take 4 pressFrames) = Inr sn"
    "pressingSince sn =
       [timingOf (pressedSince leftButton (rev (take 4 pressFrames))),
        timingOf (pressedSince rightButton (rev (take 4 pressFrames)))]"
    "hasFreshClickThisFrame sn \<longleftrightarrow>
       (\<exists>b \<in> {leftButton, rightButton}.
          pressedSince b (rev (take 4 pressFrames)) = Some (fr_time (pressFrames ! (4 - 1))))"
    by auto
  with l r f bound ok show ?thesis by auto
qed

section \<open>Hit circles: expiry and the last moment of the MEH window\<close>

definition demoCircle :: HitCircle where
  \<comment> \<open>The single hit circle of the spec's scenarios 2 to 4.\<close>
  "demoCircle =
     \<lparr>hc_id = ''0'', hc_position = \<lparr>pos_x = 100, pos_y = 100\<rparr>, hc_radius = 30,
      hc_hitTime = 1000, hc_spawnTime = 500\<rparr>"

definition circleEvaluator :: Evaluator where
  "circleEvaluator =
     \<lparr>beatmap = \<lparr>hitObjects = [HitCircleObject demoCircle]\<rparr>, hitWindows = demoWindows,
      noteLockStyle = STABLE\<rparr>"

definition circleAliveState :: GameState where
  \<comment> \<open>The state after a click at time 1005 that missed the circle in space.\<close>
  "circleAliveState =
     defaultReplayState
       \<lparr>currentTime := 1005, cursorPosition := \<lparr>pos_x = 200, pos_y = 200\<rparr>,
        latestHitObjectIndex := 1, aliveHitCircleIds := [''0''],
        pressingSince := [1005, NOT_PRESSING]\<rparr>"

definition expiryFrame :: ReplayFrame where
  "expiryFrame = \<lparr>fr_time = 1101, fr_position = \<lparr>pos_x = 200, pos_y = 200\<rparr>, fr_actions = []\<rparr>"

definition lastMehState :: GameState where
  \<comment> \<open>A fresh click on the circle at time 1100, the last moment of the MEH window.\<close>
  "lastMehState =
     defaultReplayState
       \<lparr>currentTime := 1100, cursorPosition := \<lparr>pos_x = 100, pos_y = 100\<rparr>,
        latestHitObjectIndex := 1, aliveHitCircleIds := [''0''],
        pressingSince := [1100, NOT_PRESSING]\<rparr>"

lemma set_set_add [simp]: "set (set_add x xs) = insert x (set xs)"
  by (auto simp: set_add_def)

lemma distinct_set_add [simp]: "distinct (set_add x xs) = distinct xs"
  by (auto simp: set_add_def)

lemma set_set_delete [simp]: "set (set_delete x xs) = set xs - {x}"
  by (auto simp: set_delete_def)

lemma distinct_set_delete [simp]: "distinct xs \<Longrightarrow> distinct (set_delete x xs)"
  by (simp add: set_delete_def distinct_removeAll)

lemma spawnOne_alive:
  "set (aliveHitCircleIds s) \<subseteq> set (aliveHitCircleIds (spawnOne h s)) \<and>
   (distinct (aliveHitCircleIds s) \<longrightarrow> distinct (aliveHitCircleIds (spawnOne h s)))"
  by (cases h) (auto simp: spawnOne_def)

lemma spawnLoop_alive:
  "set (aliveHitCircleIds s) \<subseteq> set (aliveHitCircleIds (spawnLoop hs s)) \<and>
   (distinct (aliveHitCircleIds s) \<longrightarrow> distinct (aliveHitCircleIds (spawnLoop hs s)))"
proof (induction hs arbitrary: s)
  case Nil
  then show ?case by simp
next
  case (Cons h hs)
  let ?s1 = "(spawnOne h s)\<lparr>latestHitObjectIndex := latestHitObjectIndex s + 1\<rparr>"
  from spawnOne_alive [of s h] Cons.IH [of ?s1] show ?case by auto
qed

lemma checkNewAliveHitObjects_alive:
  "set (aliveHitCircleIds s) \<subseteq> set (aliveHitCircleIds (checkNewAliveHitObjects ev s))"
  "distinct (aliveHitCircleIds s) \<Longrightarrow> distinct (aliveHitCircleIds (checkNewAliveHitObjects ev s))"
  using spawnLoop_alive [of s] by (auto simp: checkNewAliveHitObjects_def)

lemma handleHitCircle_other:
  "handleHitCircle ev tsc ntsc j s = Inr s' \<Longrightarrow> j \<noteq> i \<Longrightarrow>
   map_of (hitCircleState s') i = map_of (hitCircleState s) i"
  unfolding handleHitCircle_def Let_def
  by (auto split: option.splits if_splits simp: finishHitCircle_def AList.update_conv')

lemma handleHitCircleLoop_other:
  "handleHitCircleLoop ev tsc ntsc ids s = Inr s' \<Longrightarrow> i \<notin> set ids \<Longrightarrow>
   map_of (hitCircleState s') i = map_of (hitCircleState s) i"
proof (induction ids arbitrary: s)
  case Nil
  then show ?case by simp
next
  case (Cons j ids)
  from Cons.prems obtain s1 where
    s1: "handleHitCircle ev tsc ntsc j s = Inr s1" and
    rest: "handleHitCircleLoop ev tsc ntsc ids s1 = Inr s'"
    by (auto split: sum.splits)
  from Cons.prems have "j \<noteq> i" "i \<notin> set ids" by auto
  with handleHitCircle_other [OF s1] Cons.IH [OF rest] show ?case by simp
qed

lemma handleHitCircle_expired:
  assumes "getHitCircle (beatmap ev) i = Some h"
    and "hc_hitTime h + hitWindows ev MEH + 1 \<le> currentTime s"
  shows "handleHitCircle ev tsc ntsc i s =
     Inr (finishHitCircle i
            \<lparr>judgementTime = hc_hitTime h + hitWindows ev MEH + 1, hcs_type = MISS,
             missReason = Some TIME_EXPIRED\<rparr> s)"
  using assms by (simp add: handleHitCircle_def hitWindow_def)

lemma finishSlider_keeps_circle:
  "finishSlider ev k s = Inr s' \<Longrightarrow> map_of (hitCircleState s) i = Some st \<Longrightarrow>
   map_of (hitCircleState s') i = Some st"
  unfolding finishSlider_def Let_def
  by (auto split: option.splits if_splits simp: finishHitCircle_def AList.update_conv')

lemma sliderJudgmentLoop_keeps_circle:
  "sliderJudgmentLoop ev ids s = Inr s' \<Longrightarrow> map_of (hitCircleState s) i = Some st \<Longrightarrow>
   map_of (hitCircleState s') i = Some st"
proof (induction ids arbitrary: s)
  case Nil
  then show ?case by simp
next
  case (Cons k ids)
  then show ?case
    by (auto split: option.splits if_splits sum.splits dest: finishSlider_keeps_circle)
qed

lemma after_sliders_hitCircleState:
  assumes "handleSliderCheckPoints ev pt pp old s3 = Inr s4"
    and "updateSliderBodyTracking ev s4 = Inr s5"
    and "handleSpinners ev s5 = Inr s'"
  shows "hitCircleState s' = hitCircleState s3"
  using handleSliderCheckPoints_frame [OF assms(1)] updateSliderBodyTracking_frame [OF assms(2)]
    handleSpinners_frame [OF assms(3)]
  by (simp add: checkPointsFrame_def trackingFrame_def spinnersFrame_def)

lemma handleHitCircle_last_meh:
  assumes "getHitCircle (beatmap ev) i = Some h"
    and "currentTime s = hc_hitTime h + hitWindows ev MEH"
    and "hasFreshClickThisFrame s" and "\<not> clickWasUseful s"
    and "vec2_distance (hc_position h) (cursorPosition s) \<le> hc_radius h"
    and "\<not> noteLocked ev tsc ntsc h"
    and "hitWindows ev GREAT < hitWindows ev MEH" and "hitWindows ev OK < hitWindows ev MEH"
    and "0 \<le> hitWindows ev MEH"
  shows "handleHitCircle ev tsc ntsc i s =
     Inr ((finishHitCircle i
             \<lparr>judgementTime = currentTime s, hcs_type = MEH, missReason = None\<rparr> s)
           \<lparr>clickWasUseful := True\<rparr>)"
  using assms by (simp add: handleHitCircle_def hitWindow_def isWithinHitWindow_def)

lemma handleHitCircle_judged:
  "handleHitCircle ev tsc ntsc j s = Inr s' \<Longrightarrow> \<exists>new. judgedObjects s' = judgedObjects s @ new"
  unfolding handleHitCircle_def Let_def
  by (auto split: option.splits if_splits simp: finishHitCircle_def)

lemma handleHitCircleLoop_judged:
  "handleHitCircleLoop ev tsc ntsc ids s = Inr s' \<Longrightarrow>
   \<exists>new. judgedObjects s' = judgedObjects s @ new"
proof (induction ids arbitrary: s)
  case Nil
  then show ?case by simp
next
  case (Cons j ids)
  from Cons.prems obtain s1 where
    s1: "handleHitCircle ev tsc ntsc j s = Inr s1" and
    rest: "handleHitCircleLoop ev tsc ntsc ids s1 = Inr s'"
    by (auto split: sum.splits)
  from handleHitCircle_judged [OF s1] Cons.IH [OF rest] show ?case by auto
qed

lemma finishSlider_shrinks:
  assumes "finishSlider ev k s = Inr s'"
  shows "set (aliveHitCircleIds s') \<subseteq> set (aliveHitCircleIds s) \<and>
     set (aliveSliderIds s') \<subseteq> set (aliveSliderIds s) \<and>
     (\<exists>new. judgedObjects s' = judgedObjects s @ new)"
  using assms unfolding finishSlider_def Let_def
  by (auto split: option.splits if_splits simp: finishHitCircle_def)

lemma sliderJudgmentLoop_shrinks:
  "sliderJudgmentLoop ev ids s = Inr s' \<Longrightarrow>
   set (aliveHitCircleIds s') \<subseteq> set (aliveHitCircleIds s) \<and>
   set (aliveSliderIds s') \<subseteq> set (aliveSliderIds s) \<and>
   (\<exists>new. judgedObjects s' = judgedObjects s @ new)"
proof (induction ids arbitrary: s)
  case Nil
  then show ?case by simp
next
  case (Cons k ids)
  from Cons.prems obtain slider where sl: "getSlider (beatmap ev) k = Some slider"
    by (auto split: option.splits)
  show ?case
  proof (cases "sl_endTime slider \<le> currentTime s")
    case True
    with Cons.prems sl obtain s1 where
      s1: "finishSlider ev (sl_id slider) s = Inr s1" and
      rest: "sliderJudgmentLoop ev ids s1 = Inr s'"
      by (auto split: sum.splits)
    from finishSlider_shrinks [OF s1] Cons.IH [OF rest] show ?thesis by auto
  next
    case False
    with Cons.prems sl have "sliderJudgmentLoop ev ids s = Inr s'" by simp
    from Cons.IH [OF this] show ?thesis .
  qed
qed

lemma checkPointStep_judged:
  "checkPointStep ev pt pp old k s = Inr s' \<Longrightarrow>
   \<exists>new. judgedObjects s' = judgedObjects s @ new"
  unfolding checkPointStep_def Let_def
  by (auto split: option.splits if_splits)

lemma handleSliderCheckPoints_judged:
  "handleSliderCheckPoints ev pt pp old s = Inr s' \<Longrightarrow>
   \<exists>new. judgedObjects s' = judgedObjects s @ new"
proof (induction rule: handleSliderCheckPoints_induct)
  case (stop s)
  then show ?case by simp
next
  case (step s k s1 s')
  from checkPointStep_judged [OF step(2)] step(4) show ?case by auto
qed

lemma spinnerLoop_judged:
  "spinnerLoop ev ids s = Inr s' \<Longrightarrow> \<exists>new. judgedObjects s' = judgedObjects s @ new"
proof (induction ids arbitrary: s)
  case Nil
  then show ?case by simp
next
  case (Cons i ids)
  from Cons.prems obtain sp where sp: "getSpinner (beatmap ev) i = Some sp"
    by (auto split: option.splits)
  show ?case
  proof (cases "sp_endTime sp < currentTime s")
    case True
    define s1 where "s1 = s\<lparr>aliveSpinnerIds := set_delete (sp_id sp) (aliveSpinnerIds s),
                 judgedObjects := judgedObjects s @ [i]\<rparr>"
    from Cons.prems sp True have "spinnerLoop ev ids s1 = Inr s'" by (simp add: s1_def)
    from Cons.IH [OF this] show ?thesis by (auto simp: s1_def)
  next
    case False
    with Cons.prems sp have "spinnerLoop ev ids s = Inr s'" by simp
    from Cons.IH [OF this] show ?thesis .
  qed
qed

lemma after_sliders_judged:
  assumes "handleSliderCheckPoints ev pt pp old s3 = Inr s4"
    and "updateSliderBodyTracking ev s4 = Inr s5"
    and "handleSpinners ev s5 = Inr s'"
  shows "aliveHitCircleIds s' = aliveHitCircleIds s3 \<and> aliveSliderIds s' = aliveSliderIds s3 \<and>
     sliderJudgement s' = sliderJudgement s3 \<and>
     (\<exists>new. judgedObjects s' = judgedObjects s3 @ new)"
proof -
  from handleSliderCheckPoints_judged [OF assms(1)] obtain n1 where
    n1: "judgedObjects s4 = judgedObjects s3 @ n1" by blast
  from updateSliderBodyTracking_frame [OF assms(2)] have
    n2: "judgedObjects s5 = judgedObjects s4" by (simp add: trackingFrame_def)
  from assms(3) spinnerLoop_judged [of ev "aliveSpinnerIds s5" s5 s'] obtain n3 where
    n3: "judgedObjects s' = judgedObjects s5 @ n3" by (auto simp: handleSpinners_def)
  from n1 n2 n3 have "judgedObjects s' = judgedObjects s3 @ (n1 @ n3)" by simp
  then have "\<exists>new. judgedObjects s' = judgedObjects s3 @ new" by blast
  then show ?thesis
    using handleSliderCheckPoints_frame [OF assms(1)] updateSliderBodyTracking_frame [OF assms(2)]
      handleSpinners_frame [OF assms(3)]
    by (simp add: checkPointsFrame_def trackingFrame_def spinnersFrame_def)
qed

lemma handleHitCircleLoop_alive:
  "handleHitCircleLoop ev tsc ntsc ids s = Inr s' \<Longrightarrow>
   set (aliveHitCircleIds s') \<subseteq> set (aliveHitCircleIds s)"
proof (induction ids arbitrary: s)
  case Nil
  then show ?case by simp
next
  case (Cons j ids)
  from Cons.prems obtain s1 where
    s1: "handleHitCircle ev tsc ntsc j s = Inr s1" and
    rest: "handleHitCircleLoop ev tsc ntsc ids s1 = Inr s'"
    by (auto split: sum.splits)
  from handleHitCircle_alive [OF s1] Cons.IH [OF rest] show ?case by blast
qed

lemma handleHitCircleLoop_finishes:
  assumes loop: "handleHitCircleLoop ev tsc ntsc ids s = Inr s'"
    and mem: "i \<in> set ids" and dist: "distinct ids"
    and q: "Q s"
    and inv: "\<And>j sX sY. j \<in> set ids \<Longrightarrow> j \<noteq> i \<Longrightarrow> Q sX \<Longrightarrow>
               handleHitCircle ev tsc ntsc j sX = Inr sY \<Longrightarrow> Q sY"
    and fin: "\<And>sX sY. Q sX \<Longrightarrow> handleHitCircle ev tsc ntsc i sX = Inr sY \<Longrightarrow>
               map_of (hitCircleState sY) i = Some E \<and> i \<notin> set (aliveHitCircleIds sY) \<and>
               judgedObjects sY = judgedObjects sX @ [i]"
  shows "map_of (hitCircleState s') i = Some E \<and> i \<notin> set (aliveHitCircleIds s') \<and>
     (\<exists>new. judgedObjects s' = judgedObjects s @ new \<and> i \<in> set new)"
  using loop mem dist q inv
proof (induction ids arbitrary: s)
  case Nil
  then show ?case by simp
next
  case (Cons j ids)
  from Cons.prems(1) obtain s1 where
    s1: "handleHitCircle ev tsc ntsc j s = Inr s1" and
    rest: "handleHitCircleLoop ev tsc ntsc ids s1 = Inr s'"
    by (auto split: sum.splits)
  show ?case
  proof (cases "j = i")
    case True
    with Cons.prems(3) have notin: "i \<notin> set ids" by simp
    from fin [OF Cons.prems(4) s1 [unfolded True]] have
      f: "map_of (hitCircleState s1) i = Some E" "i \<notin> set (aliveHitCircleIds s1)"
        "judgedObjects s1 = judgedObjects s @ [i]" by simp_all
    from handleHitCircleLoop_other [OF rest notin] f(1) have
      e: "map_of (hitCircleState s') i = Some E" by simp
    from handleHitCircleLoop_alive [OF rest] f(2) have a: "i \<notin> set (aliveHitCircleIds s')" by blast
    from handleHitCircleLoop_judged [OF rest] obtain n where
      "judgedObjects s' = judgedObjects s1 @ n" by blast
    with f(3) have "judgedObjects s' = judgedObjects s @ ([i] @ n) \<and> i \<in> set ([i] @ n)"
      by simp
    then have "\<exists>new. judgedObjects s' = judgedObjects s @ new \<and> i \<in> set new" by blast
    with e a show ?thesis by blast
  next
    case False
    with Cons.prems have mem': "i \<in> set ids" and dist': "distinct ids" by auto
    have q1: "Q s1" using Cons.prems(5) [OF _ False Cons.prems(4) s1] by simp
    have "map_of (hitCircleState s') i = Some E \<and> i \<notin> set (aliveHitCircleIds s') \<and>
      (\<exists>new. judgedObjects s' = judgedObjects s1 @ new \<and> i \<in> set new)"
    proof (rule Cons.IH [OF rest mem' dist' q1])
      fix k sX sY
      assume "k \<in> set ids" "k \<noteq> i" "Q sX" "handleHitCircle ev tsc ntsc k sX = Inr sY"
      then show "Q sY" using Cons.prems(5) [of k sX sY] by simp
    qed
    then obtain n where
      r: "map_of (hitCircleState s') i = Some E" "i \<notin> set (aliveHitCircleIds s')"
        "judgedObjects s' = judgedObjects s1 @ n" "i \<in> set n" by blast
    from handleHitCircle_judged [OF s1] obtain m where
      "judgedObjects s1 = judgedObjects s @ m" by blast
    with r(3,4) have "judgedObjects s' = judgedObjects s @ (m @ n) \<and> i \<in> set (m @ n)"
      by simp
    then have "\<exists>new. judgedObjects s' = judgedObjects s @ new \<and> i \<in> set new" by blast
    with r(1,2) show ?thesis by blast
  qed
qed

lemma evaluateNextFrameMutated_circle:
  assumes run: "evaluateNextFrameMutated ev s frame = Inr s'"
    and alive: "i \<in> set (aliveHitCircleIds (checkNewAliveHitObjects ev (bindFrame s frame)))"
    and dist: "distinct (aliveHitCircleIds s)"
    and q: "Q (checkNewAliveHitObjects ev (bindFrame s frame))"
    and inv: "\<And>tsc ntsc j sX sY.
        earliestHitCircleStartTime ev (checkNewAliveHitObjects ev (bindFrame s frame)) False
          = Inr tsc \<Longrightarrow>
        earliestHitCircleStartTime ev (checkNewAliveHitObjects ev (bindFrame s frame)) True
          = Inr ntsc \<Longrightarrow>
        j \<in> set (aliveHitCircleIds (checkNewAliveHitObjects ev (bindFrame s frame))) \<Longrightarrow>
        j \<noteq> i \<Longrightarrow> Q sX \<Longrightarrow> handleHitCircle ev tsc ntsc j sX = Inr sY \<Longrightarrow> Q sY"
    and fin: "\<And>tsc ntsc sX sY.
        earliestHitCircleStartTime ev (checkNewAliveHitObjects ev (bindFrame s frame)) False
          = Inr tsc \<Longrightarrow>
        earliestHitCircleStartTime ev (checkNewAliveHitObjects ev (bindFrame s frame)) True
          = Inr ntsc \<Longrightarrow>
        Q sX \<Longrightarrow> handleHitCircle ev tsc ntsc i sX = Inr sY \<Longrightarrow>
        map_of (hitCircleState sY) i = Some E \<and> i \<notin> set (aliveHitCircleIds sY) \<and>
        judgedObjects sY = judgedObjects sX @ [i]"
  shows "map_of (hitCircleState s') i = Some E \<and> i \<notin> set (aliveHitCircleIds s') \<and>
     (\<exists>new. judgedObjects s' = judgedObjects s @ new \<and> i \<in> set new)"
  using run
proof (cases rule: evaluateNextFrameMutated_cases)
  case (1 tsc ntsc s2 s3 s4 s5)
  let ?s1 = "checkNewAliveHitObjects ev (bindFrame s frame)"
  have j1: "judgedObjects ?s1 = judgedObjects s"
    using checkNewAliveHitObjects_frame [of "bindFrame s frame" ev]
    by (simp add: spawnFrame_def bindFrame_def)
  have d1: "distinct (aliveHitCircleIds ?s1)"
    using dist by (intro checkNewAliveHitObjects_alive) (simp add: bindFrame_def)
  from 1(3) obtain ks where
    ks: "sortKeys (beatmap ev) (aliveHitCircleIds ?s1) = Inr ks" and
    loop: "handleHitCircleLoop ev tsc ntsc (map fst (sort_key snd ks)) ?s1 = Inr s2"
    by (auto simp: handleHitCircles_def split: sum.splits)
  note ids = sorted_ids [OF ks]
  have "map_of (hitCircleState s2) i = Some E \<and> i \<notin> set (aliveHitCircleIds s2) \<and>
     (\<exists>new. judgedObjects s2 = judgedObjects ?s1 @ new \<and> i \<in> set new)"
  proof (rule handleHitCircleLoop_finishes [where Q = Q and i = i and E = E, OF loop _ _ q])
    show "i \<in> set (map fst (sort_key snd ks))" using ids(1) alive by simp
    show "distinct (map fst (sort_key snd ks))" using ids(2) d1 by simp
  next
    fix j sX sY
    assume "j \<in> set (map fst (sort_key snd ks))" "j \<noteq> i" "Q sX"
      "handleHitCircle ev tsc ntsc j sX = Inr sY"
    with ids(1) show "Q sY" using inv [OF 1(1) 1(2), of j sX sY] by simp
  next
    fix sX sY
    assume "Q sX" "handleHitCircle ev tsc ntsc i sX = Inr sY"
    then show "map_of (hitCircleState sY) i = Some E \<and> i \<notin> set (aliveHitCircleIds sY) \<and>
        judgedObjects sY = judgedObjects sX @ [i]"
      by (rule fin [OF 1(1) 1(2)])
  qed
  then obtain n2 where
    r2: "map_of (hitCircleState s2) i = Some E" "i \<notin> set (aliveHitCircleIds s2)"
      "judgedObjects s2 = judgedObjects s @ n2" "i \<in> set n2"
    unfolding j1 by blast
  from 1(4) have l3: "sliderJudgmentLoop ev (aliveSliderIds s2) s2 = Inr s3"
    by (simp add: handleSliderJudgment_def)
  from sliderJudgmentLoop_keeps_circle [OF l3 r2(1)] have
    e3: "map_of (hitCircleState s3) i = Some E" .
  from sliderJudgmentLoop_shrinks [OF l3] r2(2) obtain n3 where
    r3: "i \<notin> set (aliveHitCircleIds s3)" "judgedObjects s3 = judgedObjects s2 @ n3"
    by blast
  from after_sliders_judged [OF 1(5,6,7)] obtain n4 where
    r4: "aliveHitCircleIds s' = aliveHitCircleIds s3" "judgedObjects s' = judgedObjects s3 @ n4"
    by blast
  from e3 after_sliders_hitCircleState [OF 1(5,6,7)] have
    e: "map_of (hitCircleState s') i = Some E" by simp
  from r2(3,4) r3(2) r4(2) have
    "judgedObjects s' = judgedObjects s @ (n2 @ n3 @ n4) \<and> i \<in> set (n2 @ n3 @ n4)" by simp
  then have "\<exists>new. judgedObjects s' = judgedObjects s @ new \<and> i \<in> set new" by blast
  with e r3(1) r4(1) show ?thesis by simp
qed

lemma finishHitCircle_finalized:
  "map_of (hitCircleState (finishHitCircle i E s)) i = Some E \<and>
   i \<notin> set (aliveHitCircleIds (finishHitCircle i E s)) \<and>
   judgedObjects (finishHitCircle i E s) = judgedObjects s @ [i]"
  by (simp add: finishHitCircle_def AList.update_conv')

lemma evaluateNextFrameMutated_timeout:
  assumes run: "evaluateNextFrameMutated ev s frame = Inr s'"
    and alive: "i \<in> set (aliveHitCircleIds (checkNewAliveHitObjects ev (bindFrame s frame)))"
    and dist: "distinct (aliveHitCircleIds s)"
    and h: "getHitCircle (beatmap ev) i = Some h"
    and late: "hc_hitTime h + hitWindows ev MEH + 1 \<le> fr_time frame"
  shows "map_of (hitCircleState s') i =
       Some \<lparr>judgementTime = hc_hitTime h + hitWindows ev MEH + 1, hcs_type = MISS,
             missReason = Some TIME_EXPIRED\<rparr> \<and>
     i \<notin> set (aliveHitCircleIds s') \<and>
     (\<exists>new. judgedObjects s' = judgedObjects s @ new \<and> i \<in> set new)"
proof (rule evaluateNextFrameMutated_circle
    [where Q = "\<lambda>sX::GameState. currentTime sX = fr_time frame", OF run alive dist])
  show "currentTime (checkNewAliveHitObjects ev (bindFrame s frame)) = fr_time frame"
    using checkNewAliveHitObjects_frame [of "bindFrame s frame" ev]
    by (simp add: spawnFrame_def bindFrame_def)
next
  fix tsc ntsc j sX sY
  assume "currentTime sX = fr_time frame" "handleHitCircle ev tsc ntsc j sX = Inr sY"
  then show "currentTime sY = fr_time frame"
    using handleHitCircle_frame [of ev tsc ntsc j sX sY] by (simp add: circlesFrame_def)
next
  fix tsc ntsc sX sY
  assume "currentTime sX = fr_time frame" "handleHitCircle ev tsc ntsc i sX = Inr sY"
  with handleHitCircle_expired [OF h, of sX tsc ntsc] late
  have "sY = finishHitCircle i
            \<lparr>judgementTime = hc_hitTime h + hitWindows ev MEH + 1, hcs_type = MISS,
             missReason = Some TIME_EXPIRED\<rparr> sX" by simp
  then show "map_of (hitCircleState sY) i =
       Some \<lparr>judgementTime = hc_hitTime h + hitWindows ev MEH + 1, hcs_type = MISS,
             missReason = Some TIME_EXPIRED\<rparr> \<and>
     i \<notin> set (aliveHitCircleIds sY) \<and> judgedObjects sY = judgedObjects sX @ [i]"
    using finishHitCircle_finalized by simp
qed

definition clickLeftFor :: "Evaluator \<Rightarrow> GameState \<Rightarrow> string \<Rightarrow> bool" where
  \<comment> \<open>No other alive hit circle can take the click of this frame: each has expired or
      has the cursor outside its radius.\<close>
  "clickLeftFor ev s i \<longleftrightarrow>
     (\<forall>j \<in> set (aliveHitCircleIds s). j \<noteq> i \<longrightarrow>
        (case getHitCircle (beatmap ev) j of
           None \<Rightarrow> True
         | Some other \<Rightarrow>
             hc_hitTime other + hitWindows ev MEH + 1 \<le> currentTime s \<or>
             hc_radius other < vec2_distance (hc_position other) (cursorPosition s)))"

lemma handleHitCircle_leaves_click:
  assumes "handleHitCircle ev tsc ntsc j s = Inr s'"
    and "getHitCircle (beatmap ev) j = Some other"
    and "hc_hitTime other + hitWindows ev MEH + 1 \<le> currentTime s \<or>
         hc_radius other < vec2_distance (hc_position other) (cursorPosition s)"
  shows "clickWasUseful s' = clickWasUseful s"
  using assms unfolding handleHitCircle_def Let_def
  by (auto split: if_splits simp: finishHitCircle_def hitWindow_def)

lemma evaluateNextFrameMutated_last_meh:
  assumes run: "evaluateNextFrameMutated ev s frame = Inr s'"
    and alive: "i \<in> set (aliveHitCircleIds (checkNewAliveHitObjects ev (bindFrame s frame)))"
    and dist: "distinct (aliveHitCircleIds s)"
    and h: "getHitCircle (beatmap ev) i = Some h"
    and time: "fr_time frame = hc_hitTime h + hitWindows ev MEH"
    and fresh: "hasFreshClickThisFrame (bindFrame s frame)"
    and inside: "vec2_distance (hc_position h) (fr_position frame) \<le> hc_radius h"
    and tsc: "earliestHitCircleStartTime ev (checkNewAliveHitObjects ev (bindFrame s frame)) False
          = Inr tsc"
    and ntsc: "earliestHitCircleStartTime ev (checkNewAliveHitObjects ev (bindFrame s frame)) True
          = Inr ntsc"
    and unlocked: "\<not> noteLocked ev tsc ntsc h"
    and left: "clickLeftFor ev (checkNewAliveHitObjects ev (bindFrame s frame)) i"
    and windows: "hitWindows ev GREAT < hitWindows ev MEH" "hitWindows ev OK < hitWindows ev MEH"
      "0 \<le> hitWindows ev MEH"
  shows "map_of (hitCircleState s') i =
       Some \<lparr>judgementTime = fr_time frame, hcs_type = MEH, missReason = None\<rparr> \<and>
     i \<notin> set (aliveHitCircleIds s') \<and>
     (\<exists>new. judgedObjects s' = judgedObjects s @ new \<and> i \<in> set new)"
proof -
  let ?s1 = "checkNewAliveHitObjects ev (bindFrame s frame)"
  define Q where "Q = (\<lambda>sX::GameState. currentTime sX = fr_time frame \<and>
     cursorPosition sX = fr_position frame \<and> pressingSince sX = pressingSince ?s1 \<and>
     \<not> clickWasUseful sX)"
  have f1: "currentTime ?s1 = fr_time frame" "cursorPosition ?s1 = fr_position frame"
    "pressingSince ?s1 = pressingSince (bindFrame s frame)" "\<not> clickWasUseful ?s1"
    using checkNewAliveHitObjects_frame [of "bindFrame s frame" ev]
    by (simp_all add: spawnFrame_def bindFrame_def)
  have fresh1: "fr_time frame \<in> set (pressingSince ?s1)"
    using fresh f1(3) by (simp add: hasFreshClickThisFrame_def bindFrame_def)
  show ?thesis
  proof (rule evaluateNextFrameMutated_circle [where Q = Q, OF run alive dist])
    show "Q ?s1" using f1 by (simp add: Q_def)
  next
    fix tsc' ntsc' j sX sY
    assume j: "j \<in> set (aliveHitCircleIds ?s1)" "j \<noteq> i" and q: "Q sX"
      and step: "handleHitCircle ev tsc' ntsc' j sX = Inr sY"
    from step obtain other where o: "getHitCircle (beatmap ev) j = Some other"
      by (auto simp: handleHitCircle_def split: option.splits)
    from left j o have "hc_hitTime other + hitWindows ev MEH + 1 \<le> currentTime ?s1 \<or>
         hc_radius other < vec2_distance (hc_position other) (cursorPosition ?s1)"
      by (auto simp: clickLeftFor_def)
    with q f1 have "hc_hitTime other + hitWindows ev MEH + 1 \<le> currentTime sX \<or>
         hc_radius other < vec2_distance (hc_position other) (cursorPosition sX)"
      by (simp add: Q_def)
    from handleHitCircle_leaves_click [OF step o this] handleHitCircle_frame [OF step] q
    show "Q sY" by (simp add: Q_def circlesFrame_def)
  next
    fix tsc' ntsc' sX sY
    assume e1: "earliestHitCircleStartTime ev ?s1 False = Inr tsc'"
      and e2: "earliestHitCircleStartTime ev ?s1 True = Inr ntsc'"
      and q: "Q sX" and step: "handleHitCircle ev tsc' ntsc' i sX = Inr sY"
    from e1 e2 tsc ntsc have eq: "tsc' = tsc" "ntsc' = ntsc" by simp_all
    have "handleHitCircle ev tsc ntsc i sX =
       Inr ((finishHitCircle i
               \<lparr>judgementTime = currentTime sX, hcs_type = MEH, missReason = None\<rparr> sX)
             \<lparr>clickWasUseful := True\<rparr>)"
      using q time fresh1 inside unlocked windows
      by (intro handleHitCircle_last_meh [OF h])
         (simp_all add: Q_def hasFreshClickThisFrame_def)
    with step eq q show "map_of (hitCircleState sY) i =
         Some \<lparr>judgementTime = fr_time frame, hcs_type = MEH, missReason = None\<rparr> \<and>
       i \<notin> set (aliveHitCircleIds sY) \<and> judgedObjects sY = judgedObjects sX @ [i]"
      by (auto simp: finishHitCircle_def AList.update_conv' Q_def)
  qed
qed

definition farCircle :: HitCircle where
  "farCircle =
     \<lparr>hc_id = ''1'', hc_position = \<lparr>pos_x = 300, pos_y = 300\<rparr>, hc_radius = 30,
      hc_hitTime = 1000, hc_spawnTime = 500\<rparr>"

definition pairEvaluator :: Evaluator where
  "pairEvaluator =
     \<lparr>beatmap = \<lparr>hitObjects = [HitCircleObject demoCircle, HitCircleObject farCircle]\<rparr>,
      hitWindows = demoWindows, noteLockStyle = STABLE\<rparr>"

definition pairAliveState :: GameState where
  \<comment> \<open>Both circles alive at time 1005, after a click that missed them in space.\<close>
  "pairAliveState =
     defaultReplayState
       \<lparr>currentTime := 1005, cursorPosition := \<lparr>pos_x = 200, pos_y = 200\<rparr>,
        latestHitObjectIndex := 2, aliveHitCircleIds := [''0'', ''1''],
        pressingSince := [1005, NOT_PRESSING]\<rparr>"

definition lastMehFrame :: ReplayFrame where
  \<comment> \<open>A fresh click of the right button at time 1100 on the first circle.\<close>
  "lastMehFrame =
     \<lparr>fr_time = 1100, fr_position = \<lparr>pos_x = 100, pos_y = 100\<rparr>, fr_actions = [rightButton]\<rparr>"

definition stackCircleA :: HitCircle where
  "stackCircleA =
     \<lparr>hc_id = ''a'', hc_position = \<lparr>pos_x = 100, pos_y = 100\<rparr>, hc_radius = 30,
      hc_hitTime = 1000, hc_spawnTime = 500\<rparr>"

definition stackCircleB :: HitCircle where
  "stackCircleB =
     \<lparr>hc_id = ''b'', hc_position = \<lparr>pos_x = 100, pos_y = 100\<rparr>, hc_radius = 30,
      hc_hitTime = 1000, hc_spawnTime = 500\<rparr>"

definition stackEvaluator :: Evaluator where
  "stackEvaluator =
     \<lparr>beatmap = \<lparr>hitObjects = [HitCircleObject stackCircleA, HitCircleObject stackCircleB]\<rparr>,
      hitWindows = demoWindows, noteLockStyle = STABLE\<rparr>"

definition stackState :: GameState where
  \<comment> \<open>Two stacked circles of hit time 1000, alive and unjudged at time 1005.\<close>
  "stackState =
     defaultReplayState
       \<lparr>currentTime := 1005, latestHitObjectIndex := 2, aliveHitCircleIds := [''a'', ''b'']\<rparr>"

definition stackFrame :: ReplayFrame where
  "stackFrame =
     \<lparr>fr_time = 1100, fr_position = \<lparr>pos_x = 100, pos_y = 100\<rparr>, fr_actions = [leftButton]\<rparr>"

definition stackResult :: GameState where
  "stackResult =
     stackState
       \<lparr>currentTime := 1100, cursorPosition := \<lparr>pos_x = 100, pos_y = 100\<rparr>,
        hitCircleState := [(''a'', \<lparr>judgementTime = 1100, hcs_type = MEH, missReason = None\<rparr>)],
        clickWasUseful := True, judgedObjects := [''a''], aliveHitCircleIds := [''b''],
        pressingSince := [1100, NOT_PRESSING]\<rparr>"

text \<open>
  Claim C2 says, in its second part, that a fresh click on an alive hit circle at exactly
  \<open>hitTime + meh\<close>, with the cursor within the radius and no note lock, is finalized
  with the verdict \<open>MEH\<close>. \<open>handleHitCircle\<close> returns before it looks at the cursor
  when \<open>clickWasUseful\<close> is set, and the first circle that the click hits sets it. With
  two stacked circles \<open>a\<close> and \<open>b\<close> of hit time 1000 and a click at time 1100 inside
  both, \<open>a\<close> takes the click; \<open>b\<close> is alive, freshly clicked, within its radius, not
  note-locked and at \<open>hitTime + meh\<close>, and stays alive and unjudged.
\<close>

theorem last_meh_click_taken_counterexample:
  "''b'' \<in> set (aliveHitCircleIds
                (checkNewAliveHitObjects stackEvaluator (bindFrame stackState stackFrame))) \<and>
   getHitCircle (beatmap stackEvaluator) ''b'' = Some stackCircleB \<and>
   fr_time stackFrame = hc_hitTime stackCircleB + hitWindows stackEvaluator MEH \<and>
   hasFreshClickThisFrame (bindFrame stackState stackFrame) \<and>
   vec2_distance (hc_position stackCircleB) (fr_position stackFrame) \<le> hc_radius stackCircleB \<and>
   earliestHitCircleStartTime stackEvaluator
     (checkNewAliveHitObjects stackEvaluator (bindFrame stackState stackFrame)) False
     = Inr (Some 1000) \<and>
   earliestHitCircleStartTime stackEvaluator
     (checkNewAliveHitObjects stackEvaluator (bindFrame stackState stackFrame)) True
     = Inr None \<and>
   \<not> noteLocked stackEvaluator (Some 1000) None stackCircleB \<and>
   evaluateNextFrameMutated stackEvaluator stackState stackFrame = Inr stackResult \<and>
   map_of (hitCircleState stackResult) ''b'' = None \<and>
   ''b'' \<in> set (aliveHitCircleIds stackResult)"
proof -
  have "vec2_distance (hc_position stackCircleB) (fr_position stackFrame)
          \<le> hc_radius stackCircleB"
    by (simp add: vec2_distance_le_iff stackCircleB_def stackFrame_def)
  moreover have
    "''b'' \<in> set (aliveHitCircleIds
                (checkNewAliveHitObjects stackEvaluator (bindFrame stackState stackFrame)))"
    by code_simp
  moreover have "getHitCircle (beatmap stackEvaluator) ''b'' = Some stackCircleB"
    by code_simp
  moreover have
    "fr_time stackFrame = hc_hitTime stackCircleB + hitWindows stackEvaluator MEH"
    by code_simp
  moreover have "hasFreshClickThisFrame (bindFrame stackState stackFrame)" by code_simp
  moreover have "earliestHitCircleStartTime stackEvaluator
     (checkNewAliveHitObjects stackEvaluator (bindFrame stackState stackFrame)) False
     = Inr (Some 1000)" by code_simp
  moreover have "earliestHitCircleStartTime stackEvaluator
     (checkNewAliveHitObjects stackEvaluator (bindFrame stackState stackFrame)) True
     = Inr None" by code_simp
  moreover have "\<not> noteLocked stackEvaluator (Some 1000) None stackCircleB" by code_simp
  moreover have "evaluateNextFrameMutated stackEvaluator stackState stackFrame = Inr stackResult"
    by code_simp
  moreover have "map_of (hitCircleState stackResult) ''b'' = None" by code_simp
  moreover have "''b'' \<in> set (aliveHitCircleIds stackResult)" by code_simp
  ultimately show ?thesis by blast
qed

text \<open>
  Claim C2, amended. On a state consistent with a beatmap whose sliders all have a check
  point, \<open>evaluateNextFrameMutated\<close> returns, and:

  First part. A hit circle that is alive in the call (alive before it or spawned by it)
  and whose \<open>hitTime + meh + 1\<close> is at most the frame's time is finalized as a miss
  with reason \<open>TIME_EXPIRED\<close> and judgement time \<open>hitTime + meh + 1\<close>, not the
  frame's time: the entry is recorded, the id leaves the alive hit circles and is appended
  to \<open>judgedObjects\<close>.

  Second part. In a frame at exactly \<open>hitTime + meh\<close> with a fresh click, the cursor
  within the radius and no note lock, a hit circle is finalized with the verdict
  \<open>MEH\<close> and the frame's time as judgement time, provided that no other alive hit
  circle can take the click (each has expired or has the cursor outside its radius).

  Third part. The condition in the code is that the click has not been used in this call:
  with \<open>clickWasUseful\<close> unset, \<open>handleHitCircle\<close> at exactly \<open>hitTime + meh\<close>
  records \<open>MEH\<close> and sets \<open>clickWasUseful\<close>.

  The hit window table is a parameter of the evaluator; the second and third part take it
  ordered (\<open>great < meh\<close>, \<open>ok < meh\<close>, \<open>0 \<le> meh\<close>), as the verdicts are
  tested in the order GREAT, OK, MEH.
\<close>

theorem hitCircle_timeout_and_last_meh:
  "(i \<in> set (aliveHitCircleIds (checkNewAliveHitObjects ev (bindFrame s frame))) \<and>
    distinct (aliveHitCircleIds s) \<and>
    getHitCircle (beatmap ev) i = Some h \<and>
    hc_hitTime h + hitWindows ev MEH + 1 \<le> fr_time frame \<and>
    consistent ev s \<and> slidersHaveCheckPoints (beatmap ev)
    \<longrightarrow> (\<exists>s'. evaluateNextFrameMutated ev s frame = Inr s' \<and>
          map_of (hitCircleState s') i =
            Some \<lparr>judgementTime = hc_hitTime h + hitWindows ev MEH + 1, hcs_type = MISS,
                  missReason = Some TIME_EXPIRED\<rparr> \<and>
          i \<notin> set (aliveHitCircleIds s') \<and>
          (\<exists>new. judgedObjects s' = judgedObjects s @ new \<and> i \<in> set new)))
   \<and>
   (i \<in> set (aliveHitCircleIds (checkNewAliveHitObjects ev (bindFrame s frame))) \<and>
    distinct (aliveHitCircleIds s) \<and>
    getHitCircle (beatmap ev) i = Some h \<and>
    fr_time frame = hc_hitTime h + hitWindows ev MEH \<and>
    hasFreshClickThisFrame (bindFrame s frame) \<and>
    vec2_distance (hc_position h) (fr_position frame) \<le> hc_radius h \<and>
    earliestHitCircleStartTime ev (checkNewAliveHitObjects ev (bindFrame s frame)) False
      = Inr tsc \<and>
    earliestHitCircleStartTime ev (checkNewAliveHitObjects ev (bindFrame s frame)) True
      = Inr ntsc \<and>
    \<not> noteLocked ev tsc ntsc h \<and>
    clickLeftFor ev (checkNewAliveHitObjects ev (bindFrame s frame)) i \<and>
    hitWindows ev GREAT < hitWindows ev MEH \<and> hitWindows ev OK < hitWindows ev MEH \<and>
    0 \<le> hitWindows ev MEH \<and>
    consistent ev s \<and> slidersHaveCheckPoints (beatmap ev)
    \<longrightarrow> (\<exists>s'. evaluateNextFrameMutated ev s frame = Inr s' \<and>
          map_of (hitCircleState s') i =
            Some \<lparr>judgementTime = fr_time frame, hcs_type = MEH, missReason = None\<rparr> \<and>
          i \<notin> set (aliveHitCircleIds s') \<and>
          (\<exists>new. judgedObjects s' = judgedObjects s @ new \<and> i \<in> set new)))
   \<and>
   (getHitCircle (beatmap ev) i = Some h \<and>
    currentTime cur = hc_hitTime h + hitWindows ev MEH \<and>
    hasFreshClickThisFrame cur \<and> \<not> clickWasUseful cur \<and>
    vec2_distance (hc_position h) (cursorPosition cur) \<le> hc_radius h \<and>
    \<not> noteLocked ev tsc ntsc h \<and>
    hitWindows ev GREAT < hitWindows ev MEH \<and> hitWindows ev OK < hitWindows ev MEH \<and>
    0 \<le> hitWindows ev MEH
    \<longrightarrow> handleHitCircle ev tsc ntsc i cur =
          Inr ((finishHitCircle i
                  \<lparr>judgementTime = currentTime cur, hcs_type = MEH, missReason = None\<rparr> cur)
                \<lparr>clickWasUseful := True\<rparr>))"
proof (intro conjI impI)
  assume a: "i \<in> set (aliveHitCircleIds (checkNewAliveHitObjects ev (bindFrame s frame))) \<and>
    distinct (aliveHitCircleIds s) \<and>
    getHitCircle (beatmap ev) i = Some h \<and>
    hc_hitTime h + hitWindows ev MEH + 1 \<le> fr_time frame \<and>
    consistent ev s \<and> slidersHaveCheckPoints (beatmap ev)"
  then obtain s' where s': "evaluateNextFrameMutated ev s frame = Inr s'"
    using evaluateNextFrameMutated_returns [of ev s frame] by blast
  from a have "map_of (hitCircleState s') i =
       Some \<lparr>judgementTime = hc_hitTime h + hitWindows ev MEH + 1, hcs_type = MISS,
             missReason = Some TIME_EXPIRED\<rparr> \<and>
     i \<notin> set (aliveHitCircleIds s') \<and>
     (\<exists>new. judgedObjects s' = judgedObjects s @ new \<and> i \<in> set new)"
    by (intro evaluateNextFrameMutated_timeout [OF s']) simp_all
  with s' show "\<exists>s'. evaluateNextFrameMutated ev s frame = Inr s' \<and>
          map_of (hitCircleState s') i =
            Some \<lparr>judgementTime = hc_hitTime h + hitWindows ev MEH + 1, hcs_type = MISS,
                  missReason = Some TIME_EXPIRED\<rparr> \<and>
          i \<notin> set (aliveHitCircleIds s') \<and>
          (\<exists>new. judgedObjects s' = judgedObjects s @ new \<and> i \<in> set new)"
    by blast
next
  assume a: "i \<in> set (aliveHitCircleIds (checkNewAliveHitObjects ev (bindFrame s frame))) \<and>
    distinct (aliveHitCircleIds s) \<and>
    getHitCircle (beatmap ev) i = Some h \<and>
    fr_time frame = hc_hitTime h + hitWindows ev MEH \<and>
    hasFreshClickThisFrame (bindFrame s frame) \<and>
    vec2_distance (hc_position h) (fr_position frame) \<le> hc_radius h \<and>
    earliestHitCircleStartTime ev (checkNewAliveHitObjects ev (bindFrame s frame)) False
      = Inr tsc \<and>
    earliestHitCircleStartTime ev (checkNewAliveHitObjects ev (bindFrame s frame)) True
      = Inr ntsc \<and>
    \<not> noteLocked ev tsc ntsc h \<and>
    clickLeftFor ev (checkNewAliveHitObjects ev (bindFrame s frame)) i \<and>
    hitWindows ev GREAT < hitWindows ev MEH \<and> hitWindows ev OK < hitWindows ev MEH \<and>
    0 \<le> hitWindows ev MEH \<and>
    consistent ev s \<and> slidersHaveCheckPoints (beatmap ev)"
  then obtain s' where s': "evaluateNextFrameMutated ev s frame = Inr s'"
    using evaluateNextFrameMutated_returns [of ev s frame] by blast
  from a have "map_of (hitCircleState s') i =
       Some \<lparr>judgementTime = fr_time frame, hcs_type = MEH, missReason = None\<rparr> \<and>
     i \<notin> set (aliveHitCircleIds s') \<and>
     (\<exists>new. judgedObjects s' = judgedObjects s @ new \<and> i \<in> set new)"
    by (intro evaluateNextFrameMutated_last_meh [OF s', where h = h and tsc = tsc and ntsc = ntsc])
       simp_all
  with s' show "\<exists>s'. evaluateNextFrameMutated ev s frame = Inr s' \<and>
          map_of (hitCircleState s') i =
            Some \<lparr>judgementTime = fr_time frame, hcs_type = MEH, missReason = None\<rparr> \<and>
          i \<notin> set (aliveHitCircleIds s') \<and>
          (\<exists>new. judgedObjects s' = judgedObjects s @ new \<and> i \<in> set new)"
    by blast
next
  assume "getHitCircle (beatmap ev) i = Some h \<and>
    currentTime cur = hc_hitTime h + hitWindows ev MEH \<and>
    hasFreshClickThisFrame cur \<and> \<not> clickWasUseful cur \<and>
    vec2_distance (hc_position h) (cursorPosition cur) \<le> hc_radius h \<and>
    \<not> noteLocked ev tsc ntsc h \<and>
    hitWindows ev GREAT < hitWindows ev MEH \<and> hitWindows ev OK < hitWindows ev MEH \<and>
    0 \<le> hitWindows ev MEH"
  with handleHitCircle_last_meh [of ev i h cur tsc ntsc]
  show "handleHitCircle ev tsc ntsc i cur =
          Inr ((finishHitCircle i
                  \<lparr>judgementTime = currentTime cur, hcs_type = MEH, missReason = None\<rparr> cur)
                \<lparr>clickWasUseful := True\<rparr>)"
    by blast
qed

theorem hitCircle_timeout_and_last_meh_witness:
  "(\<exists>s'. evaluateNextFrameMutated pairEvaluator pairAliveState expiryFrame = Inr s' \<and>
      map_of (hitCircleState s') ''0'' =
        Some \<lparr>judgementTime = 1101, hcs_type = MISS, missReason = Some TIME_EXPIRED\<rparr> \<and>
      ''0'' \<notin> set (aliveHitCircleIds s') \<and> ''0'' \<in> set (judgedObjects s')) \<and>
   clickLeftFor pairEvaluator
     (checkNewAliveHitObjects pairEvaluator (bindFrame pairAliveState lastMehFrame)) ''0'' \<and>
   (\<exists>s'. evaluateNextFrameMutated pairEvaluator pairAliveState lastMehFrame = Inr s' \<and>
      map_of (hitCircleState s') ''0'' =
        Some \<lparr>judgementTime = 1100, hcs_type = MEH, missReason = None\<rparr> \<and>
      ''0'' \<notin> set (aliveHitCircleIds s') \<and> ''0'' \<in> set (judgedObjects s')) \<and>
   handleHitCircle circleEvaluator (Some 1000) None ''0'' lastMehState =
     Inr ((finishHitCircle ''0''
             \<lparr>judgementTime = 1100, hcs_type = MEH, missReason = None\<rparr> lastMehState)
           \<lparr>clickWasUseful := True\<rparr>)"
proof -
  have h: "getHitCircle (beatmap pairEvaluator) ''0'' = Some demoCircle" by code_simp
  have d: "distinct (aliveHitCircleIds pairAliveState)" by code_simp
  have c: "consistent pairEvaluator pairAliveState" by code_simp
  have k: "slidersHaveCheckPoints (beatmap pairEvaluator)" by code_simp
  have w: "hitWindows pairEvaluator GREAT < hitWindows pairEvaluator MEH"
    "hitWindows pairEvaluator OK < hitWindows pairEvaluator MEH"
    "0 \<le> hitWindows pairEvaluator MEH" by code_simp+
  have j: "judgedObjects pairAliveState = []" by code_simp
  have a1: "''0'' \<in> set (aliveHitCircleIds
              (checkNewAliveHitObjects pairEvaluator (bindFrame pairAliveState expiryFrame)))"
    by code_simp
  have a2: "hc_hitTime demoCircle + hitWindows pairEvaluator MEH + 1 \<le> fr_time expiryFrame"
    by code_simp
  have a3: "hc_hitTime demoCircle + hitWindows pairEvaluator MEH + 1 = 1101" by code_simp
  have b1: "''0'' \<in> set (aliveHitCircleIds
              (checkNewAliveHitObjects pairEvaluator (bindFrame pairAliveState lastMehFrame)))"
    by code_simp
  have b2: "fr_time lastMehFrame = hc_hitTime demoCircle + hitWindows pairEvaluator MEH"
    by code_simp
  have b3: "hasFreshClickThisFrame (bindFrame pairAliveState lastMehFrame)" by code_simp
  have b4: "vec2_distance (hc_position demoCircle) (fr_position lastMehFrame)
              \<le> hc_radius demoCircle"
    by (simp add: vec2_distance_le_iff demoCircle_def lastMehFrame_def)
  have b5: "earliestHitCircleStartTime pairEvaluator
      (checkNewAliveHitObjects pairEvaluator (bindFrame pairAliveState lastMehFrame)) False
      = Inr (Some 1000)" by code_simp
  have b6: "earliestHitCircleStartTime pairEvaluator
      (checkNewAliveHitObjects pairEvaluator (bindFrame pairAliveState lastMehFrame)) True
      = Inr None" by code_simp
  have b7: "\<not> noteLocked pairEvaluator (Some 1000) None demoCircle" by code_simp
  have b8: "clickLeftFor pairEvaluator
     (checkNewAliveHitObjects pairEvaluator (bindFrame pairAliveState lastMehFrame)) ''0''"
    by code_simp
  have b9: "fr_time lastMehFrame = 1100" by code_simp
  have c1: "getHitCircle (beatmap circleEvaluator) ''0'' = Some demoCircle" by code_simp
  have c2: "currentTime lastMehState = hc_hitTime demoCircle + hitWindows circleEvaluator MEH"
    by code_simp
  have c3: "hasFreshClickThisFrame lastMehState" by code_simp
  have c4: "\<not> clickWasUseful lastMehState" by code_simp
  have c5: "vec2_distance (hc_position demoCircle) (cursorPosition lastMehState)
              \<le> hc_radius demoCircle"
    by (simp add: vec2_distance_le_iff demoCircle_def lastMehState_def defaultReplayState_def)
  have c6: "\<not> noteLocked circleEvaluator (Some 1000) None demoCircle" by code_simp
  have c7: "hitWindows circleEvaluator GREAT < hitWindows circleEvaluator MEH"
    "hitWindows circleEvaluator OK < hitWindows circleEvaluator MEH"
    "0 \<le> hitWindows circleEvaluator MEH" by code_simp+
  have c8: "currentTime lastMehState = 1100" by code_simp
  note part1 = hitCircle_timeout_and_last_meh
    [where i = "''0''" and ev = pairEvaluator and s = pairAliveState and frame = expiryFrame
       and h = demoCircle, THEN conjunct1, rule_format]
  note part2 = hitCircle_timeout_and_last_meh
    [where i = "''0''" and ev = pairEvaluator and s = pairAliveState and frame = lastMehFrame
       and h = demoCircle and tsc = "Some 1000" and ntsc = None,
     THEN conjunct2, THEN conjunct1, rule_format]
  note part3 = hitCircle_timeout_and_last_meh
    [where i = "''0''" and ev = circleEvaluator and h = demoCircle and cur = lastMehState
       and tsc = "Some 1000" and ntsc = None,
     THEN conjunct2, THEN conjunct2, rule_format]
  from part1 a1 d h a2 c k have p1:
    "\<exists>s'. evaluateNextFrameMutated pairEvaluator pairAliveState expiryFrame = Inr s' \<and>
      map_of (hitCircleState s') ''0'' =
        Some \<lparr>judgementTime = 1101, hcs_type = MISS, missReason = Some TIME_EXPIRED\<rparr> \<and>
      ''0'' \<notin> set (aliveHitCircleIds s') \<and> ''0'' \<in> set (judgedObjects s')"
    unfolding a3 j by auto
  from part2 b1 d h b2 b3 b4 b5 b6 b7 b8 w c k have p2:
    "\<exists>s'. evaluateNextFrameMutated pairEvaluator pairAliveState lastMehFrame = Inr s' \<and>
      map_of (hitCircleState s') ''0'' =
        Some \<lparr>judgementTime = 1100, hcs_type = MEH, missReason = None\<rparr> \<and>
      ''0'' \<notin> set (aliveHitCircleIds s') \<and> ''0'' \<in> set (judgedObjects s')"
    unfolding b9 j by auto
  from part3 c1 c2 c3 c4 c5 c6 c7 have p3:
    "handleHitCircle circleEvaluator (Some 1000) None ''0'' lastMehState =
     Inr ((finishHitCircle ''0''
             \<lparr>judgementTime = 1100, hcs_type = MEH, missReason = None\<rparr> lastMehState)
           \<lparr>clickWasUseful := True\<rparr>)"
    unfolding c8 by blast
  from p1 b8 p2 p3 show ?thesis by blast
qed

section \<open>Which entries a frame adds to the hit circle states\<close>

definition recordsOnly :: "(HitCircleState \<Rightarrow> bool) \<Rightarrow> GameState \<Rightarrow> GameState \<Rightarrow> bool" where
  \<comment> \<open>Every entry of \<open>hitCircleState\<close> in the later state is of the kind \<open>P\<close> or was
      there before.\<close>
  "recordsOnly P s s' \<longleftrightarrow>
     (\<forall>j st. map_of (hitCircleState s') j = Some st \<longrightarrow>
        P st \<or> map_of (hitCircleState s) j = Some st)"

lemma recordsOnly_same: "hitCircleState s' = hitCircleState s \<Longrightarrow> recordsOnly P s s'"
  by (simp add: recordsOnly_def)

lemma recordsOnly_trans:
  "recordsOnly P s s1 \<Longrightarrow> recordsOnly P s1 s2 \<Longrightarrow> recordsOnly P s s2"
  unfolding recordsOnly_def by blast

lemma finishHitCircle_recordsOnly: "P st \<Longrightarrow> recordsOnly P s (finishHitCircle i st s)"
  by (auto simp: recordsOnly_def finishHitCircle_def AList.update_conv' split: if_splits)

lemma finishSlider_recordsOnly:
  assumes "\<And>t. P \<lparr>judgementTime = t, hcs_type = MISS, missReason = Some SLIDER_FINISHED_FASTER\<rparr>"
    and "finishSlider ev k s = Inr s'"
  shows "recordsOnly P s s'"
  using assms(2) assms(1) unfolding finishSlider_def Let_def
  by (auto split: option.splits if_splits
      simp: recordsOnly_def finishHitCircle_def AList.update_conv')

lemma sliderJudgmentLoop_recordsOnly:
  assumes "\<And>t. P \<lparr>judgementTime = t, hcs_type = MISS, missReason = Some SLIDER_FINISHED_FASTER\<rparr>"
    and "sliderJudgmentLoop ev ids s = Inr s'"
  shows "recordsOnly P s s'"
  using assms(2)
proof (induction ids arbitrary: s)
  case Nil
  then show ?case by (simp add: recordsOnly_same)
next
  case (Cons k ids)
  then show ?case
    by (auto split: option.splits if_splits sum.splits
        dest!: finishSlider_recordsOnly [of P, OF assms(1)] intro: recordsOnly_trans)
qed

lemma evaluateNextFrameMutated_recordsOnly:
  assumes P: "\<And>t. P \<lparr>judgementTime = t, hcs_type = MISS, missReason = Some SLIDER_FINISHED_FASTER\<rparr>"
    and run: "evaluateNextFrameMutated ev s frame = Inr s'"
    and circles: "\<And>tsc ntsc s1 s2. handleHitCircles ev tsc ntsc s1 = Inr s2 \<Longrightarrow>
        clickWasUseful s1 = False \<Longrightarrow> Q s1 s2"
    and Q: "\<And>s1 s2 s0 s3. Q s1 s2 \<Longrightarrow> hitCircleState s1 = hitCircleState s0 \<Longrightarrow>
        recordsOnly P s2 s3 \<Longrightarrow> Q s0 s3"
  shows "Q s s'"
  using run
proof (cases rule: evaluateNextFrameMutated_cases)
  case (1 tsc ntsc s2 s3 s4 s5)
  let ?s1 = "checkNewAliveHitObjects ev (bindFrame s frame)"
  have s1: "hitCircleState ?s1 = hitCircleState s" "clickWasUseful ?s1 = False"
    using checkNewAliveHitObjects_frame [of "bindFrame s frame" ev]
    by (simp_all add: spawnFrame_def bindFrame_def)
  have q: "Q ?s1 s2" using circles [OF 1(3)] s1 by simp
  have "recordsOnly P s2 s3"
    using 1(4) P by (auto simp: handleSliderJudgment_def intro: sliderJudgmentLoop_recordsOnly)
  moreover have "hitCircleState s' = hitCircleState s3"
    using handleSliderCheckPoints_frame [OF 1(5)] updateSliderBodyTracking_frame [OF 1(6)]
      handleSpinners_frame [OF 1(7)]
    by (simp add: checkPointsFrame_def trackingFrame_def spinnersFrame_def)
  ultimately have "recordsOnly P s2 s'" by (simp add: recordsOnly_def)
  with q s1(1) show ?thesis by (rule Q)
qed

section \<open>Note lock under the lazer style\<close>

definition lockCircleA :: HitCircle where
  "lockCircleA =
     \<lparr>hc_id = ''a'', hc_position = \<lparr>pos_x = 100, pos_y = 100\<rparr>, hc_radius = 30,
      hc_hitTime = 1000, hc_spawnTime = 500\<rparr>"

definition lockCircleB :: HitCircle where
  "lockCircleB =
     \<lparr>hc_id = ''b'', hc_position = \<lparr>pos_x = 300, pos_y = 300\<rparr>, hc_radius = 30,
      hc_hitTime = 1050, hc_spawnTime = 550\<rparr>"

definition lazerEvaluator :: Evaluator where
  "lazerEvaluator =
     \<lparr>beatmap = \<lparr>hitObjects = [HitCircleObject lockCircleA, HitCircleObject lockCircleB]\<rparr>,
      hitWindows = demoWindows, noteLockStyle = LAZER\<rparr>"

definition lockState :: GameState where
  \<comment> \<open>Both circles alive and unjudged at time 980.\<close>
  "lockState =
     defaultReplayState
       \<lparr>currentTime := 980, latestHitObjectIndex := 2, aliveHitCircleIds := [''a'', ''b'']\<rparr>"

definition lockFrame :: ReplayFrame where
  \<comment> \<open>A fresh click on the second circle at time 990, inside its OK window.\<close>
  "lockFrame =
     \<lparr>fr_time = 990, fr_position = \<lparr>pos_x = 300, pos_y = 300\<rparr>, fr_actions = [leftButton]\<rparr>"

definition lockExpiryFrame :: ReplayFrame where
  "lockExpiryFrame =
     \<lparr>fr_time = 1200, fr_position = \<lparr>pos_x = 300, pos_y = 300\<rparr>, fr_actions = []\<rparr>"

definition notForced :: "HitCircleState \<Rightarrow> bool" where
  "notForced st \<longleftrightarrow> missReason st \<noteq> Some FORCE_MISS_NOTELOCK"

lemma handleHitCircle_notForced:
  "handleHitCircle ev tsc ntsc i s = Inr s' \<Longrightarrow> recordsOnly notForced s s'"
  unfolding handleHitCircle_def Let_def
  by (auto split: option.splits if_splits simp: recordsOnly_same)
     (auto simp: recordsOnly_def finishHitCircle_def AList.update_conv' notForced_def
       split: if_splits)

lemma handleHitCircleLoop_notForced:
  "handleHitCircleLoop ev tsc ntsc ids s = Inr s' \<Longrightarrow> recordsOnly notForced s s'"
proof (induction ids arbitrary: s)
  case Nil
  then show ?case by (simp add: recordsOnly_same)
next
  case (Cons i ids)
  then show ?case
    by (auto split: sum.splits dest!: handleHitCircle_notForced intro: recordsOnly_trans)
qed

lemma evaluateNextFrameMutated_notForced:
  assumes "evaluateNextFrameMutated ev s frame = Inr s'"
  shows "recordsOnly notForced s s'"
proof (rule evaluateNextFrameMutated_recordsOnly [where P = notForced and Q = "recordsOnly notForced",
      OF _ assms])
  show "notForced \<lparr>judgementTime = t, hcs_type = MISS, missReason = Some SLIDER_FINISHED_FASTER\<rparr>"
    for t by (simp add: notForced_def)
  show "recordsOnly notForced s1 s2" if "handleHitCircles ev tsc ntsc s1 = Inr s2"
    for tsc ntsc s1 s2
    using that by (auto simp: handleHitCircles_def split: sum.splits
        dest: handleHitCircleLoop_notForced)
  show "recordsOnly notForced s0 s3"
    if "recordsOnly notForced s1 s2" "hitCircleState s1 = hitCircleState s0"
      "recordsOnly notForced s2 s3" for s1 s2 s0 s3
    using that unfolding recordsOnly_def by metis
qed

lemma handleHitCircle_lazer_locked:
  assumes "noteLockStyle ev = LAZER" and "getHitCircle (beatmap ev) i = Some h"
    and "ntsc = Some t" and "t < hc_hitTime h"
    and "currentTime cur < hc_hitTime h + hitWindows ev MEH + 1"
  shows "handleHitCircle ev tsc ntsc i cur = Inr cur"
proof -
  have "noteLocked ev tsc ntsc h" using assms by (simp add: noteLocked_def)
  with assms show ?thesis by (simp add: handleHitCircle_def hitWindow_def Let_def)
qed

text \<open>
  Claim C3 says that under the lazer note lock a fresh click on a note-locked circle
  force-misses the blocking earlier circle with reason \<open>FORCE_MISS_NOTELOCK\<close>. The
  code returns from \<open>handleHitCircle\<close> on a lock under every style, and no statement
  of the evaluator produces the reason \<open>FORCE_MISS_NOTELOCK\<close>. With circles at hit
  times 1000 and 1050, both alive, and a fresh click on the second one at time 990 under
  the lazer style, the second circle is locked by the first, and the call judges no
  circle at all.
\<close>

theorem lazer_force_miss_counterexample:
  "noteLockStyle lazerEvaluator = LAZER \<and>
   earliestHitCircleStartTime lazerEvaluator
     (checkNewAliveHitObjects lazerEvaluator (bindFrame lockState lockFrame)) True =
     Inr (Some 1000) \<and>
   1000 < hc_hitTime lockCircleB \<and>
   hasFreshClickThisFrame (bindFrame lockState lockFrame) \<and>
   \<not> (hc_radius lockCircleB <
        vec2_distance (hc_position lockCircleB) (cursorPosition (bindFrame lockState lockFrame))) \<and>
   evaluateNextFrameMutated lazerEvaluator lockState lockFrame =
     Inr (lockState\<lparr>currentTime := 990, cursorPosition := \<lparr>pos_x = 300, pos_y = 300\<rparr>,
                    pressingSince := [990, NOT_PRESSING]\<rparr>) \<and>
   hitCircleState (lockState\<lparr>currentTime := 990, cursorPosition := \<lparr>pos_x = 300, pos_y = 300\<rparr>,
                    pressingSince := [990, NOT_PRESSING]\<rparr>) = [] \<and>
   aliveHitCircleIds (lockState\<lparr>currentTime := 990,
                    cursorPosition := \<lparr>pos_x = 300, pos_y = 300\<rparr>,
                    pressingSince := [990, NOT_PRESSING]\<rparr>) = [''a'', ''b'']"
  by code_simp

text \<open>
  Claim C3, amended. Under the lazer style a click on an alive hit circle that is
  note-locked (\<open>nextTimeSupposedToClick\<close> is defined and less than the circle's hit
  time) and not yet expired is skipped: \<open>handleHitCircle\<close> leaves the state as it is.
  And no call of \<open>evaluateNextFrameMutated\<close> records the reason
  \<open>FORCE_MISS_NOTELOCK\<close>: from a state without such an entry the call returns a
  state without such an entry.
\<close>

theorem lazer_lock_skips:
  "(noteLockStyle ev = LAZER \<and> getHitCircle (beatmap ev) i = Some h \<and>
    ntsc = Some t \<and> t < hc_hitTime h \<and>
    currentTime cur < hc_hitTime h + hitWindows ev MEH + 1
    \<longrightarrow> handleHitCircle ev tsc ntsc i cur = Inr cur)
   \<and>
   ((\<forall>j st. map_of (hitCircleState s) j = Some st \<longrightarrow>
        missReason st \<noteq> Some FORCE_MISS_NOTELOCK) \<and>
    evaluateNextFrameMutated ev s frame = Inr s'
    \<longrightarrow> (\<forall>j st. map_of (hitCircleState s') j = Some st \<longrightarrow>
          missReason st \<noteq> Some FORCE_MISS_NOTELOCK))"
proof (intro conjI impI)
  assume "noteLockStyle ev = LAZER \<and> getHitCircle (beatmap ev) i = Some h \<and>
    ntsc = Some t \<and> t < hc_hitTime h \<and>
    currentTime cur < hc_hitTime h + hitWindows ev MEH + 1"
  then show "handleHitCircle ev tsc ntsc i cur = Inr cur"
    by (intro handleHitCircle_lazer_locked [of ev i h ntsc t cur]) auto
next
  assume a: "(\<forall>j st. map_of (hitCircleState s) j = Some st \<longrightarrow>
        missReason st \<noteq> Some FORCE_MISS_NOTELOCK) \<and>
    evaluateNextFrameMutated ev s frame = Inr s'"
  then have "recordsOnly notForced s s'" by (auto dest: evaluateNextFrameMutated_notForced)
  with a show "\<forall>j st. map_of (hitCircleState s') j = Some st \<longrightarrow>
          missReason st \<noteq> Some FORCE_MISS_NOTELOCK"
    unfolding recordsOnly_def notForced_def by blast
qed

theorem lazer_lock_skips_witness:
  "handleHitCircle lazerEvaluator (Some 1000) (Some 1000) ''b''
     (checkNewAliveHitObjects lazerEvaluator (bindFrame lockState lockFrame)) =
     Inr (checkNewAliveHitObjects lazerEvaluator (bindFrame lockState lockFrame)) \<and>
   (\<exists>s'. evaluateNextFrameMutated lazerEvaluator lockState lockExpiryFrame = Inr s' \<and>
      map_of (hitCircleState s') ''a'' =
        Some \<lparr>judgementTime = 1101, hcs_type = MISS, missReason = Some TIME_EXPIRED\<rparr> \<and>
      TIME_EXPIRED \<noteq> FORCE_MISS_NOTELOCK)"
proof -
  define cur where "cur = checkNewAliveHitObjects lazerEvaluator (bindFrame lockState lockFrame)"
  define S where "S = lockState
     \<lparr>currentTime := 1200, cursorPosition := \<lparr>pos_x = 300, pos_y = 300\<rparr>,
      hitCircleState :=
        [(''a'', \<lparr>judgementTime = 1101, hcs_type = MISS, missReason = Some TIME_EXPIRED\<rparr>),
         (''b'', \<lparr>judgementTime = 1151, hcs_type = MISS, missReason = Some TIME_EXPIRED\<rparr>)],
      judgedObjects := [''a'', ''b''], aliveHitCircleIds := []\<rparr>"
  have a1: "noteLockStyle lazerEvaluator = LAZER" by code_simp
  have a2: "getHitCircle (beatmap lazerEvaluator) ''b'' = Some lockCircleB" by code_simp
  have a3: "(1000::real) < hc_hitTime lockCircleB" by code_simp
  have a4: "currentTime cur < hc_hitTime lockCircleB + hitWindows lazerEvaluator MEH + 1"
    unfolding cur_def by code_simp
  have b1: "\<forall>j st. map_of (hitCircleState lockState) j = Some st \<longrightarrow>
        missReason st \<noteq> Some FORCE_MISS_NOTELOCK"
    by (simp add: lockState_def defaultReplayState_def)
  have b2: "evaluateNextFrameMutated lazerEvaluator lockState lockExpiryFrame = Inr S"
    unfolding S_def by code_simp
  have b3: "map_of (hitCircleState S) ''a'' =
        Some \<lparr>judgementTime = 1101, hcs_type = MISS, missReason = Some TIME_EXPIRED\<rparr>"
    unfolding S_def by code_simp
  note inst = lazer_lock_skips [of lazerEvaluator "''b''" lockCircleB "Some 1000" 1000 cur
      "Some 1000" lockState lockExpiryFrame S]
  from inst a1 a2 a3 a4 have p1: "handleHitCircle lazerEvaluator (Some 1000) (Some 1000) ''b'' cur = Inr cur"
    by blast
  from inst b1 b2 b3 have "missReason \<lparr>judgementTime = 1101, hcs_type = MISS,
      missReason = Some TIME_EXPIRED\<rparr> \<noteq> Some FORCE_MISS_NOTELOCK" by blast
  then have p2: "TIME_EXPIRED \<noteq> FORCE_MISS_NOTELOCK" by simp
  from p1 p2 b2 b3 show ?thesis unfolding cur_def by blast
qed

section \<open>One hit per frame\<close>

definition twinCircleA :: HitCircle where
  "twinCircleA =
     \<lparr>hc_id = ''a'', hc_position = \<lparr>pos_x = 100, pos_y = 100\<rparr>, hc_radius = 30,
      hc_hitTime = 1000, hc_spawnTime = 500\<rparr>"

definition twinCircleB :: HitCircle where
  "twinCircleB =
     \<lparr>hc_id = ''b'', hc_position = \<lparr>pos_x = 110, pos_y = 100\<rparr>, hc_radius = 30,
      hc_hitTime = 1000, hc_spawnTime = 500\<rparr>"

definition twinEvaluator :: "NoteLockStyle \<Rightarrow> Evaluator" where
  "twinEvaluator style =
     \<lparr>beatmap = \<lparr>hitObjects = [HitCircleObject twinCircleA, HitCircleObject twinCircleB]\<rparr>,
      hitWindows = demoWindows, noteLockStyle = style\<rparr>"

definition twinState :: GameState where
  \<comment> \<open>Both circles alive and unjudged at time 900.\<close>
  "twinState =
     defaultReplayState
       \<lparr>currentTime := 900, latestHitObjectIndex := 2, aliveHitCircleIds := [''a'', ''b'']\<rparr>"

definition twinFrame :: ReplayFrame where
  \<comment> \<open>A fresh click at time 1000 inside both circles.\<close>
  "twinFrame =
     \<lparr>fr_time = 1000, fr_position = \<lparr>pos_x = 105, pos_y = 100\<rparr>, fr_actions = [leftButton]\<rparr>"

definition twinResult :: GameState where
  "twinResult =
     twinState
       \<lparr>currentTime := 1000, cursorPosition := \<lparr>pos_x = 105, pos_y = 100\<rparr>,
        hitCircleState :=
          [(''a'', \<lparr>judgementTime = 1000, hcs_type = GREAT, missReason = None\<rparr>)],
        clickWasUseful := True, judgedObjects := [''a''], aliveHitCircleIds := [''b''],
        pressingSince := [1000, NOT_PRESSING]\<rparr>"

definition newlyHit :: "GameState \<Rightarrow> GameState \<Rightarrow> string \<Rightarrow> bool" where
  \<comment> \<open>Between the two states the circle has got an entry with a hit verdict.\<close>
  "newlyHit s s' i \<longleftrightarrow>
     (\<exists>st. map_of (hitCircleState s') i = Some st \<and> hcs_type st \<noteq> MISS \<and>
           map_of (hitCircleState s) i \<noteq> Some st)"

definition isMiss :: "HitCircleState \<Rightarrow> bool" where
  "isMiss st \<longleftrightarrow> hcs_type st = MISS"

lemma recordsOnly_isMiss_not_newlyHit: "recordsOnly isMiss s s' \<Longrightarrow> \<not> newlyHit s s' i"
  unfolding recordsOnly_def isMiss_def newlyHit_def by blast

lemma handleHitCircle_click_used:
  assumes "handleHitCircle ev tsc ntsc i s = Inr s'" and "clickWasUseful s"
  shows "recordsOnly isMiss s s' \<and> clickWasUseful s'"
  using assms unfolding handleHitCircle_def Let_def
  by (auto split: option.splits if_splits simp: recordsOnly_same)
     (auto simp: recordsOnly_def finishHitCircle_def AList.update_conv' isMiss_def
       split: if_splits)

lemma handleHitCircleLoop_click_used:
  assumes "handleHitCircleLoop ev tsc ntsc ids s = Inr s'" and "clickWasUseful s"
  shows "recordsOnly isMiss s s'"
  using assms
proof (induction ids arbitrary: s)
  case Nil
  then show ?case by (simp add: recordsOnly_same)
next
  case (Cons i ids)
  from Cons.prems(1) obtain s1 where
    s1: "handleHitCircle ev tsc ntsc i s = Inr s1" and
    rest: "handleHitCircleLoop ev tsc ntsc ids s1 = Inr s'"
    by (auto split: sum.splits)
  from handleHitCircle_click_used [OF s1 Cons.prems(2)] Cons.IH [OF rest]
  show ?case by (blast intro: recordsOnly_trans)
qed

lemma handleHitCircle_one_hit:
  assumes "handleHitCircle ev tsc ntsc i s = Inr s'"
  shows "recordsOnly isMiss s s' \<and> clickWasUseful s' = clickWasUseful s \<or>
         clickWasUseful s' \<and> (\<forall>j. j \<noteq> i \<longrightarrow>
            map_of (hitCircleState s') j = map_of (hitCircleState s) j)"
  using assms unfolding handleHitCircle_def Let_def
  by (auto split: option.splits if_splits simp: recordsOnly_same)
     (auto simp: recordsOnly_def finishHitCircle_def AList.update_conv' isMiss_def
       split: if_splits)

definition atMostOneHit :: "GameState \<Rightarrow> GameState \<Rightarrow> bool" where
  "atMostOneHit s s' \<longleftrightarrow> (\<forall>i j. newlyHit s s' i \<longrightarrow> newlyHit s s' j \<longrightarrow> i = j)"

lemma handleHitCircleLoop_one_hit:
  "handleHitCircleLoop ev tsc ntsc ids s = Inr s' \<Longrightarrow> atMostOneHit s s'"
proof (induction ids arbitrary: s)
  case Nil
  then show ?case by (auto simp: atMostOneHit_def newlyHit_def)
next
  case (Cons i ids)
  from Cons.prems(1) obtain s1 where
    s1: "handleHitCircle ev tsc ntsc i s = Inr s1" and
    rest: "handleHitCircleLoop ev tsc ntsc ids s1 = Inr s'"
    by (auto split: sum.splits)
  from handleHitCircle_one_hit [OF s1] show ?case
  proof
    assume a: "recordsOnly isMiss s s1 \<and> clickWasUseful s1 = clickWasUseful s"
    have "newlyHit s1 s' j" if "newlyHit s s' j" for j
      using that a unfolding newlyHit_def recordsOnly_def isMiss_def by metis
    with Cons.IH [OF rest] show ?thesis unfolding atMostOneHit_def by blast
  next
    assume a: "clickWasUseful s1 \<and> (\<forall>j. j \<noteq> i \<longrightarrow>
            map_of (hitCircleState s1) j = map_of (hitCircleState s) j)"
    with handleHitCircleLoop_click_used [OF rest] have r: "recordsOnly isMiss s1 s'" by simp
    have "j = i" if "newlyHit s s' j" for j
      using that a r unfolding newlyHit_def recordsOnly_def isMiss_def by metis
    then show ?thesis unfolding atMostOneHit_def by blast
  qed
qed

lemma evaluateNextFrameMutated_one_hit:
  assumes "evaluateNextFrameMutated ev s frame = Inr s'"
  shows "atMostOneHit s s'"
proof (rule evaluateNextFrameMutated_recordsOnly [where P = isMiss and Q = atMostOneHit,
      OF _ assms])
  show "isMiss \<lparr>judgementTime = t, hcs_type = MISS, missReason = Some SLIDER_FINISHED_FASTER\<rparr>"
    for t by (simp add: isMiss_def)
  show "atMostOneHit s1 s2" if "handleHitCircles ev tsc ntsc s1 = Inr s2"
    for tsc ntsc s1 s2
    using that by (auto simp: handleHitCircles_def split: sum.splits
        dest: handleHitCircleLoop_one_hit)
  show "atMostOneHit s0 s3"
    if "atMostOneHit s1 s2" "hitCircleState s1 = hitCircleState s0"
      "recordsOnly isMiss s2 s3" for s1 s2 s0 s3
  proof -
    have "newlyHit s1 s2 j" if "newlyHit s0 s3 j" for j
      using that \<open>hitCircleState s1 = hitCircleState s0\<close> \<open>recordsOnly isMiss s2 s3\<close>
      unfolding newlyHit_def recordsOnly_def isMiss_def by metis
    with \<open>atMostOneHit s1 s2\<close> show ?thesis unfolding atMostOneHit_def by blast
  qed
qed

text \<open>
  Claim C6 says that, for some beatmap with two alive circles of the same hit time and
  a fresh click inside both and within a hit window of both, both circles are hit in one
  call under the style \<open>NONE\<close>. In the code a hit sets \<open>clickWasUseful\<close>, and
  \<open>handleHitCircle\<close> returns on that flag before it looks at the note lock style:
  in that very scenario the first circle is hit and the second stays alive and unjudged,
  under \<open>NONE\<close> as under \<open>STABLE\<close> and \<open>LAZER\<close>.
\<close>

theorem two_hits_under_none_counterexample:
  "hc_hitTime twinCircleA = hc_hitTime twinCircleB \<and>
   \<not> (hc_radius twinCircleA < vec2_distance (hc_position twinCircleA) (fr_position twinFrame)) \<and>
   \<not> (hc_radius twinCircleB < vec2_distance (hc_position twinCircleB) (fr_position twinFrame)) \<and>
   isWithinHitWindow (twinEvaluator NONE) (fr_time twinFrame - hc_hitTime twinCircleA) GREAT \<and>
   isWithinHitWindow (twinEvaluator NONE) (fr_time twinFrame - hc_hitTime twinCircleB) GREAT \<and>
   evaluateNextFrameMutated (twinEvaluator NONE) twinState twinFrame = Inr twinResult \<and>
   map_of (hitCircleState twinResult) ''b'' = None \<and>
   aliveHitCircleIds twinResult = [''b''] \<and>
   evaluateNextFrameMutated (twinEvaluator STABLE) twinState twinFrame = Inr twinResult \<and>
   evaluateNextFrameMutated (twinEvaluator LAZER) twinState twinFrame = Inr twinResult"
  by code_simp

text \<open>
  Claim C6, amended. Under every note lock style, \<open>NONE\<close> included, at most one hit
  circle gets a hit verdict in one call of \<open>evaluateNextFrameMutated\<close>: when a circle
  has got an entry with a hit verdict in the call, no other circle has.
\<close>

theorem one_hit_per_frame:
  assumes "evaluateNextFrameMutated ev s frame = Inr s'"
    and "newlyHit s s' i" and "j \<noteq> i"
  shows "\<not> newlyHit s s' j"
  using evaluateNextFrameMutated_one_hit [OF assms(1)] assms(2,3)
  unfolding atMostOneHit_def by blast

theorem one_hit_per_frame_witness:
  "evaluateNextFrameMutated (twinEvaluator NONE) twinState twinFrame = Inr twinResult \<and>
   newlyHit twinState twinResult ''a'' \<and> ''b'' \<noteq> ''a'' \<and>
   \<not> newlyHit twinState twinResult ''b''"
proof -
  have a: "evaluateNextFrameMutated (twinEvaluator NONE) twinState twinFrame = Inr twinResult"
    by code_simp
  have b: "newlyHit twinState twinResult ''a''"
    by (simp add: newlyHit_def twinState_def twinResult_def defaultReplayState_def)
  have c: "''b'' \<noteq> ''a''" by simp
  from one_hit_per_frame [OF a b c] a b c show ?thesis by blast
qed

section \<open>The order in which check points are evaluated\<close>

definition nextCheckPointTime :: "Beatmap \<Rightarrow> string \<times> nat \<Rightarrow> real option" where
  \<comment> \<open>The hit time of the next check point of an entry of \<open>nextCheckPointIndex\<close>.\<close>
  "nextCheckPointTime bm e =
     (case getSlider bm (fst e) of
        None \<Rightarrow> None
      | Some slider \<Rightarrow>
          if snd e < length (sl_checkPoints slider)
          then Some (cp_hitTime (sl_checkPoints slider ! snd e)) else None)"

definition firstEarliest ::
  "Beatmap \<Rightarrow> real \<Rightarrow> (string \<times> nat) list \<Rightarrow> string \<times> nat \<Rightarrow> bool" where
  \<comment> \<open>The entry is the first one, in the order of the map, among those whose next check
      point has the smallest hit time before the current time.\<close>
  "firstEarliest bm now entries e \<longleftrightarrow>
     (\<exists>before after t.
        entries = before @ e # after \<and>
        nextCheckPointTime bm e = Some t \<and> t < now \<and> t < 1000000000000000000 \<and>
        (\<forall>e' u. e' \<in> set before \<and> nextCheckPointTime bm e' = Some u \<and> u < now \<longrightarrow> t < u) \<and>
        (\<forall>e' u. e' \<in> set after \<and> nextCheckPointTime bm e' = Some u \<and> u < now \<longrightarrow> t \<le> u))"

definition noneCrossed :: "Beatmap \<Rightarrow> real \<Rightarrow> (string \<times> nat) list \<Rightarrow> bool" where
  "noneCrossed bm now entries \<longleftrightarrow>
     (\<forall>e u. e \<in> set entries \<and> nextCheckPointTime bm e = Some u \<and> u < now
        \<longrightarrow> 1000000000000000000 \<le> u)"

definition tieSlider :: "string \<Rightarrow> Slider" where
  "tieSlider n =
     \<lparr>sl_id = n,
      sl_head = \<lparr>hc_id = n @ ''/h'', hc_position = \<lparr>pos_x = 0, pos_y = 0\<rparr>, hc_radius = 10,
                 hc_hitTime = 1000, hc_spawnTime = 500\<rparr>,
      sl_checkPoints =
        [\<lparr>cp_id = n @ ''/0'', cp_hitTime = 1500\<rparr>, \<lparr>cp_id = n @ ''/1'', cp_hitTime = 2000\<rparr>],
      sl_startTime = 1000, sl_endTime = 2000, sl_duration = 1000, sl_radius = 10,
      sl_spawnTime = 500,
      sl_ballPositionAt = (\<lambda>p. \<lparr>pos_x = 100 * p, pos_y = 0\<rparr>)\<rparr>"

definition tieEvaluator :: Evaluator where
  "tieEvaluator =
     \<lparr>beatmap = \<lparr>hitObjects = [SliderObject (tieSlider ''2''), SliderObject (tieSlider ''1'')]\<rparr>,
      hitWindows = demoWindows, noteLockStyle = STABLE\<rparr>"

definition tieFrames :: "ReplayFrame list" where
  "tieFrames =
     [\<lparr>fr_time = 900, fr_position = \<lparr>pos_x = 0, pos_y = 0\<rparr>, fr_actions = []\<rparr>,
      \<lparr>fr_time = 1600, fr_position = \<lparr>pos_x = 0, pos_y = 0\<rparr>, fr_actions = []\<rparr>]"

definition tieSpawned :: GameState where
  \<comment> \<open>The state after the first of the two frames.\<close>
  "tieSpawned =
     defaultReplayState
       \<lparr>currentTime := 900,
        sliderBodyState := [(''2'', \<lparr>isTracking = False\<rparr>), (''1'', \<lparr>isTracking = False\<rparr>)],
        latestHitObjectIndex := 2, aliveHitCircleIds := [''2/h'', ''1/h''],
        aliveSliderIds := [''2'', ''1''], nextCheckPointIndex := [(''2'', 0), (''1'', 0)]\<rparr>"

definition tieJudged :: GameState where
  \<comment> \<open>The state after both frames.\<close>
  "tieJudged =
     tieSpawned
       \<lparr>currentTime := 1600,
        hitCircleState :=
          [(''2/h'', \<lparr>judgementTime = 1101, hcs_type = MISS, missReason = Some TIME_EXPIRED\<rparr>),
           (''1/h'', \<lparr>judgementTime = 1101, hcs_type = MISS, missReason = Some TIME_EXPIRED\<rparr>)],
        checkPointState := [(''2/0'', \<lparr>hit = False\<rparr>), (''1/0'', \<lparr>hit = False\<rparr>)],
        judgedObjects := [''2/h'', ''1/h'', ''2/0'', ''1/0''], aliveHitCircleIds := [],
        nextCheckPointIndex := [(''2'', 1), (''1'', 1)]\<rparr>"

definition tieMid :: GameState where
  \<comment> \<open>The state of the second frame when the check points are evaluated.\<close>
  "tieMid =
     tieSpawned
       \<lparr>currentTime := 1600,
        hitCircleState :=
          [(''2/h'', \<lparr>judgementTime = 1101, hcs_type = MISS, missReason = Some TIME_EXPIRED\<rparr>),
           (''1/h'', \<lparr>judgementTime = 1101, hcs_type = MISS, missReason = Some TIME_EXPIRED\<rparr>)],
        judgedObjects := [''2/h'', ''1/h''], aliveHitCircleIds := []\<rparr>"

lemma earliestCheckPoint_acc:
  assumes "earliestCheckPoint bm now es best bt = Inr r"
  shows "(r = best \<and>
          (\<forall>e u. e \<in> set es \<and> nextCheckPointTime bm e = Some u \<and> u < now \<longrightarrow> bt \<le> u)) \<or>
         (\<exists>before e after t.
            es = before @ e # after \<and> r = Some (fst e) \<and>
            nextCheckPointTime bm e = Some t \<and> t < now \<and> t < bt \<and>
            (\<forall>e' u. e' \<in> set before \<and> nextCheckPointTime bm e' = Some u \<and> u < now
               \<longrightarrow> t < u) \<and>
            (\<forall>e' u. e' \<in> set after \<and> nextCheckPointTime bm e' = Some u \<and> u < now
               \<longrightarrow> t \<le> u))"
  using assms
proof (induction es arbitrary: best bt)
  case Nil
  then show ?case by simp
next
  case (Cons e0 es)
  obtain k idx where e0: "e0 = (k, idx)" by (cases e0)
  from Cons.prems e0 obtain slider where
    sl: "getSlider bm k = Some slider" and idx: "idx < length (sl_checkPoints slider)"
    by (auto split: option.splits if_splits)
  define t0 where "t0 = cp_hitTime (sl_checkPoints slider ! idx)"
  have n0: "nextCheckPointTime bm e0 = Some t0"
    by (simp add: nextCheckPointTime_def e0 sl idx t0_def)
  show ?case
  proof (cases "t0 < now \<and> t0 < bt")
    case True
    with Cons.prems e0 sl idx have
      rec: "earliestCheckPoint bm now es (Some k) t0 = Inr r"
      by (simp add: t0_def Let_def)
    from Cons.IH [OF rec] show ?thesis
    proof
      assume a: "r = Some k \<and>
          (\<forall>e u. e \<in> set es \<and> nextCheckPointTime bm e = Some u \<and> u < now \<longrightarrow> t0 \<le> u)"
      have "e0 # es = [] @ e0 # es \<and> r = Some (fst e0) \<and>
            nextCheckPointTime bm e0 = Some t0 \<and> t0 < now \<and> t0 < bt \<and>
            (\<forall>e' u. e' \<in> set [] \<and> nextCheckPointTime bm e' = Some u \<and> u < now
               \<longrightarrow> t0 < u) \<and>
            (\<forall>e' u. e' \<in> set es \<and> nextCheckPointTime bm e' = Some u \<and> u < now
               \<longrightarrow> t0 \<le> u)"
        using a True n0 e0 by auto
      then show ?thesis by blast
    next
      assume "\<exists>before e after t.
            es = before @ e # after \<and> r = Some (fst e) \<and>
            nextCheckPointTime bm e = Some t \<and> t < now \<and> t < t0 \<and>
            (\<forall>e' u. e' \<in> set before \<and> nextCheckPointTime bm e' = Some u \<and> u < now
               \<longrightarrow> t < u) \<and>
            (\<forall>e' u. e' \<in> set after \<and> nextCheckPointTime bm e' = Some u \<and> u < now
               \<longrightarrow> t \<le> u)"
      then obtain before e after t where
        b: "es = before @ e # after" "r = Some (fst e)"
          "nextCheckPointTime bm e = Some t" "t < now" "t < t0"
          "\<forall>e' u. e' \<in> set before \<and> nextCheckPointTime bm e' = Some u \<and> u < now
               \<longrightarrow> t < u"
          "\<forall>e' u. e' \<in> set after \<and> nextCheckPointTime bm e' = Some u \<and> u < now
               \<longrightarrow> t \<le> u"
        by blast
      have "e0 # es = (e0 # before) @ e # after \<and> r = Some (fst e) \<and>
            nextCheckPointTime bm e = Some t \<and> t < now \<and> t < bt \<and>
            (\<forall>e' u. e' \<in> set (e0 # before) \<and> nextCheckPointTime bm e' = Some u \<and> u < now
               \<longrightarrow> t < u) \<and>
            (\<forall>e' u. e' \<in> set after \<and> nextCheckPointTime bm e' = Some u \<and> u < now
               \<longrightarrow> t \<le> u)"
        using b True n0 by auto
      then show ?thesis by blast
    qed
  next
    case False
    with Cons.prems e0 sl idx have
      rec: "earliestCheckPoint bm now es best bt = Inr r"
      by (auto simp: t0_def Let_def)
    from Cons.IH [OF rec] show ?thesis
    proof
      assume a: "r = best \<and>
          (\<forall>e u. e \<in> set es \<and> nextCheckPointTime bm e = Some u \<and> u < now \<longrightarrow> bt \<le> u)"
      with False n0 show ?thesis by auto
    next
      assume "\<exists>before e after t.
            es = before @ e # after \<and> r = Some (fst e) \<and>
            nextCheckPointTime bm e = Some t \<and> t < now \<and> t < bt \<and>
            (\<forall>e' u. e' \<in> set before \<and> nextCheckPointTime bm e' = Some u \<and> u < now
               \<longrightarrow> t < u) \<and>
            (\<forall>e' u. e' \<in> set after \<and> nextCheckPointTime bm e' = Some u \<and> u < now
               \<longrightarrow> t \<le> u)"
      then obtain before e after t where
        b: "es = before @ e # after" "r = Some (fst e)"
          "nextCheckPointTime bm e = Some t" "t < now" "t < bt"
          "\<forall>e' u. e' \<in> set before \<and> nextCheckPointTime bm e' = Some u \<and> u < now
               \<longrightarrow> t < u"
          "\<forall>e' u. e' \<in> set after \<and> nextCheckPointTime bm e' = Some u \<and> u < now
               \<longrightarrow> t \<le> u"
        by blast
      have "e0 # es = (e0 # before) @ e # after \<and> r = Some (fst e) \<and>
            nextCheckPointTime bm e = Some t \<and> t < now \<and> t < bt \<and>
            (\<forall>e' u. e' \<in> set (e0 # before) \<and> nextCheckPointTime bm e' = Some u \<and> u < now
               \<longrightarrow> t < u) \<and>
            (\<forall>e' u. e' \<in> set after \<and> nextCheckPointTime bm e' = Some u \<and> u < now
               \<longrightarrow> t \<le> u)"
        using b False n0 by auto
      then show ?thesis by blast
    qed
  qed
qed

lemma earliestCheckPoint_selects:
  assumes "earliestCheckPoint bm now es None 1000000000000000000 = Inr r"
  shows "(r = None \<and> noneCrossed bm now es) \<or>
         (\<exists>e. r = Some (fst e) \<and> firstEarliest bm now es e)"
  using earliestCheckPoint_acc [OF assms] unfolding noneCrossed_def firstEarliest_def
  by blast

lemma map_of_distinct_entry:
  "distinct (map fst es) \<Longrightarrow> es = before @ (k, v) # after \<Longrightarrow> map_of es k = Some v"
  by (metis in_set_conv_decomp map_of_is_SomeI)

lemma checkPointStep_result:
  assumes "checkPointStep ev pt pp old k s = Inr s1"
  obtains slider idx where
    "getSlider (beatmap ev) k = Some slider"
    "map_of (nextCheckPointIndex s) k = Some idx"
    "idx < length (sl_checkPoints slider)"
    "checkPointState s1 =
       AList.update (cp_id (sl_checkPoints slider ! idx))
         \<lparr>hit = determineTracking (wasTrackingOf s k) slider
                  (predictedPositionAt s pt pp
                     (of_int \<lceil>cp_hitTime (sl_checkPoints slider ! idx) - 1 / 10000000000\<rceil>))
                  (of_int \<lceil>cp_hitTime (sl_checkPoints slider ! idx) - 1 / 10000000000\<rceil>)
                  old (headHitTime s (hc_id (sl_head slider)))\<rparr>
         (checkPointState s)"
    "judgedObjects s1 = judgedObjects s @ [cp_id (sl_checkPoints slider ! idx)]"
    "nextCheckPointIndex s1 =
       (if idx + 1 < length (sl_checkPoints slider)
        then AList.update k (idx + 1) (nextCheckPointIndex s)
        else AList.delete k (nextCheckPointIndex s))"
  using assms unfolding checkPointStep_def Let_def
  by (auto split: option.splits if_splits simp: getSlider_id)

text \<open>
  Claim C8 says that ties between check points of the same hit time are broken by the
  order of the slider ids. The loop of \<open>handleSliderCheckPoints\<close> walks the map
  \<open>nextCheckPointIndex\<close> in its insertion order and replaces the candidate only on a
  strictly smaller hit time, so the first entry of the map wins a tie. In a beatmap whose
  first slider has the id \<open>2\<close> and whose second slider has the id \<open>1\<close>, both with a
  check point at 1500, the frame at 1600 judges the check point of slider \<open>2\<close> first,
  although \<open>1 < 2\<close>.
\<close>

theorem checkpoint_tie_counterexample:
  "evaluateFrames tieEvaluator defaultReplayState (take 1 tieFrames) = Inr tieSpawned \<and>
   nextCheckPointIndex tieSpawned = [(''2'', 0), (''1'', 0)] \<and>
   nextCheckPointTime (beatmap tieEvaluator) (''2'', 0) = Some 1500 \<and>
   nextCheckPointTime (beatmap tieEvaluator) (''1'', 0) = Some 1500 \<and>
   ''1'' < ''2'' \<and>
   evaluateFrames tieEvaluator defaultReplayState tieFrames = Inr tieJudged \<and>
   judgedObjects tieJudged = [''2/h'', ''1/h'', ''2/0'', ''1/0''] \<and>
   checkPointState tieJudged = [(''2/0'', \<lparr>hit = False\<rparr>), (''1/0'', \<lparr>hit = False\<rparr>)]"
  by code_simp

text \<open>
  Claim C8, amended. \<open>handleSliderCheckPoints\<close> repeatedly selects, among the next
  check points of the entries of \<open>nextCheckPointIndex\<close> (one for each slider that has
  check points left), one with the smallest hit time among those with a hit time before
  the current time (and below the initial bound \<open>1e18\<close>), and among several of that
  hit time the first in the insertion order of the map; it records the state of the
  selected check point, appends its id to \<open>judgedObjects\<close>, moves the slider's index
  on, and goes on from the new state; it stops, leaving the state as it is, when no
  check point qualifies. So states are recorded and ids appended in the order of
  selection.
\<close>

theorem checkPoints_selection_order:
  assumes run: "handleSliderCheckPoints ev pt pp old s = Inr s'"
    and dist: "distinct (map fst (nextCheckPointIndex s))"
  shows "(noneCrossed (beatmap ev) (currentTime s) (nextCheckPointIndex s) \<and> s' = s) \<or>
     (\<exists>k idx slider s1.
        firstEarliest (beatmap ev) (currentTime s) (nextCheckPointIndex s) (k, idx) \<and>
        getSlider (beatmap ev) k = Some slider \<and> idx < length (sl_checkPoints slider) \<and>
        checkPointState s1 =
          AList.update (cp_id (sl_checkPoints slider ! idx))
            \<lparr>hit = determineTracking (wasTrackingOf s k) slider
                     (predictedPositionAt s pt pp
                        (of_int \<lceil>cp_hitTime (sl_checkPoints slider ! idx) - 1 / 10000000000\<rceil>))
                     (of_int \<lceil>cp_hitTime (sl_checkPoints slider ! idx) - 1 / 10000000000\<rceil>)
                     old (headHitTime s (hc_id (sl_head slider)))\<rparr>
            (checkPointState s) \<and>
        judgedObjects s1 = judgedObjects s @ [cp_id (sl_checkPoints slider ! idx)] \<and>
        nextCheckPointIndex s1 =
          (if idx + 1 < length (sl_checkPoints slider)
           then AList.update k (idx + 1) (nextCheckPointIndex s)
           else AList.delete k (nextCheckPointIndex s)) \<and>
        distinct (map fst (nextCheckPointIndex s1)) \<and>
        currentTime s1 = currentTime s \<and>
        handleSliderCheckPoints ev pt pp old s1 = Inr s')"
  using run
proof (cases rule: handleSliderCheckPoints_cases)
  case stop
  from earliestCheckPoint_selects [OF stop(1)] stop(2) show ?thesis by simp
next
  case (step k s1)
  from earliestCheckPoint_selects [OF step(1)] obtain e where
    e: "k = fst e" "firstEarliest (beatmap ev) (currentTime s) (nextCheckPointIndex s) e"
    by auto
  from step(2) obtain slider idx where r:
    "getSlider (beatmap ev) k = Some slider"
    "map_of (nextCheckPointIndex s) k = Some idx"
    "idx < length (sl_checkPoints slider)"
    "checkPointState s1 =
       AList.update (cp_id (sl_checkPoints slider ! idx))
         \<lparr>hit = determineTracking (wasTrackingOf s k) slider
                  (predictedPositionAt s pt pp
                     (of_int \<lceil>cp_hitTime (sl_checkPoints slider ! idx) - 1 / 10000000000\<rceil>))
                  (of_int \<lceil>cp_hitTime (sl_checkPoints slider ! idx) - 1 / 10000000000\<rceil>)
                  old (headHitTime s (hc_id (sl_head slider)))\<rparr>
         (checkPointState s)"
    "judgedObjects s1 = judgedObjects s @ [cp_id (sl_checkPoints slider ! idx)]"
    "nextCheckPointIndex s1 =
       (if idx + 1 < length (sl_checkPoints slider)
        then AList.update k (idx + 1) (nextCheckPointIndex s)
        else AList.delete k (nextCheckPointIndex s))"
    by (rule checkPointStep_result)
  from e(2) obtain before after where
    "nextCheckPointIndex s = before @ e # after" unfolding firstEarliest_def by blast
  with e(1) have "nextCheckPointIndex s = before @ (k, snd e) # after" by simp
  from map_of_distinct_entry [OF dist this] r(2) have "snd e = idx" by simp
  with e have fe: "firstEarliest (beatmap ev) (currentTime s) (nextCheckPointIndex s) (k, idx)"
    by (metis prod.collapse)
  have d1: "distinct (map fst (nextCheckPointIndex s1))"
    using dist r(6) by (simp add: AList.distinct_update AList.distinct_delete)
  have ct: "currentTime s1 = currentTime s"
    using checkPointStep_frame [OF step(2)] by (simp add: checkPointsFrame_def)
  from fe r(1,3,4,5,6) d1 ct step(3) show ?thesis by blast
qed

theorem checkPoints_selection_order_witness:
  "handleSliderCheckPoints tieEvaluator 900 \<lparr>pos_x = 0, pos_y = 0\<rparr>
     [NOT_PRESSING, NOT_PRESSING] tieMid = Inr tieJudged \<and>
   distinct (map fst (nextCheckPointIndex tieMid)) \<and>
   (\<exists>k idx slider s1.
      firstEarliest (beatmap tieEvaluator) (currentTime tieMid) (nextCheckPointIndex tieMid)
        (k, idx) \<and>
      getSlider (beatmap tieEvaluator) k = Some slider \<and>
      judgedObjects s1 = judgedObjects tieMid @ [cp_id (sl_checkPoints slider ! idx)] \<and>
      handleSliderCheckPoints tieEvaluator 900 \<lparr>pos_x = 0, pos_y = 0\<rparr>
        [NOT_PRESSING, NOT_PRESSING] s1 = Inr tieJudged)"
proof -
  have run: "handleSliderCheckPoints tieEvaluator 900 \<lparr>pos_x = 0, pos_y = 0\<rparr>
     [NOT_PRESSING, NOT_PRESSING] tieMid = Inr tieJudged"
    by code_simp
  have dist: "distinct (map fst (nextCheckPointIndex tieMid))" by code_simp
  have ne: "tieJudged \<noteq> tieMid" by code_simp
  from checkPoints_selection_order [OF run dist] ne run dist show ?thesis by blast
qed

section \<open>The check points of a finalized slider\<close>

definition appendsWithout :: "string \<Rightarrow> GameState \<Rightarrow> GameState \<Rightarrow> bool" where
  \<comment> \<open>\<open>judgedObjects\<close> has grown at its end, by ids other than the given one.\<close>
  "appendsWithout cid s s' \<longleftrightarrow>
     (\<exists>new. judgedObjects s' = judgedObjects s @ new \<and> cid \<notin> set new)"

definition checkPointIdUnique :: "Beatmap \<Rightarrow> string \<Rightarrow> string \<Rightarrow> bool" where
  \<comment> \<open>The id of a check point of the slider \<open>sid\<close> is the id of no hit circle, slider
      head, slider or spinner of the beatmap, and of no check point of another slider.\<close>
  "checkPointIdUnique bm sid cid \<longleftrightarrow>
     getHitCircle bm cid = None \<and> getSlider bm cid = None \<and> getSpinner bm cid = None \<and>
     (\<forall>k other. getSlider bm k = Some other \<and> k \<noteq> sid
        \<longrightarrow> cid \<notin> cp_id ` set (sl_checkPoints other))"

lemma appendsWithout_same: "judgedObjects s' = judgedObjects s \<Longrightarrow> appendsWithout cid s s'"
  by (simp add: appendsWithout_def)

lemma appendsWithout_trans:
  "appendsWithout cid s s1 \<Longrightarrow> appendsWithout cid s1 s2 \<Longrightarrow> appendsWithout cid s s2"
  unfolding appendsWithout_def by auto

lemma appendsWithout_one:
  "judgedObjects s' = judgedObjects s @ [i] \<Longrightarrow> i \<noteq> cid \<Longrightarrow> appendsWithout cid s s'"
  unfolding appendsWithout_def by auto

lemma getHitCircle_head:
  assumes "getSlider bm k = Some slider"
  shows "getHitCircle bm (hc_id (sl_head slider)) \<noteq> None"
proof -
  from assms have "slider \<in> set (concat (map slidersOf (hitObjects bm)))"
    unfolding getSlider_def find_Some_iff by (metis nth_mem)
  then obtain obj where obj: "obj \<in> set (hitObjects bm)" "slider \<in> set (slidersOf obj)"
    by auto
  from obj(2) have "obj = SliderObject slider" by (cases obj) auto
  with obj(1) have "sl_head slider \<in> set (concat (map hitCirclesOf (hitObjects bm)))"
    by force
  then show ?thesis unfolding getHitCircle_def find_None_iff by blast
qed

lemma handleHitCircle_appends:
  assumes "handleHitCircle ev tsc ntsc i s = Inr s'" and "getHitCircle (beatmap ev) cid = None"
  shows "appendsWithout cid s s'"
proof -
  from assms have "i \<noteq> cid" by (auto simp: handleHitCircle_def split: option.splits)
  with assms(1) show ?thesis
    unfolding handleHitCircle_def Let_def
    by (auto split: option.splits if_splits
        simp: appendsWithout_same finishHitCircle_def intro!: appendsWithout_one)
qed

lemma handleHitCircleLoop_appends:
  assumes "handleHitCircleLoop ev tsc ntsc ids s = Inr s'"
    and "getHitCircle (beatmap ev) cid = None"
  shows "appendsWithout cid s s'"
  using assms(1)
proof (induction ids arbitrary: s)
  case Nil
  then show ?case by (simp add: appendsWithout_same)
next
  case (Cons i ids)
  from Cons.prems obtain s1 where
    s1: "handleHitCircle ev tsc ntsc i s = Inr s1" and
    rest: "handleHitCircleLoop ev tsc ntsc ids s1 = Inr s'"
    by (auto split: sum.splits)
  from handleHitCircle_appends [OF s1 assms(2)] Cons.IH [OF rest]
  show ?case by (rule appendsWithout_trans)
qed

lemma finishSlider_appends:
  assumes "finishSlider ev k s = Inr s'"
    and "getHitCircle (beatmap ev) cid = None" and "getSlider (beatmap ev) cid = None"
  shows "appendsWithout cid s s'"
proof -
  from assms(1) obtain slider where sl: "getSlider (beatmap ev) k = Some slider"
    by (auto simp: finishSlider_def split: option.splits)
  from getHitCircle_head [OF sl] assms(2) have h: "hc_id (sl_head slider) \<noteq> cid" by auto
  from sl assms(3) getSlider_id [OF sl] have k: "sl_id slider \<noteq> cid" by auto
  from assms(1) sl h k show ?thesis
    unfolding finishSlider_def Let_def
    by (auto simp: appendsWithout_def finishHitCircle_def split: if_splits)
qed

lemma checkPointIsHit_cong:
  "checkPointState s' = checkPointState s \<Longrightarrow> checkPointIsHit s' = checkPointIsHit s"
  by (simp add: checkPointIsHit_def fun_eq_iff)

lemma finishSlider_judgement:
  assumes "finishSlider ev k s = Inr s'" and "getSlider (beatmap ev) k = Some slider"
  shows "nextCheckPointIndex s' = AList.delete k (nextCheckPointIndex s) \<and>
     (\<exists>headHit. map_of (sliderJudgement s') k =
        Some (sliderJudgementBasedOnCheckpoints (length (sl_checkPoints slider) + 1)
               ((if headHit then 1 else 0) +
                length (filter (checkPointIsHit s) (sl_checkPoints slider)))))"
proof -
  define s1 where "s1 = (if map_of (hitCircleState s) (hc_id (sl_head slider)) = None
                    then finishHitCircle (hc_id (sl_head slider))
                           \<lparr>judgementTime = sl_endTime slider, hcs_type = MISS,
                            missReason = Some SLIDER_FINISHED_FASTER\<rparr> s
                    else s)"
  have cps: "checkPointIsHit s1 = checkPointIsHit s"
    by (rule checkPointIsHit_cong) (simp add: s1_def finishHitCircle_def)
  have nci: "nextCheckPointIndex s1 = nextCheckPointIndex s"
    by (simp add: s1_def finishHitCircle_def)
  have "s' = s1\<lparr>sliderJudgement :=
               AList.update k
                 (sliderJudgementBasedOnCheckpoints (length (sl_checkPoints slider) + 1)
                    ((if headIsHit s1 (hc_id (sl_head slider)) then 1 else 0) +
                     length (filter (checkPointIsHit s1) (sl_checkPoints slider))))
                 (sliderJudgement s1),
             judgedObjects := judgedObjects s1 @ [k],
             aliveSliderIds := set_delete k (aliveSliderIds s1),
             nextCheckPointIndex := AList.delete k (nextCheckPointIndex s1),
             sliderBodyState := AList.delete k (sliderBodyState s1),
             aliveHitCircleIds := set_delete (hc_id (sl_head slider)) (aliveHitCircleIds s1)\<rparr>"
    using assms getSlider_id [OF assms(2)]
    unfolding finishSlider_def s1_def Let_def foldl_count
    by (simp split del: if_split)
  then show ?thesis
    unfolding cps nci by (auto simp: AList.update_conv')
qed

lemma finishSlider_other_judgement:
  assumes "finishSlider ev k s = Inr s'" and "k \<noteq> sid"
  shows "map_of (sliderJudgement s') sid = map_of (sliderJudgement s) sid \<and>
         fst ` set (nextCheckPointIndex s') \<subseteq> fst ` set (nextCheckPointIndex s)"
  using assms unfolding finishSlider_def Let_def
  by (auto split: option.splits if_splits
      simp: finishHitCircle_def AList.update_conv' AList.delete_eq)

lemma sliderJudgmentLoop_other:
  assumes "sliderJudgmentLoop ev ids s = Inr s'" and "sid \<notin> set ids"
  shows "map_of (sliderJudgement s') sid = map_of (sliderJudgement s) sid \<and>
         fst ` set (nextCheckPointIndex s') \<subseteq> fst ` set (nextCheckPointIndex s)"
  using assms
proof (induction ids arbitrary: s)
  case Nil
  then show ?case by simp
next
  case (Cons k ids)
  from Cons.prems(1) obtain slider where sl: "getSlider (beatmap ev) k = Some slider"
    by (auto split: option.splits)
  have k: "sl_id slider = k" using sl by (rule getSlider_id)
  from Cons.prems(2) have ne: "k \<noteq> sid" "sid \<notin> set ids" by auto
  show ?case
  proof (cases "sl_endTime slider \<le> currentTime s")
    case True
    with Cons.prems(1) sl k obtain s1 where
      s1: "finishSlider ev k s = Inr s1" and rest: "sliderJudgmentLoop ev ids s1 = Inr s'"
      by (auto split: sum.splits)
    from finishSlider_other_judgement [OF s1 ne(1)] Cons.IH [OF rest ne(2)]
    show ?thesis by (metis subset_trans)
  next
    case False
    with Cons.prems(1) sl have "sliderJudgmentLoop ev ids s = Inr s'" by simp
    from Cons.IH [OF this ne(2)] show ?thesis .
  qed
qed

lemma sliderJudgmentLoop_finalizes:
  assumes "sliderJudgmentLoop ev ids s = Inr s'"
    and "sid \<in> set ids" and "distinct ids"
    and "getSlider (beatmap ev) sid = Some slider"
    and "sl_endTime slider \<le> currentTime s"
  shows "sid \<notin> fst ` set (nextCheckPointIndex s') \<and>
     (\<exists>headHit. map_of (sliderJudgement s') sid =
        Some (sliderJudgementBasedOnCheckpoints (length (sl_checkPoints slider) + 1)
               ((if headHit then 1 else 0) +
                length (filter (checkPointIsHit s) (sl_checkPoints slider)))))"
  using assms(1,2,3,5)
proof (induction ids arbitrary: s)
  case Nil
  then show ?case by simp
next
  case (Cons k ids)
  show ?case
  proof (cases "k = sid")
    case True
    with Cons.prems assms(4) getSlider_id [OF assms(4)] obtain s1 where
      s1: "finishSlider ev sid s = Inr s1" and rest: "sliderJudgmentLoop ev ids s1 = Inr s'"
      by (auto split: sum.splits)
    from Cons.prems True have "sid \<notin> set ids" by simp
    from sliderJudgmentLoop_other [OF rest this] finishSlider_judgement [OF s1 assms(4)]
    show ?thesis by (auto simp: AList.delete_eq)
  next
    case False
    from Cons.prems(1) obtain other where sl: "getSlider (beatmap ev) k = Some other"
      by (auto split: option.splits)
    have k: "sl_id other = k" using sl by (rule getSlider_id)
    from Cons.prems False have mem: "sid \<in> set ids" "distinct ids" by auto
    show ?thesis
    proof (cases "sl_endTime other \<le> currentTime s")
      case True
      with Cons.prems(1) sl k obtain s1 where
        s1: "finishSlider ev k s = Inr s1" and rest: "sliderJudgmentLoop ev ids s1 = Inr s'"
        by (auto split: sum.splits)
      from finishSlider_frame [OF s1] have
        f: "currentTime s1 = currentTime s" "checkPointState s1 = checkPointState s"
        by (simp_all add: slidersFrame_def)
      from Cons.IH [OF rest mem] Cons.prems(4) f checkPointIsHit_cong [OF f(2)]
      show ?thesis by simp
    next
      case False
      with Cons.prems(1) sl have "sliderJudgmentLoop ev ids s = Inr s'" by simp
      from Cons.IH [OF this mem Cons.prems(4)] show ?thesis .
    qed
  qed
qed

lemma sliderJudgmentLoop_appends:
  assumes "sliderJudgmentLoop ev ids s = Inr s'"
    and "getHitCircle (beatmap ev) cid = None" and "getSlider (beatmap ev) cid = None"
  shows "appendsWithout cid s s'"
  using assms(1)
proof (induction ids arbitrary: s)
  case Nil
  then show ?case by (simp add: appendsWithout_same)
next
  case (Cons k ids)
  from Cons.prems obtain slider where sl: "getSlider (beatmap ev) k = Some slider"
    by (auto split: option.splits)
  show ?case
  proof (cases "sl_endTime slider \<le> currentTime s")
    case True
    with Cons.prems sl obtain s1 where
      s1: "finishSlider ev (sl_id slider) s = Inr s1" and
      rest: "sliderJudgmentLoop ev ids s1 = Inr s'"
      by (auto split: sum.splits)
    from finishSlider_appends [OF s1 assms(2,3)] Cons.IH [OF rest]
    show ?thesis by (rule appendsWithout_trans)
  next
    case False
    with Cons.prems sl have "sliderJudgmentLoop ev ids s = Inr s'" by simp
    then show ?thesis by (rule Cons.IH)
  qed
qed

lemma checkPointStep_untouched:
  assumes step: "checkPointStep ev pt pp old k s = Inr s1"
    and keys: "sid \<notin> fst ` set (nextCheckPointIndex s)"
    and others: "\<forall>k other. getSlider (beatmap ev) k = Some other \<and> k \<noteq> sid
        \<longrightarrow> cid \<notin> cp_id ` set (sl_checkPoints other)"
  shows "map_of (checkPointState s1) cid = map_of (checkPointState s) cid \<and>
         appendsWithout cid s s1 \<and> sid \<notin> fst ` set (nextCheckPointIndex s1)"
proof -
  from step obtain slider idx where r:
    "getSlider (beatmap ev) k = Some slider"
    "map_of (nextCheckPointIndex s) k = Some idx"
    "idx < length (sl_checkPoints slider)"
    "checkPointState s1 =
       AList.update (cp_id (sl_checkPoints slider ! idx))
         \<lparr>hit = determineTracking (wasTrackingOf s k) slider
                  (predictedPositionAt s pt pp
                     (of_int \<lceil>cp_hitTime (sl_checkPoints slider ! idx) - 1 / 10000000000\<rceil>))
                  (of_int \<lceil>cp_hitTime (sl_checkPoints slider ! idx) - 1 / 10000000000\<rceil>)
                  old (headHitTime s (hc_id (sl_head slider)))\<rparr>
         (checkPointState s)"
    "judgedObjects s1 = judgedObjects s @ [cp_id (sl_checkPoints slider ! idx)]"
    "nextCheckPointIndex s1 =
       (if idx + 1 < length (sl_checkPoints slider)
        then AList.update k (idx + 1) (nextCheckPointIndex s)
        else AList.delete k (nextCheckPointIndex s))"
    by (rule checkPointStep_result)
  from r(2) have "k \<in> fst ` set (nextCheckPointIndex s)"
    by (meson domI dom_map_of_conv_image_fst [THEN equalityD1, THEN subsetD])
  with keys have ne: "k \<noteq> sid" by auto
  with others r(1,3) have "cp_id (sl_checkPoints slider ! idx) \<noteq> cid"
    by (metis image_eqI nth_mem)
  moreover have "sid \<notin> fst ` set (nextCheckPointIndex s1)"
    using keys ne unfolding r(6) by (auto simp: AList.dom_update AList.delete_eq)
  ultimately show ?thesis
    using r(4,5) by (auto simp: AList.update_conv' intro: appendsWithout_one)
qed

lemma handleSliderCheckPoints_untouched:
  assumes run: "handleSliderCheckPoints ev pt pp old s = Inr s'"
    and others: "\<forall>k other. getSlider (beatmap ev) k = Some other \<and> k \<noteq> sid
        \<longrightarrow> cid \<notin> cp_id ` set (sl_checkPoints other)"
  shows "sid \<notin> fst ` set (nextCheckPointIndex s) \<longrightarrow>
         map_of (checkPointState s') cid = map_of (checkPointState s) cid \<and>
         appendsWithout cid s s' \<and> sid \<notin> fst ` set (nextCheckPointIndex s')"
  using run
proof (induction rule: handleSliderCheckPoints_induct)
  case (stop s)
  then show ?case by (simp add: appendsWithout_same)
next
  case (step s k s1 s')
  show ?case
  proof
    assume "sid \<notin> fst ` set (nextCheckPointIndex s)"
    from checkPointStep_untouched [OF step(2) this others] step(4)
    show "map_of (checkPointState s') cid = map_of (checkPointState s) cid \<and>
         appendsWithout cid s s' \<and> sid \<notin> fst ` set (nextCheckPointIndex s')"
      by (auto intro: appendsWithout_trans)
  qed
qed

lemma spinnerLoop_appends:
  assumes "spinnerLoop ev ids s = Inr s'" and "getSpinner (beatmap ev) cid = None"
  shows "appendsWithout cid s s'"
  using assms(1)
proof (induction ids arbitrary: s)
  case Nil
  then show ?case by (simp add: appendsWithout_same)
next
  case (Cons i ids)
  from Cons.prems obtain spinner where sp: "getSpinner (beatmap ev) i = Some spinner"
    by (auto split: option.splits)
  with assms(2) have ne: "i \<noteq> cid" by auto
  show ?case
  proof (cases "sp_endTime spinner < currentTime s")
    case True
    let ?s1 = "s\<lparr>aliveSpinnerIds := set_delete (sp_id spinner) (aliveSpinnerIds s),
                 judgedObjects := judgedObjects s @ [i]\<rparr>"
    from True Cons.prems sp have "spinnerLoop ev ids ?s1 = Inr s'" by simp
    from Cons.IH [OF this] have "appendsWithout cid ?s1 s'" .
    moreover have "appendsWithout cid s ?s1"
      using ne by (intro appendsWithout_one [of _ _ i]) simp_all
    ultimately show ?thesis by (rule appendsWithout_trans [rotated])
  next
    case False
    with Cons.prems sp have "spinnerLoop ev ids s = Inr s'" by simp
    then show ?thesis by (rule Cons.IH)
  qed
qed

lemma spawnOne_aliveSliders:
  "distinct (aliveSliderIds s) \<Longrightarrow> distinct (aliveSliderIds (spawnOne h s))"
  by (cases h) (auto simp: spawnOne_def)

lemma spawnLoop_aliveSliders:
  "distinct (aliveSliderIds s) \<Longrightarrow> distinct (aliveSliderIds (spawnLoop hs s))"
proof (induction hs arbitrary: s)
  case Nil
  then show ?case by simp
next
  case (Cons h hs)
  let ?s1 = "(spawnOne h s)\<lparr>latestHitObjectIndex := latestHitObjectIndex s + 1\<rparr>"
  from spawnOne_aliveSliders [OF Cons.prems, of h] have "distinct (aliveSliderIds ?s1)" by simp
  from Cons.IH [OF this] Cons.prems show ?case by simp
qed

lemma evaluateNextFrameMutated_unrecorded:
  assumes alive: "sid \<in> set (aliveSliderIds (checkNewAliveHitObjects ev (bindFrame s frame)))"
    and dist: "distinct (aliveSliderIds s)"
    and sl: "getSlider (beatmap ev) sid = Some slider"
    and ended: "sl_endTime slider \<le> fr_time frame"
    and uniq: "checkPointIdUnique (beatmap ev) sid cid"
    and run: "evaluateNextFrameMutated ev s frame = Inr s'"
  shows "map_of (checkPointState s') cid = map_of (checkPointState s) cid \<and>
     appendsWithout cid s s' \<and>
     (\<exists>headHit. map_of (sliderJudgement s') sid =
        Some (sliderJudgementBasedOnCheckpoints (length (sl_checkPoints slider) + 1)
               ((if headHit then 1 else 0) +
                length (filter (checkPointIsHit s) (sl_checkPoints slider))))) \<and>
     sid \<notin> fst ` set (nextCheckPointIndex s')"
  using run
proof (cases rule: evaluateNextFrameMutated_cases)
  case (1 tsc ntsc s2 s3 s4 s5)
  let ?s1 = "checkNewAliveHitObjects ev (bindFrame s frame)"
  from uniq have u:
    "getHitCircle (beatmap ev) cid = None" "getSlider (beatmap ev) cid = None"
    "getSpinner (beatmap ev) cid = None"
    "\<forall>k other. getSlider (beatmap ev) k = Some other \<and> k \<noteq> sid
        \<longrightarrow> cid \<notin> cp_id ` set (sl_checkPoints other)"
    unfolding checkPointIdUnique_def by auto
  have f1: "currentTime ?s1 = fr_time frame" "checkPointState ?s1 = checkPointState s"
    "judgedObjects ?s1 = judgedObjects s"
    using checkNewAliveHitObjects_frame [of "bindFrame s frame" ev]
    by (simp_all add: spawnFrame_def bindFrame_def)
  have d1: "distinct (aliveSliderIds ?s1)"
    using dist unfolding checkNewAliveHitObjects_def
    by (intro spawnLoop_aliveSliders) (simp add: bindFrame_def)
  from 1(3) obtain ks :: "(string \<times> real) list" where
    "handleHitCircleLoop ev tsc ntsc (map fst (sort_key snd ks)) ?s1 = Inr s2"
    by (auto simp: handleHitCircles_def split: sum.splits)
  from handleHitCircleLoop_appends [OF this u(1)] have a2: "appendsWithout cid ?s1 s2" .
  have f2: "currentTime s2 = currentTime ?s1" "checkPointState s2 = checkPointState ?s1"
    "aliveSliderIds s2 = aliveSliderIds ?s1"
    using handleHitCircles_frame [OF 1(3)] by (simp_all add: circlesFrame_def)
  from 1(4) have loop: "sliderJudgmentLoop ev (aliveSliderIds s2) s2 = Inr s3"
    by (simp add: handleSliderJudgment_def)
  from sliderJudgmentLoop_finalizes [OF loop _ _ sl] alive d1 ended f1(1) f2 have
    fin: "sid \<notin> fst ` set (nextCheckPointIndex s3)"
      "\<exists>headHit. map_of (sliderJudgement s3) sid =
        Some (sliderJudgementBasedOnCheckpoints (length (sl_checkPoints slider) + 1)
               ((if headHit then 1 else 0) +
                length (filter (checkPointIsHit s2) (sl_checkPoints slider))))"
    by auto
  have hit2: "checkPointIsHit s2 = checkPointIsHit s"
    by (rule checkPointIsHit_cong) (simp add: f2 f1)
  from sliderJudgmentLoop_appends [OF loop u(1,2)] have a3: "appendsWithout cid s2 s3" .
  have f3: "checkPointState s3 = checkPointState s2"
    using handleSliderJudgment_frame [OF 1(4)] by (simp add: slidersFrame_def)
  from handleSliderCheckPoints_untouched [OF 1(5) u(4)] fin(1) have
    c4: "map_of (checkPointState s4) cid = map_of (checkPointState s3) cid" and
    a4: "appendsWithout cid s3 s4" and
    k4: "sid \<notin> fst ` set (nextCheckPointIndex s4)" by auto
  have f4: "sliderJudgement s4 = sliderJudgement s3"
    using handleSliderCheckPoints_frame [OF 1(5)] by (simp add: checkPointsFrame_def)
  have f5: "sliderJudgement s5 = sliderJudgement s4" "checkPointState s5 = checkPointState s4"
    "judgedObjects s5 = judgedObjects s4" "nextCheckPointIndex s5 = nextCheckPointIndex s4"
    using updateSliderBodyTracking_frame [OF 1(6)] by (simp_all add: trackingFrame_def)
  have f6: "sliderJudgement s' = sliderJudgement s5" "checkPointState s' = checkPointState s5"
    "nextCheckPointIndex s' = nextCheckPointIndex s5"
    using handleSpinners_frame [OF 1(7)] by (simp_all add: spinnersFrame_def)
  from 1(7) have "spinnerLoop ev (aliveSpinnerIds s5) s5 = Inr s'"
    by (simp add: handleSpinners_def)
  from spinnerLoop_appends [OF this u(3)] have a6: "appendsWithout cid s5 s'" .
  have a1: "appendsWithout cid s ?s1" using f1(3) by (rule appendsWithout_same)
  have a5: "appendsWithout cid s4 s5" using f5(3) by (rule appendsWithout_same)
  have app: "appendsWithout cid s s'"
    using a1 a2 a3 a4 a5 a6 by (blast intro: appendsWithout_trans)
  have cp: "map_of (checkPointState s') cid = map_of (checkPointState s) cid"
    by (simp add: f6 f5 c4 f3 f2 f1)
  from fin(2) have "\<exists>headHit. map_of (sliderJudgement s') sid =
        Some (sliderJudgementBasedOnCheckpoints (length (sl_checkPoints slider) + 1)
               ((if headHit then 1 else 0) +
                length (filter (checkPointIsHit s) (sl_checkPoints slider))))"
    by (simp add: f6 f5 f4 hit2)
  moreover have "sid \<notin> fst ` set (nextCheckPointIndex s')" using k4 by (simp add: f6 f5)
  ultimately show ?thesis using cp app by blast
qed

lemma finishSlider_keys:
  "finishSlider ev k s = Inr s' \<Longrightarrow>
   fst ` set (nextCheckPointIndex s') \<subseteq> fst ` set (nextCheckPointIndex s)"
  unfolding finishSlider_def Let_def
  by (auto split: option.splits if_splits simp: finishHitCircle_def AList.delete_eq)

lemma sliderJudgmentLoop_keys:
  "sliderJudgmentLoop ev ids s = Inr s' \<Longrightarrow>
   fst ` set (nextCheckPointIndex s') \<subseteq> fst ` set (nextCheckPointIndex s)"
proof (induction ids arbitrary: s)
  case Nil
  then show ?case by simp
next
  case (Cons k ids)
  from Cons.prems obtain slider where sl: "getSlider (beatmap ev) k = Some slider"
    by (auto split: option.splits)
  show ?case
  proof (cases "sl_endTime slider \<le> currentTime s")
    case True
    with Cons.prems sl obtain s1 where
      s1: "finishSlider ev (sl_id slider) s = Inr s1" and
      rest: "sliderJudgmentLoop ev ids s1 = Inr s'"
      by (auto split: sum.splits)
    from finishSlider_keys [OF s1] Cons.IH [OF rest] show ?thesis by (rule subset_trans [rotated])
  next
    case False
    with Cons.prems sl have "sliderJudgmentLoop ev ids s = Inr s'" by simp
    then show ?thesis by (rule Cons.IH)
  qed
qed

lemma spawnLoop_keys:
  assumes "sid \<notin> fst ` set (nextCheckPointIndex s)"
    and "\<forall>sl. SliderObject sl \<in> set hs \<longrightarrow> sl_id sl \<noteq> sid"
  shows "sid \<notin> fst ` set (nextCheckPointIndex (spawnLoop hs s))"
  using assms
proof (induction hs arbitrary: s)
  case Nil
  then show ?case by simp
next
  case (Cons h hs)
  let ?s1 = "(spawnOne h s)\<lparr>latestHitObjectIndex := latestHitObjectIndex s + 1\<rparr>"
  have "sid \<notin> fst ` set (nextCheckPointIndex ?s1)"
    using Cons.prems by (cases h) (auto simp: spawnOne_def AList.dom_update)
  from Cons.IH [OF this] Cons.prems show ?case by simp
qed

lemma spawnLoop_index:
  "latestHitObjectIndex s \<le> latestHitObjectIndex (spawnLoop hs s)"
proof (induction hs arbitrary: s)
  case Nil
  then show ?case by simp
next
  case (Cons h hs)
  let ?s1 = "(spawnOne h s)\<lparr>latestHitObjectIndex := latestHitObjectIndex s + 1\<rparr>"
  from Cons.IH [of ?s1] show ?case by simp
qed

definition notRespawned :: "Beatmap \<Rightarrow> string \<Rightarrow> GameState \<Rightarrow> bool" where
  \<comment> \<open>The slider has no check point index and is not among the hit objects that are
      still to be spawned.\<close>
  "notRespawned bm sid s \<longleftrightarrow>
     sid \<notin> fst ` set (nextCheckPointIndex s) \<and>
     (\<forall>sl. SliderObject sl \<in> set (drop (latestHitObjectIndex s) (hitObjects bm))
        \<longrightarrow> sl_id sl \<noteq> sid)"

lemma evaluateNextFrameMutated_later:
  assumes inv: "notRespawned (beatmap ev) sid s"
    and uniq: "checkPointIdUnique (beatmap ev) sid cid"
    and run: "evaluateNextFrameMutated ev s frame = Inr s'"
  shows "map_of (checkPointState s') cid = map_of (checkPointState s) cid \<and>
     appendsWithout cid s s' \<and> notRespawned (beatmap ev) sid s'"
  using run
proof (cases rule: evaluateNextFrameMutated_cases)
  case (1 tsc ntsc s2 s3 s4 s5)
  let ?s0 = "bindFrame s frame"
  let ?s1 = "checkNewAliveHitObjects ev ?s0"
  from uniq have u:
    "getHitCircle (beatmap ev) cid = None" "getSlider (beatmap ev) cid = None"
    "getSpinner (beatmap ev) cid = None"
    "\<forall>k other. getSlider (beatmap ev) k = Some other \<and> k \<noteq> sid
        \<longrightarrow> cid \<notin> cp_id ` set (sl_checkPoints other)"
    unfolding checkPointIdUnique_def by auto
  have b0: "nextCheckPointIndex ?s0 = nextCheckPointIndex s"
    "latestHitObjectIndex ?s0 = latestHitObjectIndex s"
    by (simp_all add: bindFrame_def)
  have f1: "checkPointState ?s1 = checkPointState s" "judgedObjects ?s1 = judgedObjects s"
    using checkNewAliveHitObjects_frame [of ?s0 ev]
    by (simp_all add: spawnFrame_def bindFrame_def)
  have k1: "sid \<notin> fst ` set (nextCheckPointIndex ?s1)"
    unfolding checkNewAliveHitObjects_def
    using inv by (intro spawnLoop_keys) (simp_all add: notRespawned_def b0)
  have i1: "latestHitObjectIndex s \<le> latestHitObjectIndex ?s1"
    unfolding checkNewAliveHitObjects_def using spawnLoop_index [of ?s0] by (simp add: b0)
  from 1(3) obtain ks :: "(string \<times> real) list" where
    "handleHitCircleLoop ev tsc ntsc (map fst (sort_key snd ks)) ?s1 = Inr s2"
    by (auto simp: handleHitCircles_def split: sum.splits)
  from handleHitCircleLoop_appends [OF this u(1)] have a2: "appendsWithout cid ?s1 s2" .
  have f2: "checkPointState s2 = checkPointState ?s1"
    "nextCheckPointIndex s2 = nextCheckPointIndex ?s1"
    "latestHitObjectIndex s2 = latestHitObjectIndex ?s1"
    using handleHitCircles_frame [OF 1(3)] by (simp_all add: circlesFrame_def)
  from 1(4) have loop: "sliderJudgmentLoop ev (aliveSliderIds s2) s2 = Inr s3"
    by (simp add: handleSliderJudgment_def)
  from sliderJudgmentLoop_keys [OF loop] k1 f2(2) have
    k3: "sid \<notin> fst ` set (nextCheckPointIndex s3)" by auto
  from sliderJudgmentLoop_appends [OF loop u(1,2)] have a3: "appendsWithout cid s2 s3" .
  have f3: "checkPointState s3 = checkPointState s2"
    "latestHitObjectIndex s3 = latestHitObjectIndex s2"
    using handleSliderJudgment_frame [OF 1(4)] by (simp_all add: slidersFrame_def)
  from handleSliderCheckPoints_untouched [OF 1(5) u(4)] k3 have
    c4: "map_of (checkPointState s4) cid = map_of (checkPointState s3) cid" and
    a4: "appendsWithout cid s3 s4" and
    k4: "sid \<notin> fst ` set (nextCheckPointIndex s4)" by auto
  have f4: "latestHitObjectIndex s4 = latestHitObjectIndex s3"
    using handleSliderCheckPoints_frame [OF 1(5)] by (simp add: checkPointsFrame_def)
  have f5: "checkPointState s5 = checkPointState s4"
    "judgedObjects s5 = judgedObjects s4" "nextCheckPointIndex s5 = nextCheckPointIndex s4"
    "latestHitObjectIndex s5 = latestHitObjectIndex s4"
    using updateSliderBodyTracking_frame [OF 1(6)] by (simp_all add: trackingFrame_def)
  have f6: "checkPointState s' = checkPointState s5"
    "nextCheckPointIndex s' = nextCheckPointIndex s5"
    "latestHitObjectIndex s' = latestHitObjectIndex s5"
    using handleSpinners_frame [OF 1(7)] by (simp_all add: spinnersFrame_def)
  from 1(7) have "spinnerLoop ev (aliveSpinnerIds s5) s5 = Inr s'"
    by (simp add: handleSpinners_def)
  from spinnerLoop_appends [OF this u(3)] have a6: "appendsWithout cid s5 s'" .
  have a1: "appendsWithout cid s ?s1" using f1(2) by (rule appendsWithout_same)
  have a5: "appendsWithout cid s4 s5" using f5(2) by (rule appendsWithout_same)
  have app: "appendsWithout cid s s'"
    using a1 a2 a3 a4 a5 a6 by (blast intro: appendsWithout_trans)
  have cp: "map_of (checkPointState s') cid = map_of (checkPointState s) cid"
    by (simp add: f6 f5 c4 f3 f2 f1)
  have idx: "latestHitObjectIndex s \<le> latestHitObjectIndex s'"
    using i1 by (simp add: f6 f5 f4 f3 f2)
  have "set (drop (latestHitObjectIndex s') (hitObjects (beatmap ev)))
          \<subseteq> set (drop (latestHitObjectIndex s) (hitObjects (beatmap ev)))"
    using idx by (rule set_drop_subset_set_drop)
  with inv k4 have "notRespawned (beatmap ev) sid s'"
    unfolding notRespawned_def by (auto simp: f6 f5)
  with cp app show ?thesis by blast
qed

lemma evaluateFrames_later:
  assumes "notRespawned (beatmap ev) sid s"
    and "checkPointIdUnique (beatmap ev) sid cid"
    and "evaluateFrames ev s frames = Inr s'"
  shows "map_of (checkPointState s') cid = map_of (checkPointState s) cid \<and>
     appendsWithout cid s s'"
  using assms(1,3)
proof (induction frames arbitrary: s)
  case Nil
  then show ?case by (simp add: appendsWithout_same)
next
  case (Cons frame frames)
  from Cons.prems(2) obtain s1 where
    s1: "evaluateNextFrameMutated ev s frame = Inr s1" and
    rest: "evaluateFrames ev s1 frames = Inr s'"
    by (auto split: sum.splits)
  from evaluateNextFrameMutated_later [OF Cons.prems(1) assms(2) s1]
    Cons.IH [OF _ rest]
  show ?case by (auto intro: appendsWithout_trans)
qed

definition sliderSpawned :: GameState where
  \<comment> \<open>The state after a frame at time 900 on the beatmap of the one slider: the slider
      and its head are alive, no check point is recorded.\<close>
  "sliderSpawned =
     defaultReplayState
       \<lparr>currentTime := 900, sliderBodyState := [(''s'', \<lparr>isTracking = False\<rparr>)],
        latestHitObjectIndex := 1, aliveHitCircleIds := [''s/h''],
        aliveSliderIds := [''s''], nextCheckPointIndex := [(''s'', 0)]\<rparr>"

definition sliderEndFrame :: ReplayFrame where
  \<comment> \<open>The next frame comes after the slider's end, and so after its two check points.\<close>
  "sliderEndFrame =
     \<lparr>fr_time = 2100, fr_position = \<lparr>pos_x = 0, pos_y = 0\<rparr>, fr_actions = []\<rparr>"

definition sliderDropped :: GameState where
  "sliderDropped =
     defaultReplayState
       \<lparr>currentTime := 2100,
        hitCircleState :=
          [(''s/h'', \<lparr>judgementTime = 1101, hcs_type = MISS, missReason = Some TIME_EXPIRED\<rparr>)],
        sliderJudgement := [(''s'', MISS)],
        judgedObjects := [''s/h'', ''s''], latestHitObjectIndex := 1\<rparr>"

definition sliderLaterFrames :: "ReplayFrame list" where
  "sliderLaterFrames =
     [\<lparr>fr_time = 2200, fr_position = \<lparr>pos_x = 0, pos_y = 0\<rparr>, fr_actions = [leftButton]\<rparr>,
      \<lparr>fr_time = 2300, fr_position = \<lparr>pos_x = 0, pos_y = 0\<rparr>, fr_actions = []\<rparr>]"

text \<open>
  Claim C10. Take a call of \<open>evaluateNextFrameMutated\<close> in which a slider of the
  beatmap is alive (alive before the call or spawned by it) and its end time is at most
  the frame's time, and a check point of that slider without an entry in
  \<open>checkPointState\<close> before the call, whatever its hit time. Ids are unique: the check
  point's id is the id of no hit circle, slider head, slider or spinner and of no check
  point of another slider. When the call returns, the slider's verdict counts the check
  point as not hit (it is computed from the check points recorded as hit before the
  call, and from the head), and the slider has no entry in \<open>nextCheckPointIndex\<close>
  any more; and after this call and after any later calls (the slider is not among the
  hit objects still to be spawned) the check point has no entry in
  \<open>checkPointState\<close> and its id has not been appended to \<open>judgedObjects\<close>.
\<close>

theorem finalized_slider_drops_checkpoints:
  assumes "sid \<in> set (aliveSliderIds (checkNewAliveHitObjects ev (bindFrame s frame)))"
    and "distinct (aliveSliderIds s)"
    and "getSlider (beatmap ev) sid = Some slider"
    and "sl_endTime slider \<le> fr_time frame"
    and "c \<in> set (sl_checkPoints slider)"
    and "map_of (checkPointState s) (cp_id c) = None"
    and "checkPointIdUnique (beatmap ev) sid (cp_id c)"
    and "evaluateNextFrameMutated ev s frame = Inr s1"
    and "\<forall>sl. SliderObject sl \<in> set (drop (latestHitObjectIndex s1) (hitObjects (beatmap ev)))
           \<longrightarrow> sl_id sl \<noteq> sid"
    and "evaluateFrames ev s1 later = Inr s'"
  shows "\<not> checkPointIsHit s c \<and>
     (\<exists>headHit. map_of (sliderJudgement s1) sid =
        Some (sliderJudgementBasedOnCheckpoints (length (sl_checkPoints slider) + 1)
               ((if headHit then 1 else 0) +
                length (filter (checkPointIsHit s) (sl_checkPoints slider))))) \<and>
     sid \<notin> fst ` set (nextCheckPointIndex s1) \<and>
     map_of (checkPointState s') (cp_id c) = None \<and>
     (\<exists>new. judgedObjects s' = judgedObjects s @ new \<and> cp_id c \<notin> set new)"
proof -
  note call = evaluateNextFrameMutated_unrecorded [OF assms(1,2,3,4,7,8)]
  then have "notRespawned (beatmap ev) sid s1"
    using assms(9) by (simp add: notRespawned_def)
  from evaluateFrames_later [OF this assms(7,10)] call
  have "map_of (checkPointState s') (cp_id c) = map_of (checkPointState s) (cp_id c)"
    "appendsWithout (cp_id c) s s'"
    by (auto intro: appendsWithout_trans)
  with call assms(6) show ?thesis
    by (simp add: checkPointIsHit_def appendsWithout_def)
qed

theorem finalized_slider_drops_checkpoints_witness:
  "evaluateNextFrameMutated demoEvaluator sliderSpawned sliderEndFrame = Inr sliderDropped \<and>
   evaluateFrames demoEvaluator sliderDropped sliderLaterFrames =
     Inr (sliderDropped\<lparr>currentTime := 2300\<rparr>) \<and>
   cp_hitTime \<lparr>cp_id = ''s/0'', cp_hitTime = 1500\<rparr> < fr_time sliderEndFrame \<and>
   map_of (sliderJudgement sliderDropped) ''s'' = Some MISS \<and>
   ''s'' \<notin> fst ` set (nextCheckPointIndex sliderDropped) \<and>
   map_of (checkPointState (sliderDropped\<lparr>currentTime := 2300\<rparr>)) ''s/0'' = None \<and>
   ''s/0'' \<notin> set (judgedObjects (sliderDropped\<lparr>currentTime := 2300\<rparr>))"
proof -
  let ?c = "\<lparr>cp_id = ''s/0'', cp_hitTime = 1500\<rparr>"
  define final where "final = sliderDropped\<lparr>currentTime := 2300\<rparr>"
  have a1: "''s'' \<in> set (aliveSliderIds
      (checkNewAliveHitObjects demoEvaluator (bindFrame sliderSpawned sliderEndFrame)))"
    by code_simp
  have a2: "distinct (aliveSliderIds sliderSpawned)" by code_simp
  have a3: "getSlider (beatmap demoEvaluator) ''s'' = Some demoSlider"
    by (simp add: getSlider_def demoEvaluator_def demoSlider_def)
  have a4: "sl_endTime demoSlider \<le> fr_time sliderEndFrame" by code_simp
  have a5: "?c \<in> set (sl_checkPoints demoSlider)" by (simp add: demoSlider_def)
  have a6: "map_of (checkPointState sliderSpawned) (cp_id ?c) = None" by code_simp
  have a7: "checkPointIdUnique (beatmap demoEvaluator) ''s'' (cp_id ?c)"
    unfolding checkPointIdUnique_def
    by (auto simp: getHitCircle_def getSlider_def getSpinner_def demoEvaluator_def
        demoSlider_def split: if_splits)
  have a8: "evaluateNextFrameMutated demoEvaluator sliderSpawned sliderEndFrame =
      Inr sliderDropped" by code_simp
  have a9: "\<forall>sl. SliderObject sl \<in> set (drop (latestHitObjectIndex sliderDropped)
              (hitObjects (beatmap demoEvaluator))) \<longrightarrow> sl_id sl \<noteq> ''s''"
    by (simp add: sliderDropped_def defaultReplayState_def demoEvaluator_def)
  have a10: "evaluateFrames demoEvaluator sliderDropped sliderLaterFrames = Inr final"
    unfolding final_def by code_simp
  have b: "judgedObjects sliderSpawned = []" by code_simp
  have t: "cp_hitTime ?c < fr_time sliderEndFrame" by code_simp
  have v: "map_of (sliderJudgement sliderDropped) ''s'' = Some MISS" by code_simp
  from finalized_slider_drops_checkpoints [OF a1 a2 a3 a4 a5 a6 a7 a8 a9 a10] b
  have "''s'' \<notin> fst ` set (nextCheckPointIndex sliderDropped) \<and>
     map_of (checkPointState final) ''s/0'' = None \<and>
     ''s/0'' \<notin> set (judgedObjects final)"
    by auto
  with a8 a10 t v show ?thesis unfolding final_def by blast
qed

section \<open>Sliders finalized by a frame\<close>






























section \<open>Cloning a game state\<close>

text \<open>
  \<open>cloneGameState\<close> is about object identity, so here the evaluator runs on a heap. A
  heap is a list of objects, a reference is an index into it, and a new object goes to
  the end. The \<open>GameState\<close> object holds its numbers and flags and a reference for
  each of its other fields: the cursor position, the six maps, the three sets and the two
  arrays. The maps from ids to state objects hold references to their entries, so a map
  and its copy share the entry objects, as \<open>new Map(old)\<close> does.

  Every statement of the evaluator that writes is one of the statements below:
  an assignment to a field of the state object (\<open>assignField\<close>), a call of
  \<open>set\<close>, \<open>delete\<close>, \<open>add\<close> or \<open>push\<close> on a container that a field of
  the state object refers to (\<open>updateContainer\<close>), or the creation of an object
  (\<open>allocate\<close>). What a statement reads, it reads from the heap at the moment it
  runs (\<open>withState\<close>). A run ends in \<open>Done\<close>, in \<open>Threw e\<close> with the heap as
  it is at the throw, or in \<open>Stuck\<close> when a reference is not of the type that the
  TypeScript types promise.
\<close>

type_synonym ref = nat

record GameStateObject =
  o_currentTime :: real
  o_cursorPosition :: ref
  o_hitCircleState :: ref
  o_sliderBodyState :: ref
  o_checkPointState :: ref
  o_sliderJudgement :: ref
  o_spinnerState :: ref
  o_currentCombo :: int
  o_maxCombo :: int
  o_clickWasUseful :: bool
  o_judgedObjects :: ref
  o_latestHitObjectIndex :: nat
  o_aliveHitCircleIds :: ref
  o_aliveSliderIds :: ref
  o_aliveSpinnerIds :: ref
  o_nextCheckPointIndex :: ref
  o_pressingSince :: ref

datatype heapObject =
    GameStateObj GameStateObject
  | PositionObj Position
  | HitCircleStateObj HitCircleState
  | SliderBodyStateObj SliderBodyState
  | CheckPointStateObj CheckPointState
  | SpinnerStateObj SpinnerState
  | HitCircleMapObj "(string \<times> ref) list"
  | SliderBodyMapObj "(string \<times> ref) list"
  | CheckPointMapObj "(string \<times> ref) list"
  | JudgementMapObj "(string \<times> MainHitObjectVerdict) list"
  | SpinnerMapObj "(string \<times> ref) list"
  | IndexMapObj "(string \<times> nat) list"
  | StringSetObj "string list"
  | StringArrayObj "string list"
  | NumberArrayObj "real list"

type_synonym heap = "heapObject list"

record HeapFrame =
  hf_time :: real
  hf_position :: ref
  hf_actions :: "OsuAction list"

definition deref :: "heap \<Rightarrow> ref \<Rightarrow> heapObject option" where
  "deref h a = (if a < length h then Some (h ! a) else None)"

definition getState :: "heap \<Rightarrow> ref \<Rightarrow> GameStateObject option" where
  "getState h a = (case deref h a of Some (GameStateObj g) \<Rightarrow> Some g | _ \<Rightarrow> None)"

definition getPosition :: "heap \<Rightarrow> ref \<Rightarrow> Position option" where
  "getPosition h a = (case deref h a of Some (PositionObj p) \<Rightarrow> Some p | _ \<Rightarrow> None)"

definition asHitCircleState :: "heapObject \<Rightarrow> HitCircleState option" where
  "asHitCircleState obj = (case obj of HitCircleStateObj st \<Rightarrow> Some st | _ \<Rightarrow> None)"

definition asSliderBodyState :: "heapObject \<Rightarrow> SliderBodyState option" where
  "asSliderBodyState obj = (case obj of SliderBodyStateObj st \<Rightarrow> Some st | _ \<Rightarrow> None)"

definition asCheckPointState :: "heapObject \<Rightarrow> CheckPointState option" where
  "asCheckPointState obj = (case obj of CheckPointStateObj st \<Rightarrow> Some st | _ \<Rightarrow> None)"

definition asSpinnerState :: "heapObject \<Rightarrow> SpinnerState option" where
  "asSpinnerState obj = (case obj of SpinnerStateObj st \<Rightarrow> Some st | _ \<Rightarrow> None)"

fun readEntries ::
  "(heapObject \<Rightarrow> 'v option) \<Rightarrow> heap \<Rightarrow> (string \<times> ref) list \<Rightarrow> (string \<times> 'v) list option" where
  \<comment> \<open>The entries of a map with every entry object read.\<close>
  "readEntries as h [] = Some []"
| "readEntries as h ((k, a) # rest) =
     (case deref h a of
        None \<Rightarrow> None
      | Some obj \<Rightarrow>
          (case as obj of
             None \<Rightarrow> None
           | Some v \<Rightarrow>
               (case readEntries as h rest of
                  None \<Rightarrow> None
                | Some vs \<Rightarrow> Some ((k, v) # vs))))"

definition getHitCircleMap :: "heap \<Rightarrow> ref \<Rightarrow> (string \<times> HitCircleState) list option" where
  "getHitCircleMap h a =
     (case deref h a of Some (HitCircleMapObj m) \<Rightarrow> readEntries asHitCircleState h m | _ \<Rightarrow> None)"

definition getSliderBodyMap :: "heap \<Rightarrow> ref \<Rightarrow> (string \<times> SliderBodyState) list option" where
  "getSliderBodyMap h a =
     (case deref h a of Some (SliderBodyMapObj m) \<Rightarrow> readEntries asSliderBodyState h m | _ \<Rightarrow> None)"

definition getCheckPointMap :: "heap \<Rightarrow> ref \<Rightarrow> (string \<times> CheckPointState) list option" where
  "getCheckPointMap h a =
     (case deref h a of Some (CheckPointMapObj m) \<Rightarrow> readEntries asCheckPointState h m | _ \<Rightarrow> None)"

definition getJudgementMap :: "heap \<Rightarrow> ref \<Rightarrow> (string \<times> MainHitObjectVerdict) list option" where
  "getJudgementMap h a = (case deref h a of Some (JudgementMapObj m) \<Rightarrow> Some m | _ \<Rightarrow> None)"

definition getSpinnerMap :: "heap \<Rightarrow> ref \<Rightarrow> (string \<times> SpinnerState) list option" where
  "getSpinnerMap h a =
     (case deref h a of Some (SpinnerMapObj m) \<Rightarrow> readEntries asSpinnerState h m | _ \<Rightarrow> None)"

definition getIndexMap :: "heap \<Rightarrow> ref \<Rightarrow> (string \<times> nat) list option" where
  "getIndexMap h a = (case deref h a of Some (IndexMapObj m) \<Rightarrow> Some m | _ \<Rightarrow> None)"

definition getStringSet :: "heap \<Rightarrow> ref \<Rightarrow> string list option" where
  "getStringSet h a = (case deref h a of Some (StringSetObj xs) \<Rightarrow> Some xs | _ \<Rightarrow> None)"

definition getStringArray :: "heap \<Rightarrow> ref \<Rightarrow> string list option" where
  "getStringArray h a = (case deref h a of Some (StringArrayObj xs) \<Rightarrow> Some xs | _ \<Rightarrow> None)"

definition getNumberArray :: "heap \<Rightarrow> ref \<Rightarrow> real list option" where
  "getNumberArray h a = (case deref h a of Some (NumberArrayObj xs) \<Rightarrow> Some xs | _ \<Rightarrow> None)"

definition readGameState :: "heap \<Rightarrow> ref \<Rightarrow> GameState option" where
  \<comment> \<open>The value of a \<open>GameState\<close> object: its fields with every reference followed,
      those to the entries of the maps too.\<close>
  "readGameState h a = do {
     g \<leftarrow> getState h a;
     cursor \<leftarrow> getPosition h (o_cursorPosition g);
     circles \<leftarrow> getHitCircleMap h (o_hitCircleState g);
     bodies \<leftarrow> getSliderBodyMap h (o_sliderBodyState g);
     checks \<leftarrow> getCheckPointMap h (o_checkPointState g);
     judgements \<leftarrow> getJudgementMap h (o_sliderJudgement g);
     spinners \<leftarrow> getSpinnerMap h (o_spinnerState g);
     judged \<leftarrow> getStringArray h (o_judgedObjects g);
     aliveCircles \<leftarrow> getStringSet h (o_aliveHitCircleIds g);
     aliveSliders \<leftarrow> getStringSet h (o_aliveSliderIds g);
     aliveSpinners \<leftarrow> getStringSet h (o_aliveSpinnerIds g);
     indices \<leftarrow> getIndexMap h (o_nextCheckPointIndex g);
     pressing \<leftarrow> getNumberArray h (o_pressingSince g);
     Some \<lparr>currentTime = o_currentTime g,
           cursorPosition = cursor,
           hitCircleState = circles,
           sliderBodyState = bodies,
           checkPointState = checks,
           sliderJudgement = judgements,
           spinnerState = spinners,
           currentCombo = o_currentCombo g,
           maxCombo = o_maxCombo g,
           clickWasUseful = o_clickWasUseful g,
           judgedObjects = judged,
           latestHitObjectIndex = o_latestHitObjectIndex g,
           aliveHitCircleIds = aliveCircles,
           aliveSliderIds = aliveSliders,
           aliveSpinnerIds = aliveSpinners,
           nextCheckPointIndex = indices,
           pressingSince = pressing\<rparr>
   }"

datatype outcome = Done | Threw error | Stuck

type_synonym stmt = "heap \<Rightarrow> outcome \<times> heap"

definition skipH :: stmt where
  "skipH h = (Done, h)"

definition throwH :: "error \<Rightarrow> stmt" where
  "throwH e h = (Threw e, h)"

definition stuckH :: stmt where
  "stuckH h = (Stuck, h)"

definition seqH :: "stmt \<Rightarrow> stmt \<Rightarrow> stmt" where
  \<comment> \<open>One statement after another; a throw ends the run.\<close>
  "seqH first second h =
     (case first h of
        (Done, h') \<Rightarrow> second h'
      | (out, h') \<Rightarrow> (out, h'))"

fun blockH :: "stmt list \<Rightarrow> stmt" where
  "blockH [] = skipH"
| "blockH (st # rest) = seqH st (blockH rest)"

fun forEachH :: "'a list \<Rightarrow> ('a \<Rightarrow> stmt) \<Rightarrow> stmt" where
  "forEachH [] body = skipH"
| "forEachH (x # xs) body = seqH (body x) (forEachH xs body)"

definition withState :: "ref \<Rightarrow> (GameState \<Rightarrow> stmt) \<Rightarrow> stmt" where
  \<comment> \<open>The reads of \<open>this.gameState\<close>: the statement is given the value of the state
      object as it is now.\<close>
  "withState r body h =
     (case readGameState h r of
        None \<Rightarrow> (Stuck, h)
      | Some s \<Rightarrow> body s h)"

definition allocate :: "heapObject \<Rightarrow> (ref \<Rightarrow> stmt) \<Rightarrow> stmt" where
  \<comment> \<open>An object literal, \<open>new Map\<close>, \<open>new Set\<close>, \<open>[...xs]\<close> or \<open>xs.slice()\<close>:
      a new object at the end of the heap.\<close>
  "allocate obj rest h = rest (length h) (h @ [obj])"

definition assignField :: "ref \<Rightarrow> (GameStateObject \<Rightarrow> GameStateObject) \<Rightarrow> stmt" where
  \<comment> \<open>\<open>this.gameState.field = value\<close>\<close>
  "assignField r upd h =
     (case getState h r of
        None \<Rightarrow> (Stuck, h)
      | Some g \<Rightarrow> (Done, h[r := GameStateObj (upd g)]))"

definition updateContainer ::
  "ref \<Rightarrow> (GameStateObject \<Rightarrow> ref) \<Rightarrow> (heapObject \<Rightarrow> heapObject option) \<Rightarrow> stmt" where
  \<comment> \<open>\<open>this.gameState.field.method(...)\<close> for a method that mutates the container.\<close>
  "updateContainer r field method h =
     (case getState h r of
        None \<Rightarrow> (Stuck, h)
      | Some g \<Rightarrow>
          (case deref h (field g) of
             None \<Rightarrow> (Stuck, h)
           | Some obj \<Rightarrow>
               (case method obj of
                  None \<Rightarrow> (Stuck, h)
                | Some obj' \<Rightarrow> (Done, h[field g := obj']))))"

definition onStringSet :: "(string list \<Rightarrow> string list) \<Rightarrow> heapObject \<Rightarrow> heapObject option" where
  "onStringSet f obj = (case obj of StringSetObj xs \<Rightarrow> Some (StringSetObj (f xs)) | _ \<Rightarrow> None)"

definition onStringArray :: "(string list \<Rightarrow> string list) \<Rightarrow> heapObject \<Rightarrow> heapObject option" where
  "onStringArray f obj = (case obj of StringArrayObj xs \<Rightarrow> Some (StringArrayObj (f xs)) | _ \<Rightarrow> None)"

definition onIndexMap ::
  "((string \<times> nat) list \<Rightarrow> (string \<times> nat) list) \<Rightarrow> heapObject \<Rightarrow> heapObject option" where
  "onIndexMap f obj = (case obj of IndexMapObj m \<Rightarrow> Some (IndexMapObj (f m)) | _ \<Rightarrow> None)"

definition onJudgementMap ::
  "((string \<times> MainHitObjectVerdict) list \<Rightarrow> (string \<times> MainHitObjectVerdict) list) \<Rightarrow>
   heapObject \<Rightarrow> heapObject option" where
  "onJudgementMap f obj = (case obj of JudgementMapObj m \<Rightarrow> Some (JudgementMapObj (f m)) | _ \<Rightarrow> None)"

definition onHitCircleMap ::
  "((string \<times> ref) list \<Rightarrow> (string \<times> ref) list) \<Rightarrow> heapObject \<Rightarrow> heapObject option" where
  "onHitCircleMap f obj = (case obj of HitCircleMapObj m \<Rightarrow> Some (HitCircleMapObj (f m)) | _ \<Rightarrow> None)"

definition onSliderBodyMap ::
  "((string \<times> ref) list \<Rightarrow> (string \<times> ref) list) \<Rightarrow> heapObject \<Rightarrow> heapObject option" where
  "onSliderBodyMap f obj = (case obj of SliderBodyMapObj m \<Rightarrow> Some (SliderBodyMapObj (f m)) | _ \<Rightarrow> None)"

definition onCheckPointMap ::
  "((string \<times> ref) list \<Rightarrow> (string \<times> ref) list) \<Rightarrow> heapObject \<Rightarrow> heapObject option" where
  "onCheckPointMap f obj = (case obj of CheckPointMapObj m \<Rightarrow> Some (CheckPointMapObj (f m)) | _ \<Rightarrow> None)"

definition pushJudged :: "ref \<Rightarrow> string \<Rightarrow> stmt" where
  \<comment> \<open>\<open>this.judgedObjects.push(id)\<close>\<close>
  "pushJudged r i = updateContainer r o_judgedObjects (onStringArray (\<lambda>xs. xs @ [i]))"

definition cloneGameStateH :: "ref \<Rightarrow> heap \<Rightarrow> (ref \<times> heap) option" where
  \<comment> \<open>\<open>cloneGameState\<close>: a new \<open>Map\<close>, \<open>Set\<close> or array for every container field,
      in the order of the object literal, with the entries of the old one (the entry
      objects themselves, not copies); the other fields are copied as they are,
      \<open>cursorPosition\<close> as a reference. \<open>None\<close>: the reference is not that of a
      \<open>GameState\<close>.\<close>
  "cloneGameStateH r h =
     (case getState h r of
        None \<Rightarrow> None
      | Some g \<Rightarrow>
     (case (deref h (o_hitCircleState g), deref h (o_aliveHitCircleIds g),
            deref h (o_aliveSliderIds g), deref h (o_aliveSpinnerIds g),
            deref h (o_checkPointState g), deref h (o_judgedObjects g),
            deref h (o_nextCheckPointIndex g), deref h (o_sliderBodyState g),
            deref h (o_sliderJudgement g), deref h (o_spinnerState g),
            deref h (o_pressingSince g)) of
        (Some (HitCircleMapObj circles), Some (StringSetObj aliveCircles),
         Some (StringSetObj aliveSliders), Some (StringSetObj aliveSpinners),
         Some (CheckPointMapObj checks), Some (StringArrayObj judged),
         Some (IndexMapObj indices), Some (SliderBodyMapObj bodies),
         Some (JudgementMapObj judgements), Some (SpinnerMapObj spinners),
         Some (NumberArrayObj pressing)) \<Rightarrow>
          let n = length h in
          Some (n + 11,
                h @ [HitCircleMapObj circles, StringSetObj aliveCircles,
                     StringSetObj aliveSliders, StringSetObj aliveSpinners,
                     CheckPointMapObj checks, StringArrayObj judged, IndexMapObj indices,
                     SliderBodyMapObj bodies, JudgementMapObj judgements,
                     SpinnerMapObj spinners, NumberArrayObj pressing,
                     GameStateObj
                       \<lparr>o_currentTime = o_currentTime g,
                        o_cursorPosition = o_cursorPosition g,
                        o_hitCircleState = n,
                        o_sliderBodyState = n + 7,
                        o_checkPointState = n + 4,
                        o_sliderJudgement = n + 8,
                        o_spinnerState = n + 9,
                        o_currentCombo = o_currentCombo g,
                        o_maxCombo = o_maxCombo g,
                        o_clickWasUseful = o_clickWasUseful g,
                        o_judgedObjects = n + 5,
                        o_latestHitObjectIndex = o_latestHitObjectIndex g,
                        o_aliveHitCircleIds = n + 1,
                        o_aliveSliderIds = n + 2,
                        o_aliveSpinnerIds = n + 3,
                        o_nextCheckPointIndex = n + 6,
                        o_pressingSince = n + 10\<rparr>])
      | _ \<Rightarrow> None))"

definition spawnOneH :: "ref \<Rightarrow> OsuHitObject \<Rightarrow> stmt" where
  "spawnOneH r hitObject =
     (case hitObject of
        SpinnerObject sp \<Rightarrow>
          updateContainer r o_aliveSpinnerIds (onStringSet (set_add (sp_id sp)))
      | HitCircleObject hc \<Rightarrow>
          updateContainer r o_aliveHitCircleIds (onStringSet (set_add (hc_id hc)))
      | SliderObject sl \<Rightarrow>
          blockH
            [updateContainer r o_aliveHitCircleIds (onStringSet (set_add (hc_id (sl_head sl)))),
             updateContainer r o_aliveSliderIds (onStringSet (set_add (sl_id sl))),
             updateContainer r o_nextCheckPointIndex (onIndexMap (AList.update (sl_id sl) 0))])"

fun spawnLoopH :: "ref \<Rightarrow> OsuHitObject list \<Rightarrow> stmt" where
  \<comment> \<open>The \<open>while\<close> loop of \<open>checkNewAliveHitObjects\<close> over the hit objects from
      \<open>latestHitObjectIndex\<close> on.\<close>
  "spawnLoopH r [] = skipH"
| "spawnLoopH r (hitObject # rest) =
     withState r (\<lambda>s.
       if spawnTime hitObject > currentTime s then skipH
       else seqH (spawnOneH r hitObject)
              (seqH (assignField r
                       (\<lambda>g. g\<lparr>o_latestHitObjectIndex := o_latestHitObjectIndex g + 1\<rparr>))
                 (spawnLoopH r rest)))"

definition checkNewAliveHitObjectsH :: "Evaluator \<Rightarrow> ref \<Rightarrow> stmt" where
  "checkNewAliveHitObjectsH ev r =
     withState r (\<lambda>s. spawnLoopH r (drop (latestHitObjectIndex s) (hitObjects (beatmap ev))))"

definition finishHitCircleH :: "ref \<Rightarrow> string \<Rightarrow> HitCircleState \<Rightarrow> stmt" where
  "finishHitCircleH r i st =
     blockH
       [allocate (HitCircleStateObj st)
          (\<lambda>entry. updateContainer r o_hitCircleState (onHitCircleMap (AList.update i entry))),
        updateContainer r o_aliveHitCircleIds (onStringSet (set_delete i)),
        pushJudged r i]"

definition finishSliderH :: "Evaluator \<Rightarrow> ref \<Rightarrow> string \<Rightarrow> stmt" where
  "finishSliderH ev r i =
     (case getSlider (beatmap ev) i of
        None \<Rightarrow> throwH (UnknownHitObject i)
      | Some slider \<Rightarrow>
          seqH
            (withState r (\<lambda>s.
               if map_of (hitCircleState s) (hc_id (sl_head slider)) = None
               then finishHitCircleH r (hc_id (sl_head slider))
                      \<lparr>judgementTime = sl_endTime slider, hcs_type = MISS,
                       missReason = Some SLIDER_FINISHED_FASTER\<rparr>
               else skipH))
            (withState r (\<lambda>s.
               let totalCheckpoints = length (sl_checkPoints slider) + 1;
                   hitCheckpoints =
                     foldl (\<lambda>n c. n + (if checkPointIsHit s c then 1 else 0))
                       (if headIsHit s (hc_id (sl_head slider)) then 1 else 0)
                       (sl_checkPoints slider);
                   judgement = sliderJudgementBasedOnCheckpoints totalCheckpoints hitCheckpoints
               in blockH
                    [updateContainer r o_sliderJudgement (onJudgementMap (AList.update i judgement)),
                     pushJudged r (sl_id slider),
                     updateContainer r o_aliveSliderIds (onStringSet (set_delete i)),
                     updateContainer r o_nextCheckPointIndex (onIndexMap (AList.delete i)),
                     updateContainer r o_sliderBodyState (onSliderBodyMap (AList.delete i)),
                     updateContainer r o_aliveHitCircleIds
                       (onStringSet (set_delete (hc_id (sl_head slider))))])))"

definition handleHitCircleH ::
  "Evaluator \<Rightarrow> real option \<Rightarrow> real option \<Rightarrow> ref \<Rightarrow> string \<Rightarrow> stmt" where
  "handleHitCircleH ev timeSupposedToClick nextTimeSupposedToClick r i =
     withState r (\<lambda>s.
       case getHitCircle (beatmap ev) i of
         None \<Rightarrow> throwH (UnknownHitObject i)
       | Some hitCircle \<Rightarrow>
           let timeDelta = currentTime s - hc_hitTime hitCircle;
               earliestDeadTime = hc_hitTime hitCircle + hitWindow ev MEH + 1
           in
           if earliestDeadTime \<le> currentTime s then
             finishHitCircleH r i
               \<lparr>judgementTime = earliestDeadTime, hcs_type = MISS,
                missReason = Some TIME_EXPIRED\<rparr>
           else if \<not> hasFreshClickThisFrame s then skipH
           else if clickWasUseful s then skipH
           else if vec2_distance (hc_position hitCircle) (cursorPosition s) > hc_radius hitCircle
             then skipH
           else if noteLocked ev timeSupposedToClick nextTimeSupposedToClick hitCircle then skipH
           else if isWithinHitWindow ev timeDelta GREAT then
             seqH (finishHitCircleH r i
                     \<lparr>judgementTime = currentTime s, hcs_type = GREAT, missReason = None\<rparr>)
                  (assignField r (\<lambda>g. g\<lparr>o_clickWasUseful := True\<rparr>))
           else if isWithinHitWindow ev timeDelta OK then
             seqH (finishHitCircleH r i
                     \<lparr>judgementTime = currentTime s, hcs_type = OK, missReason = None\<rparr>)
                  (assignField r (\<lambda>g. g\<lparr>o_clickWasUseful := True\<rparr>))
           else if isWithinHitWindow ev timeDelta MEH then
             seqH (finishHitCircleH r i
                     \<lparr>judgementTime = currentTime s, hcs_type = MEH, missReason = None\<rparr>)
                  (assignField r (\<lambda>g. g\<lparr>o_clickWasUseful := True\<rparr>))
           else if isWithinHitWindow ev timeDelta MISS then
             finishHitCircleH r i
               \<lparr>judgementTime = currentTime s, hcs_type = MISS,
                missReason = Some HIT_TOO_EARLY\<rparr>
           else skipH)"

definition handleHitCirclesH :: "Evaluator \<Rightarrow> real option \<Rightarrow> real option \<Rightarrow> ref \<Rightarrow> stmt" where
  "handleHitCirclesH ev tsc ntsc r =
     withState r (\<lambda>s.
       case sortKeys (beatmap ev) (aliveHitCircleIds s) of
         Inl e \<Rightarrow> throwH e
       | Inr ks \<Rightarrow> forEachH (map fst (sort_key snd ks)) (handleHitCircleH ev tsc ntsc r))"

definition handleSliderJudgmentH :: "Evaluator \<Rightarrow> ref \<Rightarrow> stmt" where
  "handleSliderJudgmentH ev r =
     withState r (\<lambda>s.
       forEachH (aliveSliderIds s) (\<lambda>i.
         case getSlider (beatmap ev) i of
           None \<Rightarrow> throwH (UnknownHitObject i)
         | Some slider \<Rightarrow>
             withState r (\<lambda>cur.
               if sl_endTime slider \<le> currentTime cur then finishSliderH ev r (sl_id slider)
               else skipH)))"

definition checkPointStepH ::
  "Evaluator \<Rightarrow> real \<Rightarrow> Position \<Rightarrow> real list \<Rightarrow> ref \<Rightarrow> string \<Rightarrow> stmt" where
  \<comment> \<open>The rest of one iteration of the \<open>while\<close> loop of \<open>handleSliderCheckPoints\<close>.\<close>
  "checkPointStepH ev previousTime previousPosition oldPressingSince r sliderIdOfEarliest =
     withState r (\<lambda>s.
       case getSlider (beatmap ev) sliderIdOfEarliest of
         None \<Rightarrow> throwH (UnknownHitObject sliderIdOfEarliest)
       | Some slider \<Rightarrow>
           (case map_of (nextCheckPointIndex s) sliderIdOfEarliest of
              None \<Rightarrow> throwH (UndefinedCheckPoint sliderIdOfEarliest 0)
            | Some index \<Rightarrow>
                if index < length (sl_checkPoints slider) then
                  let checkPoint = sl_checkPoints slider ! index;
                      hht = headHitTime s (hc_id (sl_head slider));
                      wasTracking = wasTrackingOf s (sl_id slider);
                      timeToCheck = of_int \<lceil>cp_hitTime checkPoint - 1 / 10000000000\<rceil>;
                      predictedPosition =
                        predictedPositionAt s previousTime previousPosition timeToCheck;
                      tracking = determineTracking wasTracking slider predictedPosition
                                   timeToCheck oldPressingSince hht
                  in blockH
                       [allocate (CheckPointStateObj \<lparr>hit = tracking\<rparr>)
                          (\<lambda>entry. updateContainer r o_checkPointState
                                      (onCheckPointMap (AList.update (cp_id checkPoint) entry))),
                        pushJudged r (cp_id checkPoint),
                        updateContainer r o_nextCheckPointIndex
                          (onIndexMap
                             (if index + 1 < length (sl_checkPoints slider)
                              then AList.update (sl_id slider) (index + 1)
                              else AList.delete (sl_id slider)))]
                else throwH (UndefinedCheckPoint sliderIdOfEarliest index)))"

definition pendingH :: "Evaluator \<Rightarrow> ref \<Rightarrow> heap \<Rightarrow> nat" where
  \<comment> \<open>\<^const>\<open>pendingCheckPoints\<close> of the \<open>nextCheckPointIndex\<close> map of the state
      object: what the \<open>while\<close> loop of \<open>handleSliderCheckPoints\<close> decreases.\<close>
  "pendingH ev r h =
     (case getState h r of
        None \<Rightarrow> 0
      | Some g \<Rightarrow>
          (case getIndexMap h (o_nextCheckPointIndex g) of
             None \<Rightarrow> 0
           | Some m \<Rightarrow> pendingCheckPoints (beatmap ev) m))"

lemma seqH_Done:
  "seqH first second h = (Done, h') \<longleftrightarrow> (\<exists>h1. first h = (Done, h1) \<and> second h1 = (Done, h'))"
  by (auto simp: seqH_def split: prod.splits outcome.splits)

lemma updateContainer_Done:
  assumes "updateContainer r field method h = (Done, h')"
  obtains g obj' where "getState h r = Some g" and "field g < length h"
    and "method (h ! field g) = Some obj'" and "h' = h[field g := obj']"
  using assms unfolding updateContainer_def deref_def
  by (auto split: option.splits if_splits)

lemma getState_nth: "getState h r = Some g \<longleftrightarrow> r < length h \<and> h ! r = GameStateObj g"
  by (auto simp: getState_def deref_def split: heapObject.splits)

lemma onCheckPointMap_Some:
  "onCheckPointMap f obj = Some obj' \<longleftrightarrow>
     (\<exists>m. obj = CheckPointMapObj m \<and> obj' = CheckPointMapObj (f m))"
  by (auto simp: onCheckPointMap_def split: heapObject.splits)

lemma onHitCircleMap_Some:
  "onHitCircleMap f obj = Some obj' \<longleftrightarrow>
     (\<exists>m. obj = HitCircleMapObj m \<and> obj' = HitCircleMapObj (f m))"
  by (auto simp: onHitCircleMap_def split: heapObject.splits)

lemma onSliderBodyMap_Some:
  "onSliderBodyMap f obj = Some obj' \<longleftrightarrow>
     (\<exists>m. obj = SliderBodyMapObj m \<and> obj' = SliderBodyMapObj (f m))"
  by (auto simp: onSliderBodyMap_def split: heapObject.splits)

lemma onJudgementMap_Some:
  "onJudgementMap f obj = Some obj' \<longleftrightarrow>
     (\<exists>m. obj = JudgementMapObj m \<and> obj' = JudgementMapObj (f m))"
  by (auto simp: onJudgementMap_def split: heapObject.splits)

lemma onIndexMap_Some:
  "onIndexMap f obj = Some obj' \<longleftrightarrow> (\<exists>m. obj = IndexMapObj m \<and> obj' = IndexMapObj (f m))"
  by (auto simp: onIndexMap_def split: heapObject.splits)

lemma onStringSet_Some:
  "onStringSet f obj = Some obj' \<longleftrightarrow> (\<exists>xs. obj = StringSetObj xs \<and> obj' = StringSetObj (f xs))"
  by (auto simp: onStringSet_def split: heapObject.splits)

lemma onStringArray_Some:
  "onStringArray f obj = Some obj' \<longleftrightarrow>
     (\<exists>xs. obj = StringArrayObj xs \<and> obj' = StringArrayObj (f xs))"
  by (auto simp: onStringArray_def split: heapObject.splits)

lemma readGameState_index:
  assumes "readGameState h r = Some s"
  obtains g where "getState h r = Some g"
    and "getIndexMap h (o_nextCheckPointIndex g) = Some (nextCheckPointIndex s)"
  using assms unfolding readGameState_def
  by (auto split: Option.bind_splits)

lemma checkPointStepH_pending:
  assumes rd: "readGameState h r = Some s"
    and step: "checkPointStepH ev pt pp old r k h = (Done, h')"
  shows "pendingH ev r h' < pendingH ev r h"
proof -
  from rd obtain g where g: "getState h r = Some g"
    and m: "getIndexMap h (o_nextCheckPointIndex g) = Some (nextCheckPointIndex s)"
    by (rule readGameState_index)
  from g have r: "r < length h" "h ! r = GameStateObj g" by (simp_all add: getState_nth)
  from step rd obtain slider index where
    sl: "getSlider (beatmap ev) k = Some slider" and
    idx: "map_of (nextCheckPointIndex s) k = Some index" and
    bound: "index < length (sl_checkPoints slider)"
    unfolding checkPointStepH_def withState_def
    by (auto simp: throwH_def split: option.splits if_splits)
  have k: "sl_id slider = k" using sl by (rule getSlider_id)
  define f where "f = (if index + 1 < length (sl_checkPoints slider)
                       then AList.update k (index + 1)
                       else AList.delete k :: (string \<times> nat) list \<Rightarrow> (string \<times> nat) list)"
  from step rd sl idx bound k obtain entry cid h1 h2 where
    s1: "updateContainer r o_checkPointState (onCheckPointMap (AList.update cid (length h)))
           (h @ [entry]) = (Done, h1)" and
    e: "entry = CheckPointStateObj
          \<lparr>hit = determineTracking (wasTrackingOf s k) slider
             (predictedPositionAt s pt pp
                (of_int \<lceil>cp_hitTime (sl_checkPoints slider ! index) - 1 / 10000000000\<rceil>))
             (of_int \<lceil>cp_hitTime (sl_checkPoints slider ! index) - 1 / 10000000000\<rceil>)
             old (headHitTime s (hc_id (sl_head slider)))\<rparr>" and
    s2: "pushJudged r cid h1 = (Done, h2)" and
    s3: "updateContainer r o_nextCheckPointIndex (onIndexMap f) h2 = (Done, h')"
    unfolding checkPointStepH_def withState_def f_def
    by (auto simp: Let_def seqH_Done allocate_def skipH_def)
  let ?h0 = "h @ [entry]"
  have r0: "getState ?h0 r = Some g" using r by (simp add: getState_nth nth_append)
  from s1 r0 obtain m1 where
    c1: "o_checkPointState g < length ?h0" "?h0 ! o_checkPointState g = CheckPointMapObj m1"
    and h1: "h1 = ?h0[o_checkPointState g := CheckPointMapObj (AList.update cid (length h) m1)]"
    by (auto elim!: updateContainer_Done simp: onCheckPointMap_Some)
  have ne1: "o_checkPointState g \<noteq> r" using c1(2) r by (auto simp: nth_append)
  have r1: "getState h1 r = Some g" using r ne1 by (simp add: h1 getState_nth nth_append)
  from s2 r1 obtain xs where
    c2: "o_judgedObjects g < length h1" "h1 ! o_judgedObjects g = StringArrayObj xs"
    and h2: "h2 = h1[o_judgedObjects g := StringArrayObj (xs @ [cid])]"
    unfolding pushJudged_def
    by (auto elim!: updateContainer_Done simp: onStringArray_Some)
  have ne2: "o_judgedObjects g \<noteq> r" using c2(2) r1 by (auto simp: getState_nth)
  have r2: "getState h2 r = Some g" using r1 ne2 by (simp add: h2 getState_nth)
  from s3 r2 obtain m3 where
    c3: "o_nextCheckPointIndex g < length h2" "h2 ! o_nextCheckPointIndex g = IndexMapObj m3"
    and h3: "h' = h2[o_nextCheckPointIndex g := IndexMapObj (f m3)]"
    by (auto elim!: updateContainer_Done simp: onIndexMap_Some)
  have ne3: "o_nextCheckPointIndex g \<noteq> r" using c3(2) r2 by (auto simp: getState_nth)
  have r3: "getState h' r = Some g" using r2 ne3 by (simp add: h3 getState_nth)
  have m': "getIndexMap h' (o_nextCheckPointIndex g) = Some (f m3)"
    using c3(1) by (simp add: h3 getIndexMap_def deref_def)
  from m have "o_nextCheckPointIndex g < length h"
    "h ! o_nextCheckPointIndex g = IndexMapObj (nextCheckPointIndex s)"
    by (auto simp: getIndexMap_def deref_def split: if_splits option.splits heapObject.splits)
  with c3(2) ne1 c2 have "m3 = nextCheckPointIndex s"
    unfolding h2 h1
    by (cases "o_nextCheckPointIndex g = o_judgedObjects g";
        cases "o_nextCheckPointIndex g = o_checkPointState g")
       (auto simp: nth_append)
  with idx have idx3: "map_of m3 k = Some index" by simp
  have "pendingCheckPoints (beatmap ev) (f m3) < pendingCheckPoints (beatmap ev) m3"
    unfolding f_def using pending_update_less [OF idx3 sl bound] pending_delete_less [OF idx3 sl bound]
    by simp
  with r3 m' g m \<open>m3 = nextCheckPointIndex s\<close> show ?thesis
    by (simp add: pendingH_def)
qed

function handleSliderCheckPointsH ::
  "Evaluator \<Rightarrow> real \<Rightarrow> Position \<Rightarrow> real list \<Rightarrow> ref \<Rightarrow> stmt" where
  "handleSliderCheckPointsH ev previousTime previousPosition oldPressingSince r h =
     (case readGameState h r of
        None \<Rightarrow> (Stuck, h)
      | Some s \<Rightarrow>
          (case earliestCheckPoint (beatmap ev) (currentTime s) (nextCheckPointIndex s) None
                  1000000000000000000 of
             Inl e \<Rightarrow> (Threw e, h)
           | Inr None \<Rightarrow> (Done, h)
           | Inr (Some sliderIdOfEarliest) \<Rightarrow>
               (case checkPointStepH ev previousTime previousPosition oldPressingSince r
                       sliderIdOfEarliest h of
                  (Done, h') \<Rightarrow>
                    handleSliderCheckPointsH ev previousTime previousPosition oldPressingSince r h'
                | (out, h') \<Rightarrow> (out, h'))))"
  by pat_completeness auto
termination
  by (relation "measure (\<lambda>(ev, pt, pp, old, r, h). pendingH ev r h)")
     (auto simp: checkPointStepH_pending)

declare handleSliderCheckPointsH.simps [simp del]

definition updateSliderBodyTrackingH :: "Evaluator \<Rightarrow> ref \<Rightarrow> stmt" where
  "updateSliderBodyTrackingH ev r =
     withState r (\<lambda>s.
       forEachH (aliveSliderIds s) (\<lambda>i.
         case getSlider (beatmap ev) i of
           None \<Rightarrow> throwH (UnknownHitObject i)
         | Some slider \<Rightarrow>
             withState r (\<lambda>cur.
               let hht = headHitTime cur (hc_id (sl_head slider));
                   wasTracking = wasTrackingOf cur i;
                   tracking = determineTracking wasTracking slider (cursorPosition cur)
                                (currentTime cur) (pressingSince cur) hht
               in allocate (SliderBodyStateObj \<lparr>isTracking = tracking\<rparr>)
                    (\<lambda>entry. updateContainer r o_sliderBodyState
                                (onSliderBodyMap (AList.update i entry))))))"

definition handleSpinnersH :: "Evaluator \<Rightarrow> ref \<Rightarrow> stmt" where
  "handleSpinnersH ev r =
     withState r (\<lambda>s.
       forEachH (aliveSpinnerIds s) (\<lambda>i.
         case getSpinner (beatmap ev) i of
           None \<Rightarrow> throwH (UnknownHitObject i)
         | Some spinner \<Rightarrow>
             withState r (\<lambda>cur.
               if sp_endTime spinner < currentTime cur then
                 seqH (updateContainer r o_aliveSpinnerIds
                         (onStringSet (set_delete (sp_id spinner))))
                      (pushJudged r i)
               else skipH)))"

definition evaluateNextFrameMutatedH :: "Evaluator \<Rightarrow> ref \<Rightarrow> HeapFrame \<Rightarrow> stmt" where
  \<comment> \<open>\<open>evaluateNextFrameMutated\<close> for a state object and a frame whose position is an
      object of the heap. \<open>previousPosition\<close> is a copy of the old cursor position and
      \<open>oldPressingSince\<close> a copy of the old array; both are local to the call.\<close>
  "evaluateNextFrameMutatedH ev r frame =
     withState r (\<lambda>previousGameState.
       let previousPosition = cursorPosition previousGameState;
           previousTime = currentTime previousGameState;
           oldPressingSince = pressingSince previousGameState
       in blockH
            [assignField r (\<lambda>g. g\<lparr>o_currentTime := hf_time frame\<rparr>),
             assignField r (\<lambda>g. g\<lparr>o_cursorPosition := hf_position frame\<rparr>),
             assignField r (\<lambda>g. g\<lparr>o_clickWasUseful := False\<rparr>),
             allocate (NumberArrayObj
                         (newPressingSince (pressingSince previousGameState) (hf_actions frame)
                            (hf_time frame)))
               (\<lambda>array. assignField r (\<lambda>g. g\<lparr>o_pressingSince := array\<rparr>)),
             checkNewAliveHitObjectsH ev r,
             withState r (\<lambda>s.
               case earliestHitCircleStartTime ev s False of
                 Inl e \<Rightarrow> throwH e
               | Inr timeSupposedToClick \<Rightarrow>
                   (case earliestHitCircleStartTime ev s True of
                      Inl e \<Rightarrow> throwH e
                    | Inr nextTimeSupposedToClick \<Rightarrow>
                        blockH
                          [handleHitCirclesH ev timeSupposedToClick nextTimeSupposedToClick r,
                           handleSliderJudgmentH ev r,
                           handleSliderCheckPointsH ev previousTime previousPosition
                             oldPressingSince r,
                           updateSliderBodyTrackingH ev r,
                           handleSpinnersH ev r]))])"

fun evaluateFramesH :: "Evaluator \<Rightarrow> ref \<Rightarrow> HeapFrame list \<Rightarrow> stmt" where
  "evaluateFramesH ev r [] = skipH"
| "evaluateFramesH ev r (frame # frames) =
     seqH (evaluateNextFrameMutatedH ev r frame) (evaluateFramesH ev r frames)"

definition containerRefs :: "GameStateObject \<Rightarrow> ref list" where
  \<comment> \<open>The containers that the fields of a state object refer to.\<close>
  "containerRefs g =
     [o_hitCircleState g, o_sliderBodyState g, o_checkPointState g, o_sliderJudgement g,
      o_spinnerState g, o_judgedObjects g, o_aliveHitCircleIds g, o_aliveSliderIds g,
      o_aliveSpinnerIds g, o_nextCheckPointIndex g]"

definition owns :: "nat \<Rightarrow> ref set \<Rightarrow> ref \<Rightarrow> heap \<Rightarrow> bool" where
  \<comment> \<open>Of the first \<open>n\<close> objects of the heap, the state object \<open>r\<close> and its containers
      are in \<open>A\<close>.\<close>
  "owns n A r h \<longleftrightarrow>
     n \<le> length h \<and> r < n \<and> r \<in> A \<and>
     (case getState h r of
        None \<Rightarrow> True
      | Some g \<Rightarrow> \<forall>c \<in> set (containerRefs g). c \<in> A \<or> n \<le> c)"

definition isShared :: "heapObject \<Rightarrow> bool" where
  \<comment> \<open>The objects that a state and its clone share: positions and the entries of the
      maps.\<close>
  "isShared obj \<longleftrightarrow>
     (case obj of
        PositionObj p \<Rightarrow> True
      | HitCircleStateObj st \<Rightarrow> True
      | SliderBodyStateObj st \<Rightarrow> True
      | CheckPointStateObj st \<Rightarrow> True
      | SpinnerStateObj st \<Rightarrow> True
      | _ \<Rightarrow> False)"

definition unchangedOutside :: "nat \<Rightarrow> ref set \<Rightarrow> heap \<Rightarrow> heap \<Rightarrow> bool" where
  \<comment> \<open>The heap has grown; of its first \<open>n\<close> objects only those in \<open>A\<close> may have
      changed; and no position and no entry has changed.\<close>
  "unchangedOutside n A h h' \<longleftrightarrow>
     length h \<le> length h' \<and> (\<forall>a<n. a \<notin> A \<longrightarrow> h' ! a = h ! a) \<and>
     (\<forall>a<length h. isShared (h ! a) \<longrightarrow> h' ! a = h ! a)"

definition confined :: "nat \<Rightarrow> ref set \<Rightarrow> ref \<Rightarrow> stmt \<Rightarrow> bool" where
  "confined n A r st \<longleftrightarrow>
     (\<forall>h. owns n A r h \<longrightarrow> owns n A r (snd (st h)) \<and> unchangedOutside n A h (snd (st h)))"

lemma unchangedOutside_refl: "unchangedOutside n A h h"
  by (simp add: unchangedOutside_def)

lemma unchangedOutside_trans:
  assumes "unchangedOutside n A h h1" and "unchangedOutside n A h1 h2"
  shows "unchangedOutside n A h h2"
proof -
  have "h2 ! a = h ! a" if "a < length h" "isShared (h ! a)" for a
  proof -
    from assms(1) that have 1: "h1 ! a = h ! a" "a < length h1"
      by (auto simp: unchangedOutside_def)
    with that(2) assms(2) have "h2 ! a = h1 ! a" by (auto simp: unchangedOutside_def)
    with 1 show ?thesis by simp
  qed
  with assms show ?thesis by (auto simp: unchangedOutside_def)
qed

lemma confinedI:
  assumes "\<And>h. owns n A r h \<Longrightarrow> owns n A r (snd (st h)) \<and> unchangedOutside n A h (snd (st h))"
  shows "confined n A r st"
  using assms by (simp add: confined_def)

lemma confinedD:
  assumes "confined n A r st" and "owns n A r h"
  shows "owns n A r (snd (st h))" and "unchangedOutside n A h (snd (st h))"
  using assms by (simp_all add: confined_def)

lemma confined_skipH: "confined n A r skipH"
  by (simp add: confined_def skipH_def unchangedOutside_refl)

lemma confined_throwH: "confined n A r (throwH e)"
  by (simp add: confined_def throwH_def unchangedOutside_refl)

lemma confined_stuckH: "confined n A r stuckH"
  by (simp add: confined_def stuckH_def unchangedOutside_refl)

lemma confined_seqH:
  assumes "confined n A r first" and "confined n A r second"
  shows "confined n A r (seqH first second)"
proof (rule confinedI)
  fix h
  assume o: "owns n A r h"
  obtain out h1 where f: "first h = (out, h1)" by (cases "first h")
  from confinedD [OF assms(1) o] f have
    1: "owns n A r h1" "unchangedOutside n A h h1" by simp_all
  show "owns n A r (snd (seqH first second h)) \<and>
        unchangedOutside n A h (snd (seqH first second h))"
  proof (cases out)
    case Done
    with f have "seqH first second h = second h1" by (simp add: seqH_def)
    with confinedD [OF assms(2) 1(1)] 1(2) show ?thesis
      by (auto intro: unchangedOutside_trans)
  next
    case (Threw e)
    with f have "seqH first second h = (out, h1)" by (simp add: seqH_def)
    with 1 show ?thesis by simp
  next
    case Stuck
    with f have "seqH first second h = (out, h1)" by (simp add: seqH_def)
    with 1 show ?thesis by simp
  qed
qed

lemma confined_blockH:
  assumes "\<forall>st \<in> set sts. confined n A r st"
  shows "confined n A r (blockH sts)"
  using assms by (induction sts) (simp_all add: confined_skipH confined_seqH)

lemma confined_forEachH:
  assumes "\<And>x. confined n A r (body x)"
  shows "confined n A r (forEachH xs body)"
  using assms by (induction xs) (simp_all add: confined_skipH confined_seqH)

lemma confined_withState:
  assumes "\<And>s. confined n A r (body s)"
  shows "confined n A r (withState r' body)"
proof (rule confinedI)
  fix h
  assume o: "owns n A r h"
  show "owns n A r (snd (withState r' body h)) \<and>
        unchangedOutside n A h (snd (withState r' body h))"
  proof (cases "readGameState h r'")
    case None
    with o show ?thesis by (simp add: withState_def unchangedOutside_refl)
  next
    case (Some s)
    with confinedD [OF assms [of s] o] show ?thesis by (simp add: withState_def)
  qed
qed

lemma getState_append: "r < length h \<Longrightarrow> getState (h @ xs) r = getState h r"
  by (simp add: getState_def deref_def nth_append)

lemma confined_allocate:
  assumes "\<And>a. confined n A r (rest a)"
  shows "confined n A r (allocate obj rest)"
proof (rule confinedI)
  fix h
  assume o: "owns n A r h"
  then have r: "r < length h" by (simp add: owns_def)
  from o have o1: "owns n A r (h @ [obj])"
    by (simp add: owns_def getState_append [OF r])
  from o have u: "unchangedOutside n A h (h @ [obj])"
    by (simp add: unchangedOutside_def owns_def nth_append)
  from confinedD [OF assms [of "length h"] o1] u
  show "owns n A r (snd (allocate obj rest h)) \<and>
        unchangedOutside n A h (snd (allocate obj rest h))"
    by (auto simp: allocate_def intro: unchangedOutside_trans)
qed

lemma confined_assignField:
  assumes "\<And>g. containerRefs (upd g) = containerRefs g"
  shows "confined n A r (assignField r upd)"
proof (rule confinedI)
  fix h
  assume o: "owns n A r h"
  show "owns n A r (snd (assignField r upd h)) \<and>
        unchangedOutside n A h (snd (assignField r upd h))"
  proof (cases "getState h r")
    case None
    with o show ?thesis by (simp add: assignField_def unchangedOutside_refl)
  next
    case (Some g)
    then have r: "r < length h" by (simp add: getState_nth)
    have "getState (h[r := GameStateObj (upd g)]) r = Some (upd g)"
      using r by (simp add: getState_nth)
    moreover from o have "r \<noteq> a" if "a \<notin> A" for a
      using that by (auto simp: owns_def)
    moreover from Some have "r \<noteq> a" if "isShared (h ! a)" for a
      using that by (auto simp: getState_nth isShared_def)
    ultimately show ?thesis using o Some assms [of g]
      by (auto simp: assignField_def owns_def unchangedOutside_def)
  qed
qed

lemma confined_updateContainer:
  assumes field: "\<And>g. field g \<in> set (containerRefs g)"
    and onState: "\<And>g. method (GameStateObj g) = None"
    and shared: "\<And>obj. isShared obj \<Longrightarrow> method obj = None"
  shows "confined n A r (updateContainer r field method)"
proof (rule confinedI)
  fix h
  assume o: "owns n A r h"
  obtain out h' where u: "updateContainer r field method h = (out, h')"
    by (cases "updateContainer r field method h")
  show "owns n A r (snd (updateContainer r field method h)) \<and>
        unchangedOutside n A h (snd (updateContainer r field method h))"
  proof (cases "out = Done")
    case True
    with u obtain g obj' where
      g: "getState h r = Some g" and c: "field g < length h" and
      m: "method (h ! field g) = Some obj'" and h': "h' = h[field g := obj']"
      by (auto elim: updateContainer_Done)
    from g have r: "r < length h" "h ! r = GameStateObj g" by (simp_all add: getState_nth)
    from m onState r(2) have ne: "field g \<noteq> r" by auto
    from o g field [of g] have own: "field g \<in> A \<or> n \<le> field g" by (auto simp: owns_def)
    have g': "getState h' r = Some g" using r ne by (simp add: h' getState_nth)
    from o g g' have "owns n A r h'" by (simp add: owns_def h')
    from own have "field g \<noteq> a" if "a < n" "a \<notin> A" for a
      using that by auto
    moreover from m shared [of "h ! a" for a] have "field g \<noteq> a" if "isShared (h ! a)" for a
      using that by auto
    ultimately have "unchangedOutside n A h h'"
      by (simp add: unchangedOutside_def h')
    with \<open>owns n A r h'\<close> show ?thesis using u by simp
  next
    case False
    with u have "h' = h"
      unfolding updateContainer_def by (auto split: option.splits)
    with o u show ?thesis by (simp add: unchangedOutside_refl)
  qed
qed

lemma on_isShared [simp]:
  "isShared obj \<Longrightarrow> onStringSet fs obj = None"
  "isShared obj \<Longrightarrow> onStringArray fs obj = None"
  "isShared obj \<Longrightarrow> onIndexMap fi obj = None"
  "isShared obj \<Longrightarrow> onJudgementMap fj obj = None"
  "isShared obj \<Longrightarrow> onHitCircleMap fr obj = None"
  "isShared obj \<Longrightarrow> onSliderBodyMap fr obj = None"
  "isShared obj \<Longrightarrow> onCheckPointMap fr obj = None"
  by (auto simp: isShared_def onStringSet_def onStringArray_def onIndexMap_def
      onJudgementMap_def onHitCircleMap_def onSliderBodyMap_def onCheckPointMap_def
      split: heapObject.splits)

lemma on_GameStateObj [simp]:
  "onStringSet fs (GameStateObj g) = None" "onStringArray fs (GameStateObj g) = None"
  "onIndexMap fi (GameStateObj g) = None" "onJudgementMap fj (GameStateObj g) = None"
  "onHitCircleMap fr (GameStateObj g) = None" "onSliderBodyMap fr (GameStateObj g) = None"
  "onCheckPointMap fr (GameStateObj g) = None"
  by (simp_all add: onStringSet_def onStringArray_def onIndexMap_def onJudgementMap_def
      onHitCircleMap_def onSliderBodyMap_def onCheckPointMap_def)

lemma field_containerRefs [simp]:
  "o_hitCircleState g \<in> set (containerRefs g)" "o_sliderBodyState g \<in> set (containerRefs g)"
  "o_checkPointState g \<in> set (containerRefs g)" "o_sliderJudgement g \<in> set (containerRefs g)"
  "o_spinnerState g \<in> set (containerRefs g)" "o_judgedObjects g \<in> set (containerRefs g)"
  "o_aliveHitCircleIds g \<in> set (containerRefs g)" "o_aliveSliderIds g \<in> set (containerRefs g)"
  "o_aliveSpinnerIds g \<in> set (containerRefs g)"
  "o_nextCheckPointIndex g \<in> set (containerRefs g)"
  by (simp_all add: containerRefs_def)

lemma confined_pushJudged: "confined n A r (pushJudged r i)"
  unfolding pushJudged_def by (rule confined_updateContainer) simp_all

lemma confined_finishHitCircleH: "confined n A r (finishHitCircleH r i st)"
  unfolding finishHitCircleH_def
  by (auto intro!: confined_seqH confined_skipH confined_allocate confined_updateContainer
      confined_pushJudged)

lemma confined_spawnOneH: "confined n A r (spawnOneH r hitObject)"
  unfolding spawnOneH_def
  by (cases hitObject) (auto intro!: confined_seqH confined_skipH confined_updateContainer)

lemma confined_spawnLoopH: "confined n A r (spawnLoopH r objs)"
proof (induction objs)
  case Nil
  then show ?case by (simp add: confined_skipH)
next
  case (Cons hitObject rest)
  show ?case
    unfolding spawnLoopH.simps
    by (intro confined_withState)
       (auto intro!: confined_skipH confined_seqH confined_spawnOneH confined_assignField Cons.IH
          simp: containerRefs_def)
qed

lemma confined_checkNewAliveHitObjectsH: "confined n A r (checkNewAliveHitObjectsH ev r)"
  unfolding checkNewAliveHitObjectsH_def
  by (intro confined_withState confined_spawnLoopH)

lemma confined_handleHitCircleH: "confined n A r (handleHitCircleH ev tsc ntsc r i)"
  unfolding handleHitCircleH_def Let_def
  by (intro confined_withState)
     (auto intro!: confined_skipH confined_throwH confined_seqH confined_finishHitCircleH
        confined_assignField simp: containerRefs_def split: option.splits)

lemma confined_handleHitCirclesH: "confined n A r (handleHitCirclesH ev tsc ntsc r)"
  unfolding handleHitCirclesH_def
  by (intro confined_withState)
     (auto intro!: confined_throwH confined_forEachH confined_handleHitCircleH
        split: sum.splits)

lemma confined_finishSliderH: "confined n A r (finishSliderH ev r i)"
  unfolding finishSliderH_def Let_def
  by (auto intro!: confined_throwH confined_seqH confined_withState confined_skipH
      confined_finishHitCircleH confined_updateContainer confined_pushJudged
      split: option.splits)

lemma confined_handleSliderJudgmentH: "confined n A r (handleSliderJudgmentH ev r)"
  unfolding handleSliderJudgmentH_def
  by (intro confined_withState confined_forEachH)
     (auto intro!: confined_throwH confined_withState confined_skipH confined_finishSliderH
        split: option.splits)

lemma confined_checkPointStepH: "confined n A r (checkPointStepH ev pt pp old r k)"
  unfolding checkPointStepH_def Let_def
  by (intro confined_withState)
     (auto intro!: confined_throwH confined_seqH confined_skipH confined_allocate confined_updateContainer
        confined_pushJudged split: option.splits)

lemma confined_handleSliderCheckPointsH_aux:
  "owns n A r h \<Longrightarrow>
   owns n A r (snd (handleSliderCheckPointsH ev pt pp old r h)) \<and>
   unchangedOutside n A h (snd (handleSliderCheckPointsH ev pt pp old r h))"
proof (induction ev pt pp old r h rule: handleSliderCheckPointsH.induct)
  case (1 ev pt pp old r h)
  show ?case
  proof (cases "readGameState h r")
    case None
    with "1.prems" show ?thesis
      by (subst (1 2) handleSliderCheckPointsH.simps) (simp add: unchangedOutside_refl)
  next
    case (Some s)
    show ?thesis
    proof (cases "earliestCheckPoint (beatmap ev) (currentTime s) (nextCheckPointIndex s) None
                    1000000000000000000")
      case (Inl e)
      with Some "1.prems" show ?thesis
        by (subst (1 2) handleSliderCheckPointsH.simps) (simp add: unchangedOutside_refl)
    next
      case (Inr found)
      show ?thesis
      proof (cases found)
        case None
        with Some Inr "1.prems" show ?thesis
          by (subst (1 2) handleSliderCheckPointsH.simps) (simp add: unchangedOutside_refl)
      next
        case (Some k)
        obtain out h1 where st: "checkPointStepH ev pt pp old r k h = (out, h1)"
          by (cases "checkPointStepH ev pt pp old r k h")
        from confinedD [OF confined_checkPointStepH "1.prems", of ev pt pp old k] st have
          c: "owns n A r h1" "unchangedOutside n A h h1" by simp_all
        show ?thesis
        proof (cases "out = Done")
          case True
          from "1.IH" [OF \<open>readGameState h r = Some s\<close> Inr Some st [symmetric] True c(1)] c(2)
          have "owns n A r (snd (handleSliderCheckPointsH ev pt pp old r h1)) \<and>
                unchangedOutside n A h (snd (handleSliderCheckPointsH ev pt pp old r h1))"
            by (auto intro: unchangedOutside_trans)
          moreover have "handleSliderCheckPointsH ev pt pp old r h =
              handleSliderCheckPointsH ev pt pp old r h1"
            using \<open>readGameState h r = Some s\<close> Inr Some st True
            by (subst handleSliderCheckPointsH.simps) simp
          ultimately show ?thesis by simp
        next
          case False
          have "handleSliderCheckPointsH ev pt pp old r h = (out, h1)"
            using \<open>readGameState h r = Some s\<close> Inr Some st False
            by (subst handleSliderCheckPointsH.simps) (simp split: outcome.splits)
          with c show ?thesis by simp
        qed
      qed
    qed
  qed
qed

lemma confined_handleSliderCheckPointsH:
  "confined n A r (handleSliderCheckPointsH ev pt pp old r)"
  by (rule confinedI) (rule confined_handleSliderCheckPointsH_aux)

lemma confined_updateSliderBodyTrackingH: "confined n A r (updateSliderBodyTrackingH ev r)"
  unfolding updateSliderBodyTrackingH_def Let_def
  by (intro confined_withState confined_forEachH)
     (auto intro!: confined_throwH confined_withState confined_allocate
        confined_updateContainer split: option.splits)

lemma confined_handleSpinnersH: "confined n A r (handleSpinnersH ev r)"
  unfolding handleSpinnersH_def
  by (intro confined_withState confined_forEachH)
     (auto intro!: confined_throwH confined_withState confined_skipH confined_seqH
        confined_updateContainer confined_pushJudged split: option.splits)

lemma confined_evaluateNextFrameMutatedH:
  "confined n A r (evaluateNextFrameMutatedH ev r frame)"
  unfolding evaluateNextFrameMutatedH_def Let_def
  by (intro confined_withState)
     (auto intro!: confined_assignField confined_allocate confined_checkNewAliveHitObjectsH
        confined_withState confined_throwH confined_seqH confined_skipH
        confined_handleHitCirclesH
        confined_handleSliderJudgmentH confined_handleSliderCheckPointsH
        confined_updateSliderBodyTrackingH confined_handleSpinnersH
        simp: containerRefs_def split: sum.splits)

lemma confined_evaluateFramesH: "confined n A r (evaluateFramesH ev r frames)"
  by (induction frames)
     (simp_all add: confined_skipH confined_seqH confined_evaluateNextFrameMutatedH)

definition represents :: "heap \<Rightarrow> ref \<Rightarrow> GameStateObject \<Rightarrow> GameState \<Rightarrow> bool" where
  \<comment> \<open>The state object \<open>g\<close> at \<open>r\<close> reads as the value \<open>s\<close>.\<close>
  "represents h r g s \<longleftrightarrow>
     getState h r = Some g \<and>
     getPosition h (o_cursorPosition g) = Some (cursorPosition s) \<and>
     getHitCircleMap h (o_hitCircleState g) = Some (hitCircleState s) \<and>
     getSliderBodyMap h (o_sliderBodyState g) = Some (sliderBodyState s) \<and>
     getCheckPointMap h (o_checkPointState g) = Some (checkPointState s) \<and>
     getJudgementMap h (o_sliderJudgement g) = Some (sliderJudgement s) \<and>
     getSpinnerMap h (o_spinnerState g) = Some (spinnerState s) \<and>
     getStringArray h (o_judgedObjects g) = Some (judgedObjects s) \<and>
     getStringSet h (o_aliveHitCircleIds g) = Some (aliveHitCircleIds s) \<and>
     getStringSet h (o_aliveSliderIds g) = Some (aliveSliderIds s) \<and>
     getStringSet h (o_aliveSpinnerIds g) = Some (aliveSpinnerIds s) \<and>
     getIndexMap h (o_nextCheckPointIndex g) = Some (nextCheckPointIndex s) \<and>
     getNumberArray h (o_pressingSince g) = Some (pressingSince s) \<and>
     o_currentTime g = currentTime s \<and> o_currentCombo g = currentCombo s \<and>
     o_maxCombo g = maxCombo s \<and> o_clickWasUseful g = clickWasUseful s \<and>
     o_latestHitObjectIndex g = latestHitObjectIndex s"

lemma readGameState_represents:
  "readGameState h r = Some s \<longleftrightarrow> (\<exists>g. represents h r g s)"
proof
  assume "readGameState h r = Some s"
  then show "\<exists>g. represents h r g s"
    unfolding readGameState_def represents_def
    by (auto split: Option.bind_splits)
next
  assume "\<exists>g. represents h r g s"
  then obtain g where "represents h r g s" by blast
  then show "readGameState h r = Some s"
    unfolding readGameState_def represents_def by simp
qed

definition entryRefs :: "heap \<Rightarrow> ref \<Rightarrow> ref list" where
  \<comment> \<open>The entry objects of a map.\<close>
  "entryRefs h c =
     (case deref h c of
        Some (HitCircleMapObj m) \<Rightarrow> map snd m
      | Some (SliderBodyMapObj m) \<Rightarrow> map snd m
      | Some (CheckPointMapObj m) \<Rightarrow> map snd m
      | Some (SpinnerMapObj m) \<Rightarrow> map snd m
      | _ \<Rightarrow> [])"

definition reachable :: "heap \<Rightarrow> ref \<Rightarrow> ref list" where
  \<comment> \<open>The objects that the value of a state object depends on: the state object, its
      cursor position, its containers and the entries of its maps.\<close>
  "reachable h r =
     (case getState h r of
        None \<Rightarrow> [r]
      | Some g \<Rightarrow>
          r # o_cursorPosition g # o_pressingSince g # containerRefs g @
          concat (map (entryRefs h) (containerRefs g)))"

lemma readEntries_agree:
  assumes "\<forall>a \<in> snd ` set m. deref h' a = deref h a"
  shows "readEntries as h' m = readEntries as h m"
  using assms by (induction m) (auto split: option.splits)

lemma readEntries_bound:
  "readEntries as h m = Some vs \<Longrightarrow> a \<in> snd ` set m \<Longrightarrow>
   a < length h \<and> as (h ! a) \<noteq> None"
proof (induction m arbitrary: vs)
  case Nil
  then show ?case by simp
next
  case (Cons e m)
  obtain k b where e: "e = (k, b)" by (cases e)
  from Cons.prems(1) e obtain ws where
    b: "b < length h" "as (h ! b) \<noteq> None" and rest: "readEntries as h m = Some ws"
    by (auto simp: deref_def split: option.splits if_splits)
  from Cons.prems(2) e have "a = b \<or> a \<in> snd ` set m" by auto
  with b Cons.IH [OF rest] show ?case by blast
qed

lemma getHitCircleMap_agree:
  assumes "deref h' c = deref h c" and "\<forall>a \<in> set (entryRefs h c). deref h' a = deref h a"
  shows "getHitCircleMap h' c = getHitCircleMap h c"
  using assms readEntries_agree [of _ h' h asHitCircleState]
  by (auto simp: getHitCircleMap_def entryRefs_def split: option.splits heapObject.splits)

lemma getSliderBodyMap_agree:
  assumes "deref h' c = deref h c" and "\<forall>a \<in> set (entryRefs h c). deref h' a = deref h a"
  shows "getSliderBodyMap h' c = getSliderBodyMap h c"
  using assms readEntries_agree [of _ h' h asSliderBodyState]
  by (auto simp: getSliderBodyMap_def entryRefs_def split: option.splits heapObject.splits)

lemma getCheckPointMap_agree:
  assumes "deref h' c = deref h c" and "\<forall>a \<in> set (entryRefs h c). deref h' a = deref h a"
  shows "getCheckPointMap h' c = getCheckPointMap h c"
  using assms readEntries_agree [of _ h' h asCheckPointState]
  by (auto simp: getCheckPointMap_def entryRefs_def split: option.splits heapObject.splits)

lemma getSpinnerMap_agree:
  assumes "deref h' c = deref h c" and "\<forall>a \<in> set (entryRefs h c). deref h' a = deref h a"
  shows "getSpinnerMap h' c = getSpinnerMap h c"
  using assms readEntries_agree [of _ h' h asSpinnerState]
  by (auto simp: getSpinnerMap_def entryRefs_def split: option.splits heapObject.splits)

lemma represents_agree:
  assumes rep: "represents h r g s"
    and same: "\<forall>a \<in> set (reachable h r). deref h' a = deref h a"
  shows "represents h' r g s"
proof -
  from rep have g: "getState h r = Some g" by (simp add: represents_def)
  have d: "deref h' a = deref h a"
    if "a \<in> set (r # o_cursorPosition g # o_pressingSince g # containerRefs g)" for a
    using same that by (auto simp: reachable_def g)
  have e: "\<forall>a \<in> set (entryRefs h c). deref h' a = deref h a"
    if "c \<in> set (containerRefs g)" for c
    using same that by (auto simp: reachable_def g)
  have 1: "getState h' r = Some g" using g d [of r] by (simp add: getState_def)
  have 2: "getPosition h' (o_cursorPosition g) = getPosition h (o_cursorPosition g)"
    using d [of "o_cursorPosition g"] by (simp add: getPosition_def)
  have 3: "getHitCircleMap h' (o_hitCircleState g) = getHitCircleMap h (o_hitCircleState g)"
    using d [of "o_hitCircleState g"] e [of "o_hitCircleState g"]
    by (intro getHitCircleMap_agree) simp_all
  have 4: "getSliderBodyMap h' (o_sliderBodyState g) = getSliderBodyMap h (o_sliderBodyState g)"
    using d [of "o_sliderBodyState g"] e [of "o_sliderBodyState g"]
    by (intro getSliderBodyMap_agree) simp_all
  have 5: "getCheckPointMap h' (o_checkPointState g) = getCheckPointMap h (o_checkPointState g)"
    using d [of "o_checkPointState g"] e [of "o_checkPointState g"]
    by (intro getCheckPointMap_agree) simp_all
  have 6: "getJudgementMap h' (o_sliderJudgement g) = getJudgementMap h (o_sliderJudgement g)"
    using d [of "o_sliderJudgement g"] by (simp add: getJudgementMap_def)
  have 7: "getSpinnerMap h' (o_spinnerState g) = getSpinnerMap h (o_spinnerState g)"
    using d [of "o_spinnerState g"] e [of "o_spinnerState g"]
    by (intro getSpinnerMap_agree) simp_all
  have 8: "getStringArray h' (o_judgedObjects g) = getStringArray h (o_judgedObjects g)"
    using d [of "o_judgedObjects g"] by (simp add: getStringArray_def)
  have 9: "getStringSet h' (o_aliveHitCircleIds g) = getStringSet h (o_aliveHitCircleIds g)"
    "getStringSet h' (o_aliveSliderIds g) = getStringSet h (o_aliveSliderIds g)"
    "getStringSet h' (o_aliveSpinnerIds g) = getStringSet h (o_aliveSpinnerIds g)"
    using d [of "o_aliveHitCircleIds g"] d [of "o_aliveSliderIds g"]
      d [of "o_aliveSpinnerIds g"]
    by (simp_all add: getStringSet_def)
  have 10: "getIndexMap h' (o_nextCheckPointIndex g) = getIndexMap h (o_nextCheckPointIndex g)"
    using d [of "o_nextCheckPointIndex g"] by (simp add: getIndexMap_def)
  have 11: "getNumberArray h' (o_pressingSince g) = getNumberArray h (o_pressingSince g)"
    using d [of "o_pressingSince g"] by (simp add: getNumberArray_def)
  from rep show ?thesis
    unfolding represents_def 1 2 3 4 5 6 7 8 9 10 11 by simp
qed

lemma getter_bound:
  "getPosition h a = Some p \<Longrightarrow> a < length h \<and> isShared (h ! a)"
  "getHitCircleMap h a = Some cm \<Longrightarrow> a < length h"
  "getSliderBodyMap h a = Some bm \<Longrightarrow> a < length h"
  "getCheckPointMap h a = Some km \<Longrightarrow> a < length h"
  "getJudgementMap h a = Some jm \<Longrightarrow> a < length h"
  "getSpinnerMap h a = Some sm \<Longrightarrow> a < length h"
  "getStringArray h a = Some xs \<Longrightarrow> a < length h"
  "getStringSet h a = Some ys \<Longrightarrow> a < length h"
  "getIndexMap h a = Some im \<Longrightarrow> a < length h"
  "getNumberArray h a = Some ns \<Longrightarrow> a < length h"
  by (auto simp: getPosition_def getHitCircleMap_def getSliderBodyMap_def getCheckPointMap_def
      getJudgementMap_def getSpinnerMap_def getStringArray_def getStringSet_def
      getIndexMap_def getNumberArray_def deref_def isShared_def
      split: if_splits option.splits heapObject.splits)

lemma entryRefs_shared:
  assumes "represents h r g s" and "c \<in> set (containerRefs g)" and "a \<in> set (entryRefs h c)"
  shows "a < length h \<and> isShared (h ! a)"
proof -
  have sh: "asHitCircleState (h ! a) \<noteq> None \<Longrightarrow> isShared (h ! a)"
    "asSliderBodyState (h ! a) \<noteq> None \<Longrightarrow> isShared (h ! a)"
    "asCheckPointState (h ! a) \<noteq> None \<Longrightarrow> isShared (h ! a)"
    "asSpinnerState (h ! a) \<noteq> None \<Longrightarrow> isShared (h ! a)"
    by (auto simp: asHitCircleState_def asSliderBodyState_def asCheckPointState_def
        asSpinnerState_def isShared_def split: heapObject.splits)
  from assms(3) obtain obj where obj: "deref h c = Some obj"
    by (cases "deref h c") (simp_all add: entryRefs_def)
  show ?thesis
  proof (cases obj)
    case (HitCircleMapObj m)
    with obj assms(3) have mem: "a \<in> snd ` set m" by (simp add: entryRefs_def)
    from obj HitCircleMapObj assms(1,2) have "c = o_hitCircleState g"
      by (auto simp: represents_def containerRefs_def getSliderBodyMap_def getCheckPointMap_def
          getJudgementMap_def getSpinnerMap_def getStringArray_def getStringSet_def
          getIndexMap_def)
    with assms(1) obj HitCircleMapObj obtain vs where
      "readEntries asHitCircleState h m = Some vs"
      by (auto simp: represents_def getHitCircleMap_def)
    from readEntries_bound [OF this mem] sh(1) show ?thesis by blast
  next
    case (SliderBodyMapObj m)
    with obj assms(3) have mem: "a \<in> snd ` set m" by (simp add: entryRefs_def)
    from obj SliderBodyMapObj assms(1,2) have "c = o_sliderBodyState g"
      by (auto simp: represents_def containerRefs_def getHitCircleMap_def getCheckPointMap_def
          getJudgementMap_def getSpinnerMap_def getStringArray_def getStringSet_def
          getIndexMap_def)
    with assms(1) obj SliderBodyMapObj obtain vs where
      "readEntries asSliderBodyState h m = Some vs"
      by (auto simp: represents_def getSliderBodyMap_def)
    from readEntries_bound [OF this mem] sh(2) show ?thesis by blast
  next
    case (CheckPointMapObj m)
    with obj assms(3) have mem: "a \<in> snd ` set m" by (simp add: entryRefs_def)
    from obj CheckPointMapObj assms(1,2) have "c = o_checkPointState g"
      by (auto simp: represents_def containerRefs_def getHitCircleMap_def getSliderBodyMap_def
          getJudgementMap_def getSpinnerMap_def getStringArray_def getStringSet_def
          getIndexMap_def)
    with assms(1) obj CheckPointMapObj obtain vs where
      "readEntries asCheckPointState h m = Some vs"
      by (auto simp: represents_def getCheckPointMap_def)
    from readEntries_bound [OF this mem] sh(3) show ?thesis by blast
  next
    case (SpinnerMapObj m)
    with obj assms(3) have mem: "a \<in> snd ` set m" by (simp add: entryRefs_def)
    from obj SpinnerMapObj assms(1,2) have "c = o_spinnerState g"
      by (auto simp: represents_def containerRefs_def getHitCircleMap_def getSliderBodyMap_def
          getJudgementMap_def getCheckPointMap_def getStringArray_def getStringSet_def
          getIndexMap_def)
    with assms(1) obj SpinnerMapObj obtain vs where
      "readEntries asSpinnerState h m = Some vs"
      by (auto simp: represents_def getSpinnerMap_def)
    from readEntries_bound [OF this mem] sh(4) show ?thesis by blast
  qed (use obj assms(3) in \<open>simp_all add: entryRefs_def\<close>)
qed

lemma represents_bounds:
  assumes "represents h r g s"
  shows "r < length h" and "\<forall>c \<in> set (containerRefs g). c < length h"
    and "o_cursorPosition g < length h \<and> isShared (h ! o_cursorPosition g)"
    and "o_pressingSince g < length h"
    and "\<forall>a \<in> set (reachable h r). a < length h"
proof -
  from assms show r: "r < length h" by (simp add: represents_def getState_nth)
  from assms show c: "\<forall>c \<in> set (containerRefs g). c < length h"
    unfolding represents_def containerRefs_def by (auto dest: getter_bound)
  from assms show p: "o_cursorPosition g < length h \<and> isShared (h ! o_cursorPosition g)"
    unfolding represents_def by (auto dest: getter_bound)
  from assms show q: "o_pressingSince g < length h"
    unfolding represents_def by (auto dest: getter_bound)
  from assms have g: "getState h r = Some g" by (simp add: represents_def)
  from r c p q entryRefs_shared [OF assms]
  show "\<forall>a \<in> set (reachable h r). a < length h"
    by (auto simp: reachable_def g)
qed

lemma deref_append: "a < length h \<Longrightarrow> deref (h @ xs) a = deref h a"
  by (simp add: deref_def nth_append)

lemma represents_append:
  assumes "represents h r g s"
  shows "represents (h @ xs) r g s"
  using assms
proof (rule represents_agree)
  show "\<forall>a \<in> set (reachable h r). deref (h @ xs) a = deref h a"
    using represents_bounds(5) [OF assms] by (simp add: deref_append)
qed

lemma getter_Some:
  "getPosition h a = Some p \<longleftrightarrow> a < length h \<and> h ! a = PositionObj p"
  "getHitCircleMap h a = Some cv \<longleftrightarrow>
     (\<exists>m. a < length h \<and> h ! a = HitCircleMapObj m \<and> readEntries asHitCircleState h m = Some cv)"
  "getSliderBodyMap h a = Some bv \<longleftrightarrow>
     (\<exists>m. a < length h \<and> h ! a = SliderBodyMapObj m \<and> readEntries asSliderBodyState h m = Some bv)"
  "getCheckPointMap h a = Some kv \<longleftrightarrow>
     (\<exists>m. a < length h \<and> h ! a = CheckPointMapObj m \<and> readEntries asCheckPointState h m = Some kv)"
  "getSpinnerMap h a = Some sv \<longleftrightarrow>
     (\<exists>m. a < length h \<and> h ! a = SpinnerMapObj m \<and> readEntries asSpinnerState h m = Some sv)"
  "getJudgementMap h a = Some jm \<longleftrightarrow> a < length h \<and> h ! a = JudgementMapObj jm"
  "getIndexMap h a = Some im \<longleftrightarrow> a < length h \<and> h ! a = IndexMapObj im"
  "getStringSet h a = Some ys \<longleftrightarrow> a < length h \<and> h ! a = StringSetObj ys"
  "getStringArray h a = Some xs \<longleftrightarrow> a < length h \<and> h ! a = StringArrayObj xs"
  "getNumberArray h a = Some ns \<longleftrightarrow> a < length h \<and> h ! a = NumberArrayObj ns"
  by (auto simp: getPosition_def getHitCircleMap_def getSliderBodyMap_def getCheckPointMap_def
      getJudgementMap_def getSpinnerMap_def getStringArray_def getStringSet_def
      getIndexMap_def getNumberArray_def deref_def
      split: if_splits option.splits heapObject.splits)

lemma readEntries_append:
  assumes "readEntries as h m = Some vs"
  shows "readEntries as (h @ xs) m = Some vs"
proof -
  have "readEntries as (h @ xs) m = readEntries as h m"
  proof (rule readEntries_agree)
    show "\<forall>a \<in> snd ` set m. deref (h @ xs) a = deref h a"
      using readEntries_bound [OF assms] by (simp add: deref_append)
  qed
  with assms show ?thesis by simp
qed

definition clonedState :: "nat \<Rightarrow> GameStateObject \<Rightarrow> GameStateObject" where
  "clonedState n g =
     \<lparr>o_currentTime = o_currentTime g,
      o_cursorPosition = o_cursorPosition g,
      o_hitCircleState = n,
      o_sliderBodyState = n + 7,
      o_checkPointState = n + 4,
      o_sliderJudgement = n + 8,
      o_spinnerState = n + 9,
      o_currentCombo = o_currentCombo g,
      o_maxCombo = o_maxCombo g,
      o_clickWasUseful = o_clickWasUseful g,
      o_judgedObjects = n + 5,
      o_latestHitObjectIndex = o_latestHitObjectIndex g,
      o_aliveHitCircleIds = n + 1,
      o_aliveSliderIds = n + 2,
      o_aliveSpinnerIds = n + 3,
      o_nextCheckPointIndex = n + 6,
      o_pressingSince = n + 10\<rparr>"

lemma cloneGameStateH_result:
  assumes rep: "represents h r g s"
  shows "\<exists>h1. cloneGameStateH r h = Some (length h + 11, h1) \<and>
     length h1 = length h + 12 \<and> take (length h) h1 = h \<and>
     represents h1 (length h + 11) (clonedState (length h) g) s \<and>
     (\<forall>c \<in> set (containerRefs (clonedState (length h) g)).
        set (entryRefs h1 c) \<subseteq> set (concat (map (entryRefs h) (containerRefs g))))"
proof -
  let ?n = "length h"
  from rep obtain cm bm km sm where cells:
    "o_hitCircleState g < ?n" "h ! o_hitCircleState g = HitCircleMapObj cm"
    "readEntries asHitCircleState h cm = Some (hitCircleState s)"
    "o_sliderBodyState g < ?n" "h ! o_sliderBodyState g = SliderBodyMapObj bm"
    "readEntries asSliderBodyState h bm = Some (sliderBodyState s)"
    "o_checkPointState g < ?n" "h ! o_checkPointState g = CheckPointMapObj km"
    "readEntries asCheckPointState h km = Some (checkPointState s)"
    "o_spinnerState g < ?n" "h ! o_spinnerState g = SpinnerMapObj sm"
    "readEntries asSpinnerState h sm = Some (spinnerState s)"
    unfolding represents_def getter_Some by blast
  from rep have simple:
    "o_sliderJudgement g < ?n" "h ! o_sliderJudgement g = JudgementMapObj (sliderJudgement s)"
    "o_judgedObjects g < ?n" "h ! o_judgedObjects g = StringArrayObj (judgedObjects s)"
    "o_aliveHitCircleIds g < ?n" "h ! o_aliveHitCircleIds g = StringSetObj (aliveHitCircleIds s)"
    "o_aliveSliderIds g < ?n" "h ! o_aliveSliderIds g = StringSetObj (aliveSliderIds s)"
    "o_aliveSpinnerIds g < ?n" "h ! o_aliveSpinnerIds g = StringSetObj (aliveSpinnerIds s)"
    "o_nextCheckPointIndex g < ?n"
    "h ! o_nextCheckPointIndex g = IndexMapObj (nextCheckPointIndex s)"
    "o_pressingSince g < ?n" "h ! o_pressingSince g = NumberArrayObj (pressingSince s)"
    "o_cursorPosition g < ?n" "h ! o_cursorPosition g = PositionObj (cursorPosition s)"
    unfolding represents_def getter_Some by simp_all
  from rep have g: "getState h r = Some g" and
    scalars: "o_currentTime g = currentTime s" "o_currentCombo g = currentCombo s"
      "o_maxCombo g = maxCombo s" "o_clickWasUseful g = clickWasUseful s"
      "o_latestHitObjectIndex g = latestHitObjectIndex s"
    by (simp_all add: represents_def)
  define cells where "cells =
     [HitCircleMapObj cm, StringSetObj (aliveHitCircleIds s), StringSetObj (aliveSliderIds s),
      StringSetObj (aliveSpinnerIds s), CheckPointMapObj km, StringArrayObj (judgedObjects s),
      IndexMapObj (nextCheckPointIndex s), SliderBodyMapObj bm,
      JudgementMapObj (sliderJudgement s), SpinnerMapObj sm, NumberArrayObj (pressingSince s),
      GameStateObj (clonedState ?n g)]"
  have cl: "cloneGameStateH r h = Some (?n + 11, h @ cells)"
    unfolding cloneGameStateH_def g
    by (simp add: deref_def cells simple cells_def clonedState_def Let_def)
  have lc: "length cells = 12" by (simp add: cells_def)
  have len: "length (h @ cells) = ?n + 12" by (simp add: cells_def)
  have nth: "(h @ cells) ! ?n = HitCircleMapObj cm"
    "(h @ cells) ! (?n + 1) = StringSetObj (aliveHitCircleIds s)"
    "(h @ cells) ! (?n + 2) = StringSetObj (aliveSliderIds s)"
    "(h @ cells) ! (?n + 3) = StringSetObj (aliveSpinnerIds s)"
    "(h @ cells) ! (?n + 4) = CheckPointMapObj km"
    "(h @ cells) ! (?n + 5) = StringArrayObj (judgedObjects s)"
    "(h @ cells) ! (?n + 6) = IndexMapObj (nextCheckPointIndex s)"
    "(h @ cells) ! (?n + 7) = SliderBodyMapObj bm"
    "(h @ cells) ! (?n + 8) = JudgementMapObj (sliderJudgement s)"
    "(h @ cells) ! (?n + 9) = SpinnerMapObj sm"
    "(h @ cells) ! (?n + 10) = NumberArrayObj (pressingSince s)"
    "(h @ cells) ! (?n + 11) = GameStateObj (clonedState ?n g)"
    by (simp_all add: cells_def nth_append)
  have old: "(h @ cells) ! o_cursorPosition g = PositionObj (cursorPosition s)"
    using simple by (simp add: nth_append)
  have rd: "readEntries asHitCircleState (h @ cells) cm = Some (hitCircleState s)"
    "readEntries asSliderBodyState (h @ cells) bm = Some (sliderBodyState s)"
    "readEntries asCheckPointState (h @ cells) km = Some (checkPointState s)"
    "readEntries asSpinnerState (h @ cells) sm = Some (spinnerState s)"
    using cells by (simp_all add: readEntries_append)
  have rep': "represents (h @ cells) (?n + 11) (clonedState ?n g) s"
    unfolding represents_def getter_Some getState_nth
    using nth old rd scalars simple(15) by (simp add: clonedState_def lc)
  have ent: "set (entryRefs (h @ cells) c) \<subseteq> set (concat (map (entryRefs h) (containerRefs g)))"
    if "c \<in> set (containerRefs (clonedState ?n g))" for c
  proof -
    have e: "entryRefs h (o_hitCircleState g) = map snd cm"
      "entryRefs h (o_sliderBodyState g) = map snd bm"
      "entryRefs h (o_checkPointState g) = map snd km"
      "entryRefs h (o_spinnerState g) = map snd sm"
      using cells by (simp_all add: entryRefs_def deref_def)
    from that consider "c = ?n" | "c = ?n + 7" | "c = ?n + 4" | "c = ?n + 8" | "c = ?n + 9"
      | "c = ?n + 5" | "c = ?n + 1" | "c = ?n + 2" | "c = ?n + 3" | "c = ?n + 6"
      by (auto simp: containerRefs_def clonedState_def)
    then show ?thesis
      using nth e
      by cases (auto simp: entryRefs_def deref_def lc containerRefs_def)
  qed
  from cl len rep' ent show ?thesis by auto
qed

lemma clone_run_leaves_original:
  assumes rep: "represents h r g s"
    and cl: "cloneGameStateH r h = Some (r', h1)"
    and run: "evaluateFramesH ev r' frames h1 = (out, h2)"
  shows "take (length h) h2 = h \<and> readGameState h2 r = Some s"
proof -
  let ?n = "length h"
  let ?A = "{?n ..< ?n + 12}"
  from cloneGameStateH_result [OF rep] cl have
    r': "r' = ?n + 11" and len: "length h1 = ?n + 12" and tk: "take ?n h1 = h" and
    rep': "represents h1 r' (clonedState ?n g) s"
    by auto
  from rep' have g': "getState h1 r' = Some (clonedState ?n g)" by (simp add: represents_def)
  have "owns (?n + 12) ?A r' h1"
    unfolding owns_def g' by (auto simp: len r' containerRefs_def clonedState_def)
  from confinedD(2) [OF confined_evaluateFramesH this, of ev frames] run
  have u: "unchangedOutside (?n + 12) ?A h1 h2" by simp
  have same: "h2 ! a = h ! a" if "a < ?n" for a
  proof -
    from u that have "h2 ! a = h1 ! a" by (simp add: unchangedOutside_def)
    also from tk that have "h1 ! a = h ! a" by (metis nth_take)
    finally show ?thesis .
  qed
  from u len have l2: "?n \<le> length h2" by (simp add: unchangedOutside_def)
  have t2: "take ?n h2 = h"
    using same l2 by (intro nth_equalityI) simp_all
  then have "h2 = h @ drop ?n h2" by (metis append_take_drop_id)
  with represents_append [OF rep, of "drop ?n h2"] have "represents h2 r g s" by simp
  then have "readGameState h2 r = Some s" unfolding readGameState_represents by blast
  with t2 show ?thesis by simp
qed

lemma original_run_leaves_clone:
  assumes rep: "represents h r g s"
    and cl: "cloneGameStateH r h = Some (r', h1)"
    and run: "evaluateFramesH ev r frames h1 = (out, h3)"
  shows "(\<forall>a \<in> set (reachable h1 r'). h3 ! a = h1 ! a) \<and> readGameState h3 r' = Some s"
proof -
  let ?n = "length h"
  let ?A = "insert r (set (containerRefs g))"
  from cloneGameStateH_result [OF rep] cl have
    r': "r' = ?n + 11" and len: "length h1 = ?n + 12" and tk: "take ?n h1 = h" and
    rep': "represents h1 r' (clonedState ?n g) s" and
    ent: "\<forall>c \<in> set (containerRefs (clonedState ?n g)).
        set (entryRefs h1 c) \<subseteq> set (concat (map (entryRefs h) (containerRefs g)))"
    by auto
  from tk have h1: "h1 = h @ drop ?n h1" by (metis append_take_drop_id)
  note b = represents_bounds [OF rep]
  have old: "h1 ! a = h ! a" if "a < ?n" for a
    using tk that by (metis nth_take)
  have rep1: "represents h1 r g s"
    using represents_append [OF rep, of "drop ?n h1"] h1 by simp
  then have g1: "getState h1 r = Some g" by (simp add: represents_def)
  have "owns (?n + 12) ?A r h1"
    unfolding owns_def g1 using b(1) by (simp add: len)
  from confinedD(2) [OF confined_evaluateFramesH this, of ev frames] run
  have u: "unchangedOutside (?n + 12) ?A h1 h3" by simp
  from rep' have g': "getState h1 r' = Some (clonedState ?n g)" by (simp add: represents_def)
  have fresh: "h3 ! a = h1 ! a" if "?n \<le> a" "a < ?n + 12" for a
  proof -
    from that b(1,2) have "a \<notin> ?A" by auto
    with u that show ?thesis by (simp add: unchangedOutside_def)
  qed
  have shared: "h3 ! a = h1 ! a" if "a < ?n" "isShared (h ! a)" for a
    using u that old [OF that(1)] by (simp add: unchangedOutside_def len)
  have same: "h3 ! a = h1 ! a" if "a \<in> set (reachable h1 r')" for a
  proof -
    from that consider "a = r'" | "a = o_cursorPosition g" | "a = ?n + 10"
      | "a \<in> set (containerRefs (clonedState ?n g))"
      | c where "c \<in> set (containerRefs (clonedState ?n g))" "a \<in> set (entryRefs h1 c)"
      by (auto simp: reachable_def g' clonedState_def)
    then show ?thesis
    proof cases
      case 1
      then show ?thesis using fresh [of a] by (simp add: r')
    next
      case 2
      then show ?thesis using shared [of a] b(3) by simp
    next
      case 3
      then show ?thesis using fresh [of a] by simp
    next
      case 4
      then have "?n \<le> a \<and> a < ?n + 12" by (auto simp: containerRefs_def clonedState_def)
      then show ?thesis using fresh [of a] by simp
    next
      case 5
      with ent obtain c0 where "c0 \<in> set (containerRefs g)" "a \<in> set (entryRefs h c0)"
        by auto
      from entryRefs_shared [OF rep this] show ?thesis using shared [of a] by simp
    qed
  qed
  from u have l3: "length h1 \<le> length h3" by (simp add: unchangedOutside_def)
  have "represents h3 r' (clonedState ?n g) s"
    using rep'
  proof (rule represents_agree)
    show "\<forall>a \<in> set (reachable h1 r'). deref h3 a = deref h1 a"
      using same represents_bounds(5) [OF rep'] l3 by (auto simp: deref_def)
  qed
  then have "readGameState h3 r' = Some s" unfolding readGameState_represents by blast
  with same show ?thesis by blast
qed

text \<open>
  Claim C9. For a state object whose fields refer to objects of their types,
  \<open>cloneGameState\<close> returns a new state object that reads as the same value, field
  for field, and the original still reads as before. The clone is isolated: whatever
  frames \<open>evaluateNextFrameMutated\<close> is given for the clone, and whether the run
  completes, throws or gets stuck, every object of the heap as it was before the clone is
  left as it is (the original state object, its containers, the entries of its maps and
  its cursor position among them), and the original reads as the same value; and whatever
  frames it is given for the original, every object that the clone's value depends on
  (its state object, its containers, the entries of its maps and its cursor position,
  which it shares with the original) is left as it is, and the clone reads as the same
  value.
\<close>

theorem clone_isolated:
  assumes "readGameState h r = Some s"
  shows "\<exists>r' h1.
     cloneGameStateH r h = Some (r', h1) \<and>
     readGameState h1 r' = Some s \<and> readGameState h1 r = Some s \<and>
     (\<forall>ev frames out h2.
        evaluateFramesH ev r' frames h1 = (out, h2) \<longrightarrow>
          take (length h) h2 = h \<and> readGameState h2 r = Some s) \<and>
     (\<forall>ev frames out h3.
        evaluateFramesH ev r frames h1 = (out, h3) \<longrightarrow>
          (\<forall>a \<in> set (reachable h1 r'). h3 ! a = h1 ! a) \<and> readGameState h3 r' = Some s)"
proof -
  from assms obtain g where rep: "represents h r g s"
    unfolding readGameState_represents by blast
  from cloneGameStateH_result [OF rep] obtain h1 where
    cl: "cloneGameStateH r h = Some (length h + 11, h1)" and
    tk: "take (length h) h1 = h" and
    rep': "represents h1 (length h + 11) (clonedState (length h) g) s"
    by blast
  from tk have "h1 = h @ drop (length h) h1" by (metis append_take_drop_id)
  with represents_append [OF rep, of "drop (length h) h1"] have "represents h1 r g s" by simp
  then have r1: "readGameState h1 r = Some s" unfolding readGameState_represents by blast
  from rep' have r2: "readGameState h1 (length h + 11) = Some s"
    unfolding readGameState_represents by blast
  from cl r1 r2 clone_run_leaves_original [OF rep cl] original_run_leaves_clone [OF rep cl]
  show ?thesis by blast
qed

definition midGameHeap :: heap where
  \<comment> \<open>A heap in which the object at 15 is \<open>sliderMidState\<close>; the objects at 16 and 17
      are the positions of two later frames.\<close>
  "midGameHeap =
     [PositionObj \<lparr>pos_x = 60, pos_y = 0\<rparr>,
      HitCircleStateObj \<lparr>judgementTime = 1101, hcs_type = MISS, missReason = Some TIME_EXPIRED\<rparr>,
      SliderBodyStateObj \<lparr>isTracking = True\<rparr>,
      CheckPointStateObj \<lparr>hit = False\<rparr>,
      HitCircleMapObj [(''s/h'', 1)],
      SliderBodyMapObj [(''s'', 2)],
      CheckPointMapObj [(''s/0'', 3)],
      JudgementMapObj [],
      SpinnerMapObj [],
      StringArrayObj [''s/h'', ''s/0''],
      StringSetObj [],
      StringSetObj [''s''],
      StringSetObj [],
      IndexMapObj [(''s'', 1)],
      NumberArrayObj [NOT_PRESSING, 1600],
      GameStateObj
        \<lparr>o_currentTime = 1600, o_cursorPosition = 0, o_hitCircleState = 4,
         o_sliderBodyState = 5, o_checkPointState = 6, o_sliderJudgement = 7,
         o_spinnerState = 8, o_currentCombo = 0, o_maxCombo = 0, o_clickWasUseful = False,
         o_judgedObjects = 9, o_latestHitObjectIndex = 1, o_aliveHitCircleIds = 10,
         o_aliveSliderIds = 11, o_aliveSpinnerIds = 12, o_nextCheckPointIndex = 13,
         o_pressingSince = 14\<rparr>,
      PositionObj \<lparr>pos_x = 500, pos_y = 0\<rparr>,
      PositionObj \<lparr>pos_x = 100, pos_y = 0\<rparr>]"

definition laterHeapFrames :: "HeapFrame list" where
  \<comment> \<open>The cursor leaves the slider ball while the button is held, then the slider ends.\<close>
  "laterHeapFrames =
     [\<lparr>hf_time = 1700, hf_position = 16, hf_actions = [rightButton]\<rparr>,
      \<lparr>hf_time = 2001, hf_position = 17, hf_actions = []\<rparr>]"

definition laterFrames :: "ReplayFrame list" where
  \<comment> \<open>\<open>laterHeapFrames\<close> with the positions as values.\<close>
  "laterFrames =
     [\<lparr>fr_time = 1700, fr_position = \<lparr>pos_x = 500, pos_y = 0\<rparr>, fr_actions = [rightButton]\<rparr>,
      \<lparr>fr_time = 2001, fr_position = \<lparr>pos_x = 100, pos_y = 0\<rparr>, fr_actions = []\<rparr>]"

definition sliderOverState :: GameState where
  \<comment> \<open>\<open>sliderMidState\<close> after \<open>laterFrames\<close>: the slider is judged.\<close>
  "sliderOverState =
     sliderMidState
       \<lparr>currentTime := 2001,
        cursorPosition := \<lparr>pos_x = 100, pos_y = 0\<rparr>,
        sliderBodyState := [],
        sliderJudgement := [(''s'', MISS)],
        judgedObjects := [''s/h'', ''s/0'', ''s''],
        aliveSliderIds := [],
        nextCheckPointIndex := [],
        pressingSince := [NOT_PRESSING, NOT_PRESSING]\<rparr>"

definition sliderThrownState :: GameState where
  \<comment> \<open>\<open>sliderMidState\<close> at the moment at which the first of \<open>laterFrames\<close> throws under
      an evaluator whose beatmap has no slider.\<close>
  "sliderThrownState =
     sliderMidState
       \<lparr>currentTime := 1700,
        cursorPosition := \<lparr>pos_x = 500, pos_y = 0\<rparr>,
        pressingSince := [NOT_PRESSING, 1600]\<rparr>"

theorem clone_isolated_witness:
  "readGameState midGameHeap 15 = Some sliderMidState \<and>
   (\<exists>h1. cloneGameStateH 15 midGameHeap = Some (29, h1) \<and>
      readGameState h1 29 = Some sliderMidState \<and>
      readGameState h1 15 = Some sliderMidState \<and>
      (\<exists>h2. evaluateFramesH demoEvaluator 29 laterHeapFrames h1 = (Done, h2) \<and>
         evaluateFrames demoEvaluator sliderMidState laterFrames = Inr sliderOverState \<and>
         readGameState h2 29 = Some sliderOverState \<and>
         take (length midGameHeap) h2 = midGameHeap \<and>
         readGameState h2 15 = Some sliderMidState) \<and>
      (\<exists>h2. evaluateFramesH circleEvaluator 29 laterHeapFrames h1 =
               (Threw (UnknownHitObject ''s''), h2) \<and>
         readGameState h2 29 = Some sliderThrownState \<and>
         take (length midGameHeap) h2 = midGameHeap \<and>
         readGameState h2 15 = Some sliderMidState) \<and>
      (\<exists>h3. evaluateFramesH demoEvaluator 15 laterHeapFrames h1 = (Done, h3) \<and>
         readGameState h3 15 = Some sliderOverState \<and>
         set (reachable h1 29) = {0, 1, 2, 3} \<union> {18 ..< 30} \<and>
         h3 ! 2 = h1 ! 2 \<and> h3 ! 25 = h1 ! 25 \<and>
         readGameState h3 29 = Some sliderMidState)) \<and>
   sliderOverState \<noteq> sliderMidState \<and> sliderThrownState \<noteq> sliderMidState"
proof -
  have rd: "readGameState midGameHeap 15 = Some sliderMidState" by code_simp
  from clone_isolated [OF rd] obtain r' h1 where
    cl: "cloneGameStateH 15 midGameHeap = Some (r', h1)" and
    r1: "readGameState h1 r' = Some sliderMidState" and
    r2: "readGameState h1 15 = Some sliderMidState" and
    onClone: "\<And>ev frames out h2. evaluateFramesH ev r' frames h1 = (out, h2) \<Longrightarrow>
       take (length midGameHeap) h2 = midGameHeap \<and> readGameState h2 15 = Some sliderMidState" and
    onOriginal: "\<And>ev frames out h3. evaluateFramesH ev 15 frames h1 = (out, h3) \<Longrightarrow>
       (\<forall>a \<in> set (reachable h1 r'). h3 ! a = h1 ! a) \<and>
       readGameState h3 r' = Some sliderMidState"
    by blast
  have c: "cloneGameStateH 15 midGameHeap =
      Some (29, the (map_option snd (cloneGameStateH 15 midGameHeap)))"
    by code_simp
  with cl have r': "r' = 29" and h1: "h1 = the (map_option snd (cloneGameStateH 15 midGameHeap))"
    by simp_all
  obtain h2 where run2: "evaluateFramesH demoEvaluator 29 laterHeapFrames h1 = (Done, h2)"
    and read2: "readGameState h2 29 = Some sliderOverState"
  proof
    show "evaluateFramesH demoEvaluator 29 laterHeapFrames h1 =
        (Done, snd (evaluateFramesH demoEvaluator 29 laterHeapFrames h1))"
      unfolding h1 by code_simp
    show "readGameState (snd (evaluateFramesH demoEvaluator 29 laterHeapFrames h1)) 29 =
        Some sliderOverState"
      unfolding h1 by code_simp
  qed
  obtain h2' where run2': "evaluateFramesH circleEvaluator 29 laterHeapFrames h1 =
        (Threw (UnknownHitObject ''s''), h2')"
    and read2': "readGameState h2' 29 = Some sliderThrownState"
  proof
    show "evaluateFramesH circleEvaluator 29 laterHeapFrames h1 =
        (Threw (UnknownHitObject ''s''),
         snd (evaluateFramesH circleEvaluator 29 laterHeapFrames h1))"
      unfolding h1 by code_simp
    show "readGameState (snd (evaluateFramesH circleEvaluator 29 laterHeapFrames h1)) 29 =
        Some sliderThrownState"
      unfolding h1 by code_simp
  qed
  obtain h3 where run3: "evaluateFramesH demoEvaluator 15 laterHeapFrames h1 = (Done, h3)"
    and read3: "readGameState h3 15 = Some sliderOverState"
  proof
    show "evaluateFramesH demoEvaluator 15 laterHeapFrames h1 =
        (Done, snd (evaluateFramesH demoEvaluator 15 laterHeapFrames h1))"
      unfolding h1 by code_simp
    show "readGameState (snd (evaluateFramesH demoEvaluator 15 laterHeapFrames h1)) 15 =
        Some sliderOverState"
      unfolding h1 by code_simp
  qed
  have v: "evaluateFrames demoEvaluator sliderMidState laterFrames = Inr sliderOverState"
    by code_simp
  have reach: "set (reachable h1 29) = {0, 1, 2, 3} \<union> {18 ..< 30}"
    unfolding h1 by code_simp
  have ne: "sliderOverState \<noteq> sliderMidState" "sliderThrownState \<noteq> sliderMidState"
    by (simp_all add: sliderOverState_def sliderThrownState_def sliderMidState_def
          defaultReplayState_def)
  from onOriginal [OF run3] have same: "\<And>a. a \<in> set (reachable h1 29) \<Longrightarrow> h3 ! a = h1 ! a"
    and read3': "readGameState h3 29 = Some sliderMidState"
    unfolding r' by blast+
  have s2: "h3 ! 2 = h1 ! 2" and s25: "h3 ! 25 = h1 ! 25"
    by (rule same, simp add: reach)+
  note a = onClone [unfolded r', OF run2] onClone [unfolded r', OF run2']
  show ?thesis
    using rd cl [unfolded r'] r1 [unfolded r'] r2 run2 v read2 a run2' read2' run3 read3 reach
      s2 s25 read3' ne
    by blast
qed

end
